(* ===== verification/Prelude.thy ===== *)
theory Prelude
  imports Main "HOL-Library.Word" "HOL-Library.Monad_Syntax"
begin

text \<open>
  Shared vocabulary of the development.

  \<^item> The C integer types of the i386 build as words: \<open>ULONG\<close>, \<open>ULONG_PTR\<close> and
    \<open>SIZE_T\<close> are 32 bits wide, \<open>ULONGLONG\<close> is 64 bits wide.
  \<^item> Array accesses \<open>rd\<close> and \<open>wr\<close>: an access outside the array is the value
    \<open>None\<close>, so that a theorem whose conclusion is \<open>Some r\<close> also says that no access of
    the routine leaves its buffer.
  \<^item> \<open>run_len\<close>, the reference notion of the length of a run of positions.
  \<^item> Facts on words, lists and options used by several components; the collections
    \<open>mem_simps\<close> (array accesses) and \<open>unat_simps\<close> (moving word arithmetic to the natural
    numbers).
\<close>

unbundle bit_operations_syntax

named_theorems mem_simps "array accesses"
named_theorems unat_simps "word arithmetic that does not wrap, on natural numbers"

type_synonym UCHAR = "8 word"
type_synonym USHORT = "16 word"
type_synonym ULONG = "32 word"
type_synonym ULONGLONG = "64 word"
type_synonym ULONG_PTR = "32 word"

type_synonym NTSTATUS = "32 word"

section \<open>Status codes\<close>

definition NT_SUCCESS :: "NTSTATUS \<Rightarrow> bool" where
  "NT_SUCCESS s \<longleftrightarrow> 0 \<le> sint s"

abbreviation (input) "STATUS_SUCCESS \<equiv> (0 :: NTSTATUS)"
abbreviation (input) "STATUS_TIMEOUT \<equiv> (0x102 :: NTSTATUS)"
abbreviation (input) "STATUS_INVALID_PARAMETER \<equiv> (0xC000000D :: NTSTATUS)"
abbreviation (input) "STATUS_NO_MORE_ENTRIES \<equiv> (0x8000001A :: NTSTATUS)"
abbreviation (input) "STATUS_NO_MEMORY \<equiv> (0xC0000017 :: NTSTATUS)"
abbreviation (input) "STATUS_BUFFER_TOO_SMALL \<equiv> (0xC0000023 :: NTSTATUS)"
abbreviation (input) "STATUS_INVALID_SID \<equiv> (0xC0000078 :: NTSTATUS)"
abbreviation (input) "STATUS_INSUFFICIENT_RESOURCES \<equiv> (0xC000009A :: NTSTATUS)"
abbreviation (input) "STATUS_RANGE_NOT_FOUND \<equiv> (0xC000028C :: NTSTATUS)"

section \<open>Arrays\<close>

definition rd :: "'a list \<Rightarrow> nat \<Rightarrow> 'a option" where
  "rd xs i = (if i < length xs then Some (xs ! i) else None)"

definition wr :: "'a list \<Rightarrow> nat \<Rightarrow> 'a \<Rightarrow> 'a list option" where
  "wr xs i v = (if i < length xs then Some (xs[i := v]) else None)"

lemma rd_in [mem_simps]: "i < length xs \<Longrightarrow> rd xs i = Some (xs ! i)"
  by (simp add: rd_def)

lemma wr_in [mem_simps]: "i < length xs \<Longrightarrow> wr xs i v = Some (xs[i := v])"
  by (simp add: wr_def)

lemma rd_Some_iff: "rd xs i = Some v \<longleftrightarrow> i < length xs \<and> v = xs ! i"
  by (auto simp: rd_def)

lemma wr_Some_iff: "wr xs i v = Some ys \<longleftrightarrow> i < length xs \<and> ys = xs[i := v]"
  by (auto simp: wr_def)

section \<open>Runs of positions\<close>

definition run_len :: "(nat \<Rightarrow> bool) \<Rightarrow> nat \<Rightarrow> nat \<Rightarrow> nat" where
  "run_len P s e = length (takeWhile P [s..<e])"

lemma run_len_le: "run_len P s e \<le> e - s"
  unfolding run_len_def by (metis length_takeWhile_le length_upt)

lemma run_len_all: "s \<le> i \<Longrightarrow> i < s + run_len P s e \<Longrightarrow> P i"
proof -
  assume a: "s \<le> i" "i < s + run_len P s e"
  have lt: "i - s < length (takeWhile P [s..<e])"
    using a by (simp add: run_len_def)
  have "takeWhile P [s..<e] ! (i - s) = [s..<e] ! (i - s)"
    using lt by (rule takeWhile_nth)
  moreover have "i - s < length [s..<e]"
    using lt length_takeWhile_le[of P "[s..<e]"] by linarith
  ultimately have "takeWhile P [s..<e] ! (i - s) = i"
    using a(1) by simp
  moreover have "takeWhile P [s..<e] ! (i - s) \<in> set (takeWhile P [s..<e])"
    using lt by (rule nth_mem)
  ultimately show "P i" by (metis set_takeWhileD)
qed

lemma run_len_stop: "s + run_len P s e < e \<Longrightarrow> \<not> P (s + run_len P s e)"
proof -
  assume a: "s + run_len P s e < e"
  let ?n = "length (takeWhile P [s..<e])"
  have "?n < length [s..<e]" using a by (simp add: run_len_def)
  then have "\<not> P ([s..<e] ! ?n)" by (rule nth_length_takeWhile)
  then show ?thesis using a by (simp add: run_len_def)
qed

lemma run_lenI:
  assumes "s + n \<le> e" and "\<And>i. s \<le> i \<Longrightarrow> i < s + n \<Longrightarrow> P i"
    and "s + n < e \<Longrightarrow> \<not> P (s + n)"
  shows "run_len P s e = n"
proof (rule ccontr)
  let ?r = "run_len P s e"
  assume "?r \<noteq> n"
  then consider "?r < n" | "n < ?r" by linarith
  then show False
  proof cases
    case 1
    have "\<not> P (s + ?r)" using 1 assms(1) by (intro run_len_stop) simp
    moreover have "P (s + ?r)" using 1 by (intro assms(2)) simp_all
    ultimately show False by contradiction
  next
    case 2
    then have "P (s + n)" by (intro run_len_all[of s "s + n" P e]) simp_all
    moreover have "s + n < e" using 2 run_len_le[of P s e] by linarith
    ultimately show False using assms(3) by blast
  qed
qed

lemma run_len_ge:
  assumes "s + n \<le> e" and "\<And>i. s \<le> i \<Longrightarrow> i < s + n \<Longrightarrow> P i"
  shows "n \<le> run_len P s e"
proof (rule ccontr)
  assume "\<not> n \<le> run_len P s e"
  then have lt: "s + run_len P s e < s + n" by simp
  then have "\<not> P (s + run_len P s e)" using assms(1) by (intro run_len_stop) simp
  then show False using assms(2)[of "s + run_len P s e"] lt by simp
qed

lemma run_len_end [simp]: "e \<le> s \<Longrightarrow> run_len P s e = 0"
  by (simp add: run_len_def)

lemma run_len_pos: "s < e \<Longrightarrow> P s \<Longrightarrow> 0 < run_len P s e"
proof -
  assume "s < e" and "P s"
  then have "1 \<le> run_len P s e" by (intro run_len_ge) (auto simp: le_less_Suc_eq)
  then show ?thesis by simp
qed

lemma run_len_zero: "s < e \<Longrightarrow> \<not> P s \<Longrightarrow> run_len P s e = 0"
  by (rule run_lenI) auto

lemma run_len_first:
  assumes "s \<le> p" and "s \<le> e" and "\<And>i. s \<le> i \<Longrightarrow> i < p \<Longrightarrow> P i" and "\<not> P p"
  shows "run_len P s e = min p e - s"
proof (rule run_lenI)
  show "s + (min p e - s) \<le> e" using assms(2) by simp
  show "P i" if "s \<le> i" "i < s + (min p e - s)" for i
    using that assms(1,2) by (intro assms(3)) linarith+
  show "\<not> P (s + (min p e - s))" if "s + (min p e - s) < e"
  proof -
    have "s + (min p e - s) = p" using that assms(1,2) by linarith
    then show ?thesis using assms(4) by simp
  qed
qed

section \<open>Words as natural numbers\<close>

lemma unat_add_fits [unat_simps]:
  "unat (a :: 'a::len word) + unat b < 2 ^ LENGTH('a) \<Longrightarrow> unat (a + b) = unat a + unat b"
  by (simp add: unat_word_ariths)

lemma unat_sub_fits [unat_simps]:
  "b \<le> (a :: 'a::len word) \<Longrightarrow> unat (a - b) = unat a - unat b"
  by (simp add: unat_sub word_le_nat_alt)

lemma word_le_unat: "a \<le> (b :: 'a::len word) \<longleftrightarrow> unat a \<le> unat b"
  by (simp add: word_le_nat_alt)

lemma word_lt_unat: "a < (b :: 'a::len word) \<longleftrightarrow> unat a < unat b"
  by (simp add: word_less_nat_alt)

lemma unat_lt32: "unat (a :: 32 word) < 4294967296"
  using unsigned_less[of a] by simp

lemma unat_div32 [unat_simps]: "unat ((a :: 32 word) div 32) = unat a div 32"
  by (simp add: unat_div)

lemma unat_and31 [unat_simps]: "unat ((a :: 32 word) AND 31) = unat a mod 32"
proof -
  have "a AND 31 = take_bit 5 a"
    by (simp add: take_bit_eq_mask mask_eq_exp_minus_1)
  then have "unat (a AND 31) = take_bit 5 (unat a)"
    by (simp add: unsigned_take_bit_eq)
  then show ?thesis by (simp add: take_bit_eq_mod)
qed

lemma unat_min: "unat (min a b :: 'a::len word) = min (unat a) (unat b)"
  by (simp add: min_def word_le_nat_alt)

lemma and_not_mask:
  assumes "unat (align :: 32 word) = 2 ^ k"
  shows "unat (x AND NOT (align - 1)) = 2 ^ k * (unat x div 2 ^ k)"
proof -
  have "align = of_nat (unat align)" by simp
  then have m: "align - 1 = mask k" unfolding assms by (simp add: mask_eq_exp_minus_1)
  have "x AND NOT (mask k) = push_bit k (drop_bit k x)"
  proof (rule bit_eqI)
    show "bit (x AND NOT (mask k)) n = bit (push_bit k (drop_bit k x)) n" if "possible_bit TYPE(32 word) n" for n
      using that by (cases "n < k") (auto simp: bit_and_iff bit_not_iff bit_mask_iff bit_push_bit_iff bit_drop_bit_eq)
  qed
  moreover have "2 ^ k * (unat x div 2 ^ k) < 2 ^ 32"
    using unsigned_less[of x, where 'a = nat] by (intro le_less_trans[OF times_div_less_eq_dividend]) simp
  moreover have "unat (drop_bit k x) = unat x div 2 ^ k"
    unfolding unsigned_drop_bit_eq drop_bit_eq_div[of k "_ :: nat"]
    using unat_lt32[of x] by (simp add: take_bit_nat_eq_self)
  ultimately show ?thesis unfolding m
    by (simp only: unsigned_push_bit_eq push_bit_eq_mult[of k "_ :: nat"] mult.commute[of _ "2 ^ k"])
      (simp add: take_bit_nat_eq_self)
qed

end
