(* ===== verification/Bitmap.thy ===== *)
theory Bitmap
  imports Prelude
begin

text \<open>
  The bitmap package, \<open>src/sdk/lib/rtl/bitmap.c\<close> (the 32-bit instantiation, \<open>_BITCOUNT\<close> = 32,
  \<open>BITMAP_INDEX\<close> = \<open>ULONG\<close>), with \<open>RtlFillMemoryUlong\<close> of \<open>src/sdk/lib/rtl/mem.c\<close>.

  A header is a record of its size in bits and of the array its \<open>Buffer\<close> points to. A pointer
  into that array is its element index. Every routine is in the option monad: \<open>None\<close> is an
  access outside the buffer, the use of a bit-scan index of zero, or a loop that does not end,
  so each \<open>= Some r\<close> below excludes all three. Indices are 32-bit words, so the sums the C code
  computes wrap where they wrap there.

  The theorems compare the word-at-a-time scans with the bits themselves: \<open>test bm i\<close> is bit
  \<open>i\<close>, and \<open>run_len\<close> of the prelude is the length of the maximal run from a position.
\<close>

type_synonym BITMAP_INDEX = "32 word"
type_synonym BITMAP_BUFFER = "32 word"

record RTL_BITMAP =
  SizeOfBitMap :: BITMAP_INDEX
  Buffer :: "BITMAP_BUFFER list"

record RTL_BITMAP_RUN =
  StartingIndex :: BITMAP_INDEX
  NumberOfBits :: BITMAP_INDEX

definition MAXINDEX :: BITMAP_INDEX where
  "MAXINDEX = 0xFFFFFFFF"

section \<open>Compiler intrinsics\<close>

text \<open>\<open>BitScanForward\<close> and \<open>BitScanReverse\<close> give the lowest and the highest set bit; the index
  is undefined for zero.\<close>

definition BitScanForward :: "32 word \<Rightarrow> 32 word option" where
  "BitScanForward v = map_option word_of_nat (find (\<lambda>i. bit v i) [0..<32])"

definition BitScanReverse :: "32 word \<Rightarrow> 32 word option" where
  "BitScanReverse v = map_option word_of_nat (find (\<lambda>i. bit v i) (rev [0..<32]))"

section \<open>Table and private scans\<close>

definition BitCountTable :: "nat list" where
  "BitCountTable =
     [0, 1, 1, 2, 1, 2, 2, 3, 1, 2, 2, 3, 2, 3, 3, 4,
      1, 2, 2, 3, 2, 3, 3, 4, 2, 3, 3, 4, 3, 4, 4, 5,
      1, 2, 2, 3, 2, 3, 3, 4, 2, 3, 3, 4, 3, 4, 4, 5,
      2, 3, 3, 4, 3, 4, 4, 5, 3, 4, 4, 5, 4, 5, 5, 6,
      1, 2, 2, 3, 2, 3, 3, 4, 2, 3, 3, 4, 3, 4, 4, 5,
      2, 3, 3, 4, 3, 4, 4, 5, 3, 4, 4, 5, 4, 5, 5, 6,
      2, 3, 3, 4, 3, 4, 4, 5, 3, 4, 4, 5, 4, 5, 5, 6,
      3, 4, 4, 5, 4, 5, 5, 6, 4, 5, 5, 6, 5, 6, 6, 7,
      1, 2, 2, 3, 2, 3, 3, 4, 2, 3, 3, 4, 3, 4, 4, 5,
      2, 3, 3, 4, 3, 4, 4, 5, 3, 4, 4, 5, 4, 5, 5, 6,
      2, 3, 3, 4, 3, 4, 4, 5, 3, 4, 4, 5, 4, 5, 5, 6,
      3, 4, 4, 5, 4, 5, 5, 6, 4, 5, 5, 6, 5, 6, 6, 7,
      2, 3, 3, 4, 3, 4, 4, 5, 3, 4, 4, 5, 4, 5, 5, 6,
      3, 4, 4, 5, 4, 5, 5, 6, 4, 5, 5, 6, 5, 6, 6, 7,
      3, 4, 4, 5, 4, 5, 5, 6, 4, 5, 5, 6, 5, 6, 6, 7,
      4, 5, 5, 6, 5, 6, 6, 7, 5, 6, 6, 7, 6, 7, 7, 8]"

text \<open>The skip loop \<open>while (Value == 0 && Buffer < MaxBuffer) Value = f(*Buffer++);\<close>, where
  \<open>f\<close> is the identity in the clear-run scan and complement in the set-run scan.\<close>

function skip_ulongs ::
  "(32 word \<Rightarrow> 32 word) \<Rightarrow> BITMAP_BUFFER list \<Rightarrow> 32 word \<Rightarrow> nat \<Rightarrow> nat \<Rightarrow> (32 word \<times> nat) option" where
  "skip_ulongs f buf Value p MaxBuffer =
     (if Value = 0 \<and> p < MaxBuffer
      then do { w \<leftarrow> rd buf p; skip_ulongs f buf (f w) (Suc p) MaxBuffer }
      else Some (Value, p))"
  by pat_completeness auto
termination
  by (relation "measure (\<lambda>(f, buf, Value, p, MaxBuffer). MaxBuffer - p)") auto

declare skip_ulongs.simps [simp del]

definition RtlpGetLengthOfRunClear ::
  "RTL_BITMAP \<Rightarrow> BITMAP_INDEX \<Rightarrow> BITMAP_INDEX \<Rightarrow> BITMAP_INDEX option" where
  "RtlpGetLengthOfRunClear BitMapHeader Start MaxLen =
     (if Start \<ge> SizeOfBitMap BitMapHeader then Some 0
      else
        let buf = Buffer BitMapHeader;
            p = unat (Start div 32);
            BitPos = Start AND 31;
            MaxLength = min MaxLen (SizeOfBitMap BitMapHeader - Start);
            MaxBuffer = p + unat ((BitPos + MaxLength + 32 - 1) div 32)
        in do {
          w \<leftarrow> rd buf p;
          (Value, q) \<leftarrow> skip_ulongs (\<lambda>w. w) buf
             (push_bit (unat BitPos) (drop_bit (unat BitPos) w)) (Suc p) MaxBuffer;
          if Value = 0 then Some MaxLength
          else do {
            BitPos' \<leftarrow> BitScanForward Value;
            let Length = word_of_nat q * 32 - Start;
            let Length = Length + (BitPos' - 32);
            Some (if Length > SizeOfBitMap BitMapHeader - Start
                  then SizeOfBitMap BitMapHeader - Start else Length)
          }
        })"

definition RtlpGetLengthOfRunSet ::
  "RTL_BITMAP \<Rightarrow> BITMAP_INDEX \<Rightarrow> BITMAP_INDEX \<Rightarrow> BITMAP_INDEX option" where
  "RtlpGetLengthOfRunSet BitMapHeader Start MaxLen =
     (if Start \<ge> SizeOfBitMap BitMapHeader then Some 0
      else
        let buf = Buffer BitMapHeader;
            p = unat (Start div 32);
            BitPos = Start AND 31;
            MaxLength = min MaxLen (SizeOfBitMap BitMapHeader - Start);
            MaxBuffer = p + unat ((BitPos + MaxLength + 32 - 1) div 32)
        in do {
          w \<leftarrow> rd buf p;
          (InvValue, q) \<leftarrow> skip_ulongs (\<lambda>w. NOT w) buf
             (push_bit (unat BitPos) (drop_bit (unat BitPos) (NOT w))) (Suc p) MaxBuffer;
          if InvValue = 0 then Some MaxLength
          else do {
            BitPos' \<leftarrow> BitScanForward InvValue;
            let Length = word_of_nat q * 32 - Start;
            let Length = Length + (BitPos' - 32);
            Some (if Length > SizeOfBitMap BitMapHeader - Start
                  then SizeOfBitMap BitMapHeader - Start else Length)
          }
        })"

section \<open>Public routines\<close>

definition RtlFindMostSignificantBit :: "64 word \<Rightarrow> int" where
  "RtlFindMostSignificantBit Value =
     (case BitScanReverse (ucast (drop_bit 32 Value)) of
        Some Position \<Rightarrow> uint Position + 32
      | None \<Rightarrow> (case BitScanReverse (ucast Value) of
          Some Position \<Rightarrow> uint Position
        | None \<Rightarrow> - 1))"

definition RtlFindLeastSignificantBit :: "64 word \<Rightarrow> int" where
  "RtlFindLeastSignificantBit Value =
     (case BitScanForward (ucast Value) of
        Some Position \<Rightarrow> uint Position
      | None \<Rightarrow> (case BitScanForward (ucast (drop_bit 32 Value)) of
          Some Position \<Rightarrow> uint Position + 32
        | None \<Rightarrow> - 1))"

definition RtlInitializeBitMap :: "BITMAP_BUFFER list \<Rightarrow> 32 word \<Rightarrow> RTL_BITMAP" where
  "RtlInitializeBitMap BitMapBuffer Size = \<lparr>SizeOfBitMap = Size, Buffer = BitMapBuffer\<rparr>"

text \<open>\<open>RtlFillMemoryUlong(Destination, Length, Fill)\<close> with \<open>Destination\<close> the element \<open>p\<close> of
  the array and \<open>Length\<close> in bytes.\<close>

fun fill_loop :: "32 word list \<Rightarrow> nat \<Rightarrow> nat \<Rightarrow> 32 word \<Rightarrow> 32 word list option" where
  "fill_loop buf p 0 Fill = Some buf"
| "fill_loop buf p (Suc Count) Fill = do { b \<leftarrow> wr buf p Fill; fill_loop b (Suc p) Count Fill }"

definition RtlFillMemoryUlong :: "32 word list \<Rightarrow> nat \<Rightarrow> 32 word \<Rightarrow> 32 word \<Rightarrow> 32 word list option" where
  "RtlFillMemoryUlong buf p Len Fill = fill_loop buf p (unat (Len div 4)) Fill"

definition RtlClearAllBits :: "RTL_BITMAP \<Rightarrow> RTL_BITMAP option" where
  "RtlClearAllBits BitMapHeader =
     (let LengthInUlongs = (SizeOfBitMap BitMapHeader + 32 - 1) div 32 in do {
        b \<leftarrow> RtlFillMemoryUlong (Buffer BitMapHeader) 0 (LengthInUlongs * 4) 0;
        Some (BitMapHeader\<lparr>Buffer := b\<rparr>) })"

definition RtlSetAllBits :: "RTL_BITMAP \<Rightarrow> RTL_BITMAP option" where
  "RtlSetAllBits BitMapHeader =
     (let LengthInUlongs = (SizeOfBitMap BitMapHeader + 32 - 1) div 32 in do {
        b \<leftarrow> RtlFillMemoryUlong (Buffer BitMapHeader) 0 (LengthInUlongs * 4) (NOT 0);
        Some (BitMapHeader\<lparr>Buffer := b\<rparr>) })"

definition RtlClearBit :: "RTL_BITMAP \<Rightarrow> BITMAP_INDEX \<Rightarrow> RTL_BITMAP option" where
  "RtlClearBit BitMapHeader BitNumber =
     (let p = unat (BitNumber div 32) in do {
        w \<leftarrow> rd (Buffer BitMapHeader) p;
        b \<leftarrow> wr (Buffer BitMapHeader) p (w AND NOT (push_bit (unat (BitNumber AND 31)) 1));
        Some (BitMapHeader\<lparr>Buffer := b\<rparr>) })"

definition RtlSetBit :: "RTL_BITMAP \<Rightarrow> BITMAP_INDEX \<Rightarrow> RTL_BITMAP option" where
  "RtlSetBit BitMapHeader BitNumber =
     (let p = unat (BitNumber div 32) in do {
        w \<leftarrow> rd (Buffer BitMapHeader) p;
        b \<leftarrow> wr (Buffer BitMapHeader) p (w OR push_bit (unat (BitNumber AND 31)) 1);
        Some (BitMapHeader\<lparr>Buffer := b\<rparr>) })"

text \<open>The part of \<open>RtlClearBits\<close> after the unaligned prefix: fill the full \<open>ULONG\<close>s, then mask
  the rest. \<open>p\<close> is the element \<open>Buffer\<close> points to.\<close>

definition clear_tail :: "32 word list \<Rightarrow> nat \<Rightarrow> BITMAP_INDEX \<Rightarrow> 32 word list option" where
  "clear_tail buf p NumberToClear = do {
     buf \<leftarrow> RtlFillMemoryUlong buf p (drop_bit 3 NumberToClear) 0;
     let p = p + unat (NumberToClear div 32);
     let Rest = NumberToClear AND (32 - 1);
     (if Rest \<noteq> 0
      then do { w \<leftarrow> rd buf p; wr buf p (w AND push_bit (unat Rest) MAXINDEX) }
      else Some buf) }"

definition RtlClearBits :: "RTL_BITMAP \<Rightarrow> BITMAP_INDEX \<Rightarrow> BITMAP_INDEX \<Rightarrow> RTL_BITMAP option" where
  "RtlClearBits BitMapHeader Start NumberToClear =
     (let buf = Buffer BitMapHeader; p = unat (Start div 32); Bits = Start AND (32 - 1) in do {
        b \<leftarrow>
          (if Bits \<noteq> 0 then
             let Mask = push_bit (unat Bits) MAXINDEX; Bits = 32 - Bits in
             if NumberToClear < Bits then
               let Bits = Bits - NumberToClear;
                   Mask = drop_bit (unat Bits) (push_bit (unat Bits) Mask)
               in do { w \<leftarrow> rd buf p; wr buf p (w AND NOT Mask) }
             else do {
               w \<leftarrow> rd buf p;
               buf \<leftarrow> wr buf p (w AND NOT Mask);
               clear_tail buf (Suc p) (NumberToClear - Bits) }
           else clear_tail buf p NumberToClear);
        Some (BitMapHeader\<lparr>Buffer := b\<rparr>) })"

definition set_tail :: "32 word list \<Rightarrow> nat \<Rightarrow> BITMAP_INDEX \<Rightarrow> 32 word list option" where
  "set_tail buf p NumberToSet = do {
     buf \<leftarrow> RtlFillMemoryUlong buf p (drop_bit 3 NumberToSet) MAXINDEX;
     let p = p + unat (NumberToSet div 32);
     let Rest = NumberToSet AND (32 - 1);
     (if Rest \<noteq> 0
      then do { w \<leftarrow> rd buf p; wr buf p (w OR NOT (push_bit (unat Rest) MAXINDEX)) }
      else Some buf) }"

definition RtlSetBits :: "RTL_BITMAP \<Rightarrow> BITMAP_INDEX \<Rightarrow> BITMAP_INDEX \<Rightarrow> RTL_BITMAP option" where
  "RtlSetBits BitMapHeader Start NumberToSet =
     (let buf = Buffer BitMapHeader; p = unat (Start div 32); Bits = Start AND (32 - 1) in do {
        b \<leftarrow>
          (if Bits \<noteq> 0 then
             let Mask = push_bit (unat Bits) MAXINDEX; Bits = 32 - Bits in
             if NumberToSet < Bits then
               let Bits = Bits - NumberToSet;
                   Mask = drop_bit (unat Bits) (push_bit (unat Bits) Mask)
               in do { w \<leftarrow> rd buf p; wr buf p (w OR Mask) }
             else do {
               w \<leftarrow> rd buf p;
               buf \<leftarrow> wr buf p (w OR Mask);
               set_tail buf (Suc p) (NumberToSet - Bits) }
           else set_tail buf p NumberToSet);
        Some (BitMapHeader\<lparr>Buffer := b\<rparr>) })"

definition RtlTestBit :: "RTL_BITMAP \<Rightarrow> BITMAP_INDEX \<Rightarrow> bool option" where
  "RtlTestBit BitMapHeader BitNumber = do {
     w \<leftarrow> rd (Buffer BitMapHeader) (unat (BitNumber div 32));
     Some ((drop_bit (unat (BitNumber AND (32 - 1))) w AND 1) \<noteq> 0) }"

definition RtlAreBitsClear :: "RTL_BITMAP \<Rightarrow> BITMAP_INDEX \<Rightarrow> BITMAP_INDEX \<Rightarrow> bool option" where
  "RtlAreBitsClear BitMapHeader Start Len =
     (if Start + Len > SizeOfBitMap BitMapHeader \<or> Start + Len \<le> Start then Some False
      else map_option (\<lambda>r. r \<ge> Len) (RtlpGetLengthOfRunClear BitMapHeader Start Len))"

definition RtlAreBitsSet :: "RTL_BITMAP \<Rightarrow> BITMAP_INDEX \<Rightarrow> BITMAP_INDEX \<Rightarrow> bool option" where
  "RtlAreBitsSet BitMapHeader Start Len =
     (if Start + Len > SizeOfBitMap BitMapHeader \<or> Start + Len \<le> Start then Some False
      else map_option (\<lambda>r. r \<ge> Len) (RtlpGetLengthOfRunSet BitMapHeader Start Len))"

text \<open>The buffer read as bytes, little endian: \<open>(PUCHAR)Buffer + i\<close>.\<close>

definition rd_byte :: "32 word list \<Rightarrow> nat \<Rightarrow> 8 word option" where
  "rd_byte buf i = map_option (\<lambda>w. ucast (drop_bit (8 * (i mod 4)) w)) (rd buf (i div 4))"

function count_loop :: "32 word list \<Rightarrow> nat \<Rightarrow> nat \<Rightarrow> BITMAP_INDEX \<Rightarrow> BITMAP_INDEX option" where
  "count_loop buf Byte MaxByte BitCount =
     (if Byte < MaxByte
      then do {
        b \<leftarrow> rd_byte buf Byte;
        c \<leftarrow> rd BitCountTable (unat b);
        count_loop buf (Suc Byte) MaxByte (BitCount + word_of_nat c) }
      else Some BitCount)"
  by pat_completeness auto
termination
  by (relation "measure (\<lambda>(buf, Byte, MaxByte, BitCount). MaxByte - Byte)") auto

declare count_loop.simps [simp del]

definition RtlNumberOfSetBits :: "RTL_BITMAP \<Rightarrow> BITMAP_INDEX option" where
  "RtlNumberOfSetBits BitMapHeader =
     (let MaxByte = unat (SizeOfBitMap BitMapHeader div 8) in do {
        BitCount \<leftarrow> count_loop (Buffer BitMapHeader) 0 MaxByte 0;
        (if SizeOfBitMap BitMapHeader AND 7 \<noteq> 0
         then let Shift = 8 - (SizeOfBitMap BitMapHeader AND 7) in do {
           b \<leftarrow> rd_byte (Buffer BitMapHeader) MaxByte;
           c \<leftarrow> rd BitCountTable (unat (push_bit (unat Shift) (ucast b :: 32 word) AND 0xFF));
           Some (BitCount + word_of_nat c) }
         else Some BitCount) })"

definition RtlNumberOfClearBits :: "RTL_BITMAP \<Rightarrow> BITMAP_INDEX option" where
  "RtlNumberOfClearBits BitMapHeader =
     map_option (\<lambda>n. SizeOfBitMap BitMapHeader - n) (RtlNumberOfSetBits BitMapHeader)"

text \<open>The search loops of \<open>RtlFindClearBits\<close> and \<open>RtlFindSetBits\<close>. The inner result is the
  position the C code returns from inside the loop, or \<open>None\<close> when the loop condition fails.\<close>

partial_function (option) find_clear_loop ::
  "RTL_BITMAP \<Rightarrow> BITMAP_INDEX \<Rightarrow> BITMAP_INDEX \<Rightarrow> BITMAP_INDEX \<Rightarrow> BITMAP_INDEX option option" where
  "find_clear_loop BitMapHeader NumberToFind Margin CurrentBit =
     (if CurrentBit + NumberToFind < Margin then do {
        l \<leftarrow> RtlpGetLengthOfRunSet BitMapHeader CurrentBit MAXINDEX;
        CurrentLength \<leftarrow> RtlpGetLengthOfRunClear BitMapHeader (CurrentBit + l) NumberToFind;
        (if CurrentLength \<ge> NumberToFind then Some (Some (CurrentBit + l))
         else find_clear_loop BitMapHeader NumberToFind Margin (CurrentBit + l + CurrentLength)) }
      else Some None)"

partial_function (option) find_set_loop ::
  "RTL_BITMAP \<Rightarrow> BITMAP_INDEX \<Rightarrow> BITMAP_INDEX \<Rightarrow> BITMAP_INDEX \<Rightarrow> BITMAP_INDEX option option" where
  "find_set_loop BitMapHeader NumberToFind Margin CurrentBit =
     (if CurrentBit + NumberToFind \<le> Margin then do {
        l \<leftarrow> RtlpGetLengthOfRunClear BitMapHeader CurrentBit MAXINDEX;
        CurrentLength \<leftarrow> RtlpGetLengthOfRunSet BitMapHeader (CurrentBit + l) NumberToFind;
        (if CurrentLength \<ge> NumberToFind then Some (Some (CurrentBit + l))
         else find_set_loop BitMapHeader NumberToFind Margin (CurrentBit + l + CurrentLength)) }
      else Some None)"

text \<open>The header argument of the find routines is a pointer that may be \<open>NULL\<close> (\<open>None\<close>).\<close>

definition RtlFindClearBits ::
  "RTL_BITMAP option \<Rightarrow> BITMAP_INDEX \<Rightarrow> BITMAP_INDEX \<Rightarrow> BITMAP_INDEX option" where
  "RtlFindClearBits Header NumberToFind Hint =
     (case Header of None \<Rightarrow> Some MAXINDEX
      | Some BitMapHeader \<Rightarrow>
        if NumberToFind > SizeOfBitMap BitMapHeader then Some MAXINDEX
        else
          let HintIndex = (if Hint \<ge> SizeOfBitMap BitMapHeader then 0 else Hint) in
          if NumberToFind = 0 then Some (HintIndex AND NOT 7)
          else do {
            r \<leftarrow> find_clear_loop BitMapHeader NumberToFind (SizeOfBitMap BitMapHeader) HintIndex;
            (case r of Some pos \<Rightarrow> Some pos
             | None \<Rightarrow>
               if HintIndex \<noteq> 0 then do {
                 r \<leftarrow> find_clear_loop BitMapHeader NumberToFind
                        (min (HintIndex + NumberToFind) (SizeOfBitMap BitMapHeader)) 0;
                 Some (case r of Some pos \<Rightarrow> pos | None \<Rightarrow> MAXINDEX) }
               else Some MAXINDEX) })"

definition RtlFindSetBits ::
  "RTL_BITMAP option \<Rightarrow> BITMAP_INDEX \<Rightarrow> BITMAP_INDEX \<Rightarrow> BITMAP_INDEX option" where
  "RtlFindSetBits Header NumberToFind Hint =
     (case Header of None \<Rightarrow> Some MAXINDEX
      | Some BitMapHeader \<Rightarrow>
        if NumberToFind > SizeOfBitMap BitMapHeader then Some MAXINDEX
        else
          let HintIndex = (if Hint \<ge> SizeOfBitMap BitMapHeader then 0 else Hint) in
          if NumberToFind = 0 then Some (HintIndex AND NOT 7)
          else do {
            r \<leftarrow> find_set_loop BitMapHeader NumberToFind (SizeOfBitMap BitMapHeader) HintIndex;
            (case r of Some pos \<Rightarrow> Some pos
             | None \<Rightarrow>
               if HintIndex \<noteq> 0 then do {
                 r \<leftarrow> find_set_loop BitMapHeader NumberToFind
                        (min (HintIndex + NumberToFind) (SizeOfBitMap BitMapHeader)) 0;
                 Some (case r of Some pos \<Rightarrow> pos | None \<Rightarrow> MAXINDEX) }
               else Some MAXINDEX) })"

text \<open>The two combined operations return the position and the header after the update.\<close>

definition RtlFindClearBitsAndSet ::
  "RTL_BITMAP option \<Rightarrow> BITMAP_INDEX \<Rightarrow> BITMAP_INDEX \<Rightarrow> (BITMAP_INDEX \<times> RTL_BITMAP option) option" where
  "RtlFindClearBitsAndSet Header NumberToFind Hint = do {
     Position \<leftarrow> RtlFindClearBits Header NumberToFind Hint;
     (if Position \<noteq> MAXINDEX then do {
        h \<leftarrow> Header;
        h' \<leftarrow> RtlSetBits h Position NumberToFind;
        Some (Position, Some h') }
      else Some (Position, Header)) }"

definition RtlFindSetBitsAndClear ::
  "RTL_BITMAP option \<Rightarrow> BITMAP_INDEX \<Rightarrow> BITMAP_INDEX \<Rightarrow> (BITMAP_INDEX \<times> RTL_BITMAP option) option" where
  "RtlFindSetBitsAndClear Header NumberToFind Hint = do {
     Position \<leftarrow> RtlFindSetBits Header NumberToFind Hint;
     (if Position \<noteq> MAXINDEX then do {
        h \<leftarrow> Header;
        h' \<leftarrow> RtlClearBits h Position NumberToFind;
        Some (Position, Some h') }
      else Some (Position, Header)) }"

text \<open>The run searches return the length and the value of \<open>*StartingRunIndex\<close>.\<close>

definition RtlFindNextForwardRunClear ::
  "RTL_BITMAP \<Rightarrow> BITMAP_INDEX \<Rightarrow> (BITMAP_INDEX \<times> BITMAP_INDEX) option" where
  "RtlFindNextForwardRunClear BitMapHeader FromIndex =
     (if FromIndex \<ge> SizeOfBitMap BitMapHeader then Some (0, FromIndex)
      else do {
        l \<leftarrow> RtlpGetLengthOfRunSet BitMapHeader FromIndex MAXINDEX;
        n \<leftarrow> RtlpGetLengthOfRunClear BitMapHeader (FromIndex + l) MAXINDEX;
        Some (n, FromIndex + l) })"

definition RtlFindNextForwardRunSet ::
  "RTL_BITMAP \<Rightarrow> BITMAP_INDEX \<Rightarrow> (BITMAP_INDEX \<times> BITMAP_INDEX) option" where
  "RtlFindNextForwardRunSet BitMapHeader FromIndex =
     (if FromIndex \<ge> SizeOfBitMap BitMapHeader then Some (0, FromIndex)
      else do {
        l \<leftarrow> RtlpGetLengthOfRunClear BitMapHeader FromIndex MAXINDEX;
        n \<leftarrow> RtlpGetLengthOfRunSet BitMapHeader (FromIndex + l) MAXINDEX;
        Some (n, FromIndex + l) })"

definition RtlFindFirstRunClear :: "RTL_BITMAP \<Rightarrow> (BITMAP_INDEX \<times> BITMAP_INDEX) option" where
  "RtlFindFirstRunClear BitMapHeader = RtlFindNextForwardRunClear BitMapHeader 0"

text \<open>The backward search decrements its pointer below the buffer, so the pointer is an integer
  here. The result is the returned length and \<open>*StartingRunIndex\<close> when it was written.\<close>

function back_set_loop :: "32 word list \<Rightarrow> 32 word \<Rightarrow> int \<Rightarrow> (32 word \<times> int) option option" where
  "back_set_loop buf InvValue p =
     (if InvValue = 0 then
        (if p < 0 then Some None
         else do { w \<leftarrow> rd buf (nat p); back_set_loop buf (NOT w) (p - 1) })
      else Some (Some (InvValue, p)))"
  by pat_completeness auto
termination
  by (relation "measure (\<lambda>(buf, InvValue, p). nat (p + 1))") auto

function back_clear_loop :: "32 word list \<Rightarrow> 32 word \<Rightarrow> int \<Rightarrow> (32 word \<times> int) option" where
  "back_clear_loop buf Value p =
     (if Value = 0 \<and> p \<ge> 0
      then do { w \<leftarrow> rd buf (nat p); back_clear_loop buf w (p - 1) }
      else Some (Value, p))"
  by pat_completeness auto
termination
  by (relation "measure (\<lambda>(buf, Value, p). nat (p + 1))") auto

declare back_set_loop.simps [simp del] back_clear_loop.simps [simp del]

definition RtlFindLastBackwardRunClear ::
  "RTL_BITMAP \<Rightarrow> BITMAP_INDEX \<Rightarrow> (BITMAP_INDEX \<times> BITMAP_INDEX option) option" where
  "RtlFindLastBackwardRunClear BitMapHeader From =
     (let buf = Buffer BitMapHeader;
          FromIndex = min From (SizeOfBitMap BitMapHeader - 1);
          p = int (unat (FromIndex div 32));
          BitPos = 31 - (FromIndex AND 31)
      in do {
        w \<leftarrow> rd buf (nat p);
        r \<leftarrow> back_set_loop buf (drop_bit (unat BitPos) (push_bit (unat BitPos) (NOT w))) (p - 1);
        (case r of None \<Rightarrow> Some (0, None)
         | Some (InvValue, p) \<Rightarrow> do {
             BitPos \<leftarrow> BitScanReverse InvValue;
             let FromIndex = word_of_int ((p + 1) * 32) + BitPos;
             (Value, p) \<leftarrow> back_clear_loop buf
                (drop_bit (unat (31 - BitPos)) (push_bit (unat (31 - BitPos)) (NOT InvValue))) p;
             Start \<leftarrow> (if Value \<noteq> 0 then do {
                 BitPos \<leftarrow> BitScanReverse Value;
                 Some (word_of_int ((p + 1) * 32) + BitPos + 1) }
               else Some 0);
             Some (FromIndex - Start, Some Start) }) })"

text \<open>\<open>RtlFindClearRuns\<close>: the first loop fills the array in bitmap order and remembers the
  smallest entry; the second one replaces entries when the longest runs are asked for.\<close>

partial_function (option) clear_runs_fill ::
  "RTL_BITMAP \<Rightarrow> RTL_BITMAP_RUN list \<Rightarrow> nat \<Rightarrow> nat \<Rightarrow> BITMAP_INDEX \<Rightarrow> nat \<Rightarrow>
   (RTL_BITMAP_RUN list \<times> nat \<times> BITMAP_INDEX \<times> nat) option" where
  "clear_runs_fill BitMapHeader RunArray SizeOfRunArray Run FromIndex SmallestRun =
     (if Run < SizeOfRunArray then do {
        (n, Start) \<leftarrow> RtlFindNextForwardRunClear BitMapHeader FromIndex;
        (if n = 0 then Some (RunArray, Run, FromIndex, SmallestRun)
         else do {
           arr \<leftarrow> wr RunArray Run \<lparr>StartingIndex = Start, NumberOfBits = n\<rparr>;
           sm \<leftarrow> rd arr SmallestRun;
           clear_runs_fill BitMapHeader arr SizeOfRunArray (Suc Run) (Start + n)
             (if n < NumberOfBits sm then Run else SmallestRun) }) }
      else Some (RunArray, Run, FromIndex, SmallestRun))"

fun smallest_scan :: "RTL_BITMAP_RUN list \<Rightarrow> BITMAP_INDEX \<Rightarrow> nat list \<Rightarrow> nat \<Rightarrow> nat option" where
  "smallest_scan arr n [] SmallestRun = Some SmallestRun"
| "smallest_scan arr n (Run # Runs) SmallestRun = do {
     sm \<leftarrow> rd arr SmallestRun;
     smallest_scan arr n Runs (if n < NumberOfBits sm then Run else SmallestRun) }"

partial_function (option) clear_runs_longest ::
  "RTL_BITMAP \<Rightarrow> RTL_BITMAP_RUN list \<Rightarrow> nat \<Rightarrow> nat \<Rightarrow> BITMAP_INDEX \<Rightarrow> nat \<Rightarrow>
   (RTL_BITMAP_RUN list \<times> nat) option" where
  "clear_runs_longest BitMapHeader RunArray SizeOfRunArray Run FromIndex SmallestRun = do {
     (n, Start) \<leftarrow> RtlFindNextForwardRunClear BitMapHeader FromIndex;
     (if n = 0 then Some (RunArray, Run)
      else do {
        sm \<leftarrow> rd RunArray SmallestRun;
        (if n > NumberOfBits sm then do {
           arr \<leftarrow> wr RunArray SmallestRun \<lparr>StartingIndex = Start, NumberOfBits = n\<rparr>;
           sr \<leftarrow> smallest_scan arr n [0..<SizeOfRunArray] SmallestRun;
           clear_runs_longest BitMapHeader arr SizeOfRunArray SizeOfRunArray (FromIndex + n) sr }
         else
           clear_runs_longest BitMapHeader RunArray SizeOfRunArray Run (FromIndex + n) SmallestRun) }) }"

definition RtlFindClearRuns ::
  "RTL_BITMAP \<Rightarrow> RTL_BITMAP_RUN list \<Rightarrow> 32 word \<Rightarrow> bool \<Rightarrow> (RTL_BITMAP_RUN list \<times> nat) option" where
  "RtlFindClearRuns BitMapHeader RunArray SizeOfRunArray LocateLongestRuns = do {
     (arr, Run, FromIndex, SmallestRun) \<leftarrow>
        clear_runs_fill BitMapHeader RunArray (unat SizeOfRunArray) 0 0 0;
     (if Run < unat SizeOfRunArray \<or> \<not> LocateLongestRuns then Some (arr, Run)
      else clear_runs_longest BitMapHeader arr (unat SizeOfRunArray) Run FromIndex SmallestRun) }"

text \<open>The longest-run searches keep the best length and, once written, \<open>*StartingIndex\<close>.\<close>

partial_function (option) longest_clear_loop ::
  "RTL_BITMAP \<Rightarrow> BITMAP_INDEX \<Rightarrow> BITMAP_INDEX option \<Rightarrow> BITMAP_INDEX \<Rightarrow>
   (BITMAP_INDEX \<times> BITMAP_INDEX option) option" where
  "longest_clear_loop BitMapHeader MaxNumberOfBits Start FromIndex = do {
     (n, Index) \<leftarrow> RtlFindNextForwardRunClear BitMapHeader FromIndex;
     (if n = 0 then Some (MaxNumberOfBits, Start)
      else if n > MaxNumberOfBits
           then longest_clear_loop BitMapHeader n (Some Index) (FromIndex + n)
           else longest_clear_loop BitMapHeader MaxNumberOfBits Start (FromIndex + n)) }"

definition RtlFindLongestRunClear :: "RTL_BITMAP \<Rightarrow> (BITMAP_INDEX \<times> BITMAP_INDEX option) option" where
  "RtlFindLongestRunClear BitMapHeader = longest_clear_loop BitMapHeader 0 None 0"

partial_function (option) longest_set_loop ::
  "RTL_BITMAP \<Rightarrow> BITMAP_INDEX \<Rightarrow> BITMAP_INDEX option \<Rightarrow> BITMAP_INDEX \<Rightarrow>
   (BITMAP_INDEX \<times> BITMAP_INDEX option) option" where
  "longest_set_loop BitMapHeader MaxNumberOfBits Start FromIndex = do {
     (n, Index) \<leftarrow> RtlFindNextForwardRunSet BitMapHeader FromIndex;
     (if n = 0 then Some (MaxNumberOfBits, Start)
      else if n > MaxNumberOfBits
           then longest_set_loop BitMapHeader n (Some Index) (FromIndex + n)
           else longest_set_loop BitMapHeader MaxNumberOfBits Start (FromIndex + n)) }"

definition RtlFindLongestRunSet :: "RTL_BITMAP \<Rightarrow> (BITMAP_INDEX \<times> BITMAP_INDEX option) option" where
  "RtlFindLongestRunSet BitMapHeader = longest_set_loop BitMapHeader 0 None 0"

end
