(* ===== verification/Bitmap_Correct.thy ===== *)
theory Bitmap_Correct
  imports Bitmap
begin

text \<open>Correctness of the bitmap package: the scans against the bits.\<close>

section \<open>Reference notions\<close>

definition test :: "RTL_BITMAP \<Rightarrow> nat \<Rightarrow> bool" where
  "test bm i = bit (Buffer bm ! (i div 32)) (i mod 32)"

definition bm_ok :: "RTL_BITMAP \<Rightarrow> bool" where
  "bm_ok bm \<longleftrightarrow> unat (SizeOfBitMap bm) < 2 ^ 31 \<and> unat (SizeOfBitMap bm) \<le> 32 * length (Buffer bm)"

abbreviation bits :: "RTL_BITMAP \<Rightarrow> nat" where
  "bits bm \<equiv> unat (SizeOfBitMap bm)"

section \<open>Bit scans\<close>

lemma find_upt_least:
  "find P [0..<n] = Some i \<longleftrightarrow> i < n \<and> P i \<and> (\<forall>j < i. \<not> P j)"
  by (auto simp: find_Some_iff)

lemma find_rev_upt_greatest:
  "find P (rev [0..<n]) = Some i \<longleftrightarrow> i < n \<and> P i \<and> (\<forall>j. i < j \<longrightarrow> j < n \<longrightarrow> \<not> P j)"
proof (induction n)
  case (Suc n)
  show ?case
  proof (cases "P n")
    case True
    then show ?thesis by (auto simp: less_Suc_eq)
  next
    case False
    then show ?thesis using Suc by (auto simp: less_Suc_eq)
  qed
qed simp

lemma BitScanForward_None: "BitScanForward v = None \<longleftrightarrow> v = 0"
  by (auto simp: BitScanForward_def find_None_iff bit_eq_iff dest: bit_imp_le_length)

lemma BitScanForward_Some:
  assumes "v \<noteq> 0"
  obtains c where "BitScanForward v = Some (word_of_nat c)" "c < 32" "bit v c" "\<And>j. j < c \<Longrightarrow> \<not> bit v j"
proof -
  from assms obtain r where r: "BitScanForward v = Some r"
    using BitScanForward_None by fastforce
  then obtain c where c: "find (\<lambda>i. bit v i) [0..<32] = Some c" "r = word_of_nat c"
    by (auto simp: BitScanForward_def)
  then show ?thesis using r that by (auto simp: find_upt_least)
qed

section \<open>The skip loop\<close>

lemma skip_ulongs_nonzero [simp]: "v \<noteq> 0 \<Longrightarrow> skip_ulongs f buf v p m = Some (v, p)"
  by (subst skip_ulongs.simps) simp

lemma skip_ulongs_zero:
  assumes "m \<le> length buf"
  shows "\<exists>v q. skip_ulongs f buf 0 p m = Some (v, q) \<and> p \<le> q \<and> q \<le> max p m \<and>
     (\<forall>j. p \<le> j \<longrightarrow> Suc j < q \<longrightarrow> f (buf ! j) = 0) \<and>
     (if v = 0 then q = max p m \<and> (p < q \<longrightarrow> f (buf ! (q - 1)) = 0) else p < q \<and> v = f (buf ! (q - 1)))"
  using assms
proof (induction "m - p" arbitrary: p)
  case 0
  then show ?case by (subst skip_ulongs.simps) auto
next
  case (Suc k)
  then have pm: "p < m" by linarith
  have step: "skip_ulongs f buf 0 p m = skip_ulongs f buf (f (buf ! p)) (Suc p) m"
    using pm Suc.prems by (subst skip_ulongs.simps) (simp add: mem_simps)
  show ?case
  proof (cases "f (buf ! p) = 0")
    case False
    then show ?thesis using pm by (auto simp: step)
  next
    case True
    have "k = m - Suc p" using Suc.hyps(2) by simp
    from Suc.hyps(1)[OF this Suc.prems] obtain v q where
      vq: "skip_ulongs f buf 0 (Suc p) m = Some (v, q)" "Suc p \<le> q" "q \<le> max (Suc p) m"
        "\<forall>j. Suc p \<le> j \<longrightarrow> Suc j < q \<longrightarrow> f (buf ! j) = 0"
        "if v = 0 then q = max (Suc p) m \<and> (Suc p < q \<longrightarrow> f (buf ! (q - 1)) = 0)
         else Suc p < q \<and> v = f (buf ! (q - 1))"
      by - (elim exE conjE, rule that, assumption+)
    have "\<forall>j. p \<le> j \<longrightarrow> Suc j < q \<longrightarrow> f (buf ! j) = 0"
      using vq(4) True by (metis Suc_leI le_neq_implies_less)
    moreover have "if v = 0 then q = max p m \<and> (p < q \<longrightarrow> f (buf ! (q - 1)) = 0)
         else p < q \<and> v = f (buf ! (q - 1))"
      using vq(2,5) pm True by (cases "q = Suc p") (auto split: if_splits)
    ultimately show ?thesis using vq pm True step by (intro exI[of _ v] exI[of _ q]) auto
  qed
qed

section \<open>One scan for both kinds of run\<close>

text \<open>Both private scans are the scan of the buffer under a word function \<open>f\<close> that turns a run's
  end into a set bit: the identity for clear runs, complement for set runs.\<close>

definition scan_run ::
  "(32 word \<Rightarrow> 32 word) \<Rightarrow> RTL_BITMAP \<Rightarrow> BITMAP_INDEX \<Rightarrow> BITMAP_INDEX \<Rightarrow> BITMAP_INDEX option" where
  "scan_run f bm s M =
     (if s \<ge> SizeOfBitMap bm then Some 0
      else
        let p = unat (s div 32); m = min M (SizeOfBitMap bm - s) in do {
          w \<leftarrow> rd (Buffer bm) p;
          (v, q) \<leftarrow> skip_ulongs f (Buffer bm)
             (push_bit (unat (s AND 31)) (drop_bit (unat (s AND 31)) (f w))) (Suc p)
             (p + unat (((s AND 31) + m + 32 - 1) div 32));
          if v = 0 then Some m
          else do {
            b \<leftarrow> BitScanForward v;
            let l = word_of_nat q * 32 - s + (b - 32);
            Some (if l > SizeOfBitMap bm - s then SizeOfBitMap bm - s else l) } })"

lemma scan_clear: "RtlpGetLengthOfRunClear = scan_run (\<lambda>w. w)"
  unfolding RtlpGetLengthOfRunClear_def scan_run_def Let_def by (intro ext) (rule refl)

lemma scan_set: "RtlpGetLengthOfRunSet = scan_run (\<lambda>w. NOT w)"
  unfolding RtlpGetLengthOfRunSet_def scan_run_def Let_def by (intro ext) (rule refl)

definition fbit :: "(32 word \<Rightarrow> 32 word) \<Rightarrow> RTL_BITMAP \<Rightarrow> nat \<Rightarrow> bool" where
  "fbit f bm i = bit (f (Buffer bm ! (i div 32))) (i mod 32)"

lemma bit_mask_low: "bit (push_bit k (drop_bit k (w :: 32 word))) i \<longleftrightarrow> bit w i \<and> k \<le> i"
  by (auto simp: bit_push_bit_iff bit_drop_bit_eq dest: bit_imp_le_length)

lemma mask_low_zero:
  "push_bit k (drop_bit k (w :: 32 word)) = 0 \<Longrightarrow> k \<le> i \<Longrightarrow> \<not> bit w i"
  using bit_mask_low[of k w i] by simp

lemma word_zero_bits: "(w :: 32 word) = 0 \<longleftrightarrow> (\<forall>j < 32. \<not> bit w j)"
  by (auto simp: bit_eq_iff dest: bit_imp_le_length)

text \<open>What the words read by the loop say about the positions they cover.\<close>

lemma skip_positions:
  assumes q: "p < q" "\<forall>j. Suc p \<le> j \<longrightarrow> Suc j < q \<longrightarrow> f (Buffer bm ! j) = 0"
    and first: "q = Suc p \<or> push_bit (s mod 32) (drop_bit (s mod 32) (f (Buffer bm ! p))) = 0"
    and s: "s div 32 = p"
    and i: "s \<le> i" "i < 32 * (q - 1)"
  shows "\<not> fbit f bm i"
proof -
  have lt: "i div 32 < q - 1" using i(2) by (simp add: less_mult_imp_div_less mult.commute)
  have ge: "p \<le> i div 32" using s i(1) div_le_mono by blast
  show ?thesis
  proof (cases "i div 32 = p")
    case True
    with lt have "q \<noteq> Suc p" by simp
    with first have z: "push_bit (s mod 32) (drop_bit (s mod 32) (f (Buffer bm ! p))) = 0" by blast
    have "s mod 32 \<le> i mod 32"
      using True s i(1) div_mult_mod_eq[of s 32] div_mult_mod_eq[of i 32] by linarith
    then have "\<not> bit (f (Buffer bm ! p)) (i mod 32)" by (rule mask_low_zero[OF z])
    then show ?thesis using True by (simp add: fbit_def)
  next
    case False
    then have "f (Buffer bm ! (i div 32)) = 0" using q(2) ge lt by simp
    then show ?thesis by (simp add: fbit_def)
  qed
qed

lemma skip_from_first:
  fixes f b p
  assumes m: "m \<le> length (Buffer bm)"
  defines "v0 \<equiv> push_bit b (drop_bit b (f (Buffer bm ! p)))"
  obtains v q where "skip_ulongs f (Buffer bm) v0 (Suc p) m = Some (v, q)" "p < q"
    "q \<le> max (Suc p) m"
    "\<forall>j. Suc p \<le> j \<longrightarrow> Suc j < q \<longrightarrow> f (Buffer bm ! j) = 0"
    "q = Suc p \<or> v0 = 0"
    "\<forall>c. bit v c \<longleftrightarrow> bit (f (Buffer bm ! (q - 1))) c \<and> (q = Suc p \<longrightarrow> b \<le> c)"
    "v = 0 \<longrightarrow> m \<le> q \<and> v0 = 0"
proof (cases "v0 = 0")
  case False
  have "\<forall>c. bit v0 c \<longleftrightarrow> bit (f (Buffer bm ! p)) c \<and> b \<le> c"
    by (simp add: v0_def bit_mask_low)
  with False show ?thesis by (intro that[of v0 "Suc p"]) simp_all
next
  case True
  from skip_ulongs_zero[OF m, of f "Suc p"] obtain v q where
    vq: "skip_ulongs f (Buffer bm) 0 (Suc p) m = Some (v, q)" "Suc p \<le> q" "q \<le> max (Suc p) m"
      "\<forall>j. Suc p \<le> j \<longrightarrow> Suc j < q \<longrightarrow> f (Buffer bm ! j) = 0"
      "if v = 0 then q = max (Suc p) m \<and> (Suc p < q \<longrightarrow> f (Buffer bm ! (q - 1)) = 0)
       else Suc p < q \<and> v = f (Buffer bm ! (q - 1))"
    by - (elim exE conjE, rule that, assumption+)
  have low: "b \<le> c \<Longrightarrow> \<not> bit (f (Buffer bm ! p)) c" for c
    using True unfolding v0_def by (rule mask_low_zero)
  have "bit v c \<longleftrightarrow> bit (f (Buffer bm ! (q - 1))) c \<and> (q = Suc p \<longrightarrow> b \<le> c)" for c
  proof (cases "q = Suc p")
    case True
    then show ?thesis using vq(5) low[of c] by (auto split: if_splits)
  next
    case False
    then have "v = f (Buffer bm ! (q - 1))" using vq(2,5) by (metis le_neq_implies_less)
    then show ?thesis using False by simp
  qed
  moreover have "v = 0 \<longrightarrow> m \<le> q" using vq(5) by (simp split: if_splits)
  ultimately show ?thesis using vq(1-4) True by (intro that[of v q]) simp_all
qed

lemma ceil_fits: "S = 32 * p + b \<Longrightarrow> S + m \<le> 32 * L \<Longrightarrow> p + (b + m + 31) div 32 \<le> (L::nat)"
  by linarith

lemma ceil_covers: "S = 32 * p + b \<Longrightarrow> p + (b + m + 31) div 32 \<le> q \<Longrightarrow> S + m \<le> 32 * (q::nat)"
  by linarith

lemma ceil_bound:
  "S = 32 * p + b \<Longrightarrow> q \<le> max (Suc p) (p + (b + m + 31) div 32) \<Longrightarrow> 32 * (q - 1) \<le> S + (m::nat)"
  by linarith

lemma in_word:
  assumes "32 * k \<le> i" and "i < 32 * k + c" and "c \<le> 32"
  shows "i div 32 = k" and "i mod 32 < (c::nat)"
proof -
  from assms obtain d where d: "i = 32 * k + d" "d < c" by (metis le_add_diff_inverse nat_add_left_cancel_less)
  then show "i div 32 = k" and "i mod 32 < c" using assms(3) by simp_all
qed

lemma mod32_mono: "S \<le> i \<Longrightarrow> i div 32 = S div 32 \<Longrightarrow> S mod 32 \<le> i mod (32::nat)"
  using div_mult_mod_eq[of S 32] div_mult_mod_eq[of i 32] by linarith

lemma scan_run_unfold:
  assumes "s < SizeOfBitMap bm" and "unat s div 32 < length (Buffer bm)"
    and mx: "unat (s div 32) + unat (((s AND 31) + (min M (SizeOfBitMap bm - s)) + 32 - 1) div 32) = mm"
    and "skip_ulongs f (Buffer bm)
      (push_bit (unat s mod 32) (drop_bit (unat s mod 32) (f (Buffer bm ! (unat s div 32)))))
      (Suc (unat s div 32)) mm = Some (v, q)"
  shows "scan_run f bm s M = (if v = 0 then Some (min M (SizeOfBitMap bm - s)) else do {
      b \<leftarrow> BitScanForward v;
      let l = word_of_nat q * 32 - s + (b - 32);
      Some (if l > SizeOfBitMap bm - s then SizeOfBitMap bm - s else l) })"
  unfolding scan_run_def Let_def mx
  using assms(1,2,4) by (simp add: mem_simps unat_simps not_le[symmetric] del: not_le)

lemma scan_length_word:
  fixes s :: "32 word"
  assumes "0 < q" and "unat s \<le> 32 * (q - 1) + c" and "32 * (q - 1) + c < 2 ^ 32"
  shows "unat (word_of_nat q * 32 - s + (word_of_nat c - 32)) = 32 * (q - 1) + c - unat s"
proof -
  from assms(1) obtain k where k: "q = Suc k" by (cases q) auto
  let ?P = "32 * k + c"
  have "word_of_nat q * 32 - s + (word_of_nat c - 32) = (word_of_nat ?P :: 32 word) - s"
    by (simp add: k algebra_simps)
  moreover have "unat (word_of_nat ?P :: 32 word) = ?P"
    unfolding unat_of_nat using assms(3) k by simp
  moreover have "s \<le> word_of_nat ?P" using assms(2) k calculation(2) by (simp add: word_le_unat)
  ultimately show ?thesis using k unat_sub_fits[of s "word_of_nat ?P"] by (metis diff_Suc_1)
qed

lemma scan_run_correct:
  fixes f M
  assumes ok: "bm_ok bm" and lt: "s < SizeOfBitMap bm"
  defines "n \<equiv> run_len (\<lambda>i. \<not> fbit f bm i) (unat s) (bits bm)"
    and "m \<equiv> min (unat M) (bits bm - unat s)"
  shows "\<exists>r. scan_run f bm s M = Some r \<and> (unat r = n \<or> unat r = m \<and> m \<le> n)"
proof -
  let ?S = "unat s" and ?N = "bits bm" and ?mw = "min M (SizeOfBitMap bm - s)"
  let ?p = "?S div 32" and ?b = "?S mod 32"
  have SN: "?S < ?N" using lt by (simp add: word_lt_unat)
  have N: "?N < 2 ^ 31" "?N \<le> 32 * length (Buffer bm)" using ok by (auto simp: bm_ok_def)
  have size_s: "unat (SizeOfBitMap bm - s) = ?N - ?S" using lt by (simp add: unat_simps)
  have mw: "unat ?mw = m" by (simp add: unat_min size_s m_def)
  have mle: "?S + m \<le> ?N" using SN by (simp add: m_def)
  have Spb: "?S = 32 * ?p + ?b" by simp
  let ?m = "?p + (?b + m + 31) div 32"
  have mx: "unat (s div 32) + unat (((s AND 31) + ?mw + 32 - 1) div 32) = ?m"
  proof -
    have "unat ((s AND 31) + ?mw + 31) = ?b + m + 31"
      using mle N(1) by (simp add: unat_simps mw)
    then show ?thesis by (simp add: unat_simps add_diff_eq[symmetric])
  qed
  have p: "?p < length (Buffer bm)" using SN N(2) by linarith
  have ml: "?m \<le> length (Buffer bm)" using ceil_fits[OF Spb] mle N(2) by (meson order_trans)
  obtain v q where
    vq: "skip_ulongs f (Buffer bm) (push_bit ?b (drop_bit ?b (f (Buffer bm ! ?p)))) (Suc ?p) ?m = Some (v, q)"
      "?p < q" "q \<le> max (Suc ?p) ?m"
      "\<forall>j. Suc ?p \<le> j \<longrightarrow> Suc j < q \<longrightarrow> f (Buffer bm ! j) = 0"
      "q = Suc ?p \<or> push_bit ?b (drop_bit ?b (f (Buffer bm ! ?p))) = 0"
      "\<forall>c. bit v c \<longleftrightarrow> bit (f (Buffer bm ! (q - 1))) c \<and> (q = Suc ?p \<longrightarrow> ?b \<le> c)"
      "v = 0 \<longrightarrow> ?m \<le> q \<and> push_bit ?b (drop_bit ?b (f (Buffer bm ! ?p))) = 0"
    by (rule skip_from_first[OF ml, where b = ?b and f = f and p = ?p], rule that, assumption+)
  note run = scan_run_unfold[OF lt p mx vq(1)]
  have before: "\<not> fbit f bm i" if "?S \<le> i" "i < 32 * (q - 1)" for i
    by (rule skip_positions[OF vq(2,4,5) refl that])
  show ?thesis
  proof (cases "v = 0")
    case True
    have "\<not> fbit f bm i" if i: "?S \<le> i" "i < ?S + m" for i
    proof (cases "i < 32 * (q - 1)")
      case False
      have "?S + m \<le> 32 * q" using ceil_covers[OF Spb, of m q] vq(7) True by simp
      then have "i < 32 * (q - 1) + 32" using i(2) vq(2) by linarith
      then have d: "i div 32 = q - 1" using in_word(1)[of "q - 1" i 32] False by simp
      have "q = Suc ?p \<longrightarrow> ?b \<le> i mod 32" using mod32_mono[OF i(1)] d by simp
      then show ?thesis using vq(6)[rule_format, of "i mod 32"] True d by (simp add: fbit_def)
    qed (use before i(1) in blast)
    then have "m \<le> n" unfolding n_def using mle by (intro run_len_ge) auto
    then show ?thesis using True by (simp add: run mw)
  next
    case False
    then obtain c where c: "BitScanForward v = Some (word_of_nat c)" "c < 32" "bit v c"
        "\<And>j. j < c \<Longrightarrow> \<not> bit v j"
      by (rule BitScanForward_Some) blast
    let ?P = "32 * (q - 1) + c"
    have SP: "?S \<le> ?P"
    proof (cases "q = Suc ?p")
      case True
      then have "?b \<le> c" using c(3) vq(6)[rule_format, of c] by blast
      then show ?thesis using True Spb by (simp only: diff_Suc_1)
    next
      case False
      then show ?thesis using vq(2) Spb mod_less_divisor[of 32 ?S] by linarith
    qed
    have Pb: "?P < 2 ^ 32"
    proof -
      have "32 * (q - 1) \<le> ?S + m" using Spb vq(3) by (rule ceil_bound)
      then show ?thesis using c(2) N(1) mle by simp
    qed
    have unP: "unat (word_of_nat q * 32 - s + (word_of_nat c - 32)) = ?P - ?S"
      using vq(2) SP Pb by (intro scan_length_word) auto
    have at: "fbit f bm ?P" using c(2,3) vq(6)[rule_format, of c] by (simp add: fbit_def)
    have "\<not> fbit f bm i" if i: "?S \<le> i" "i < ?P" for i
    proof (cases "i < 32 * (q - 1)")
      case False
      then have d: "i div 32 = q - 1" "i mod 32 < c"
        using in_word[of "q - 1" i c] i(2) c(2) by simp_all
      have "q = Suc ?p \<longrightarrow> ?b \<le> i mod 32" using mod32_mono[OF i(1)] d by simp
      then show ?thesis using c(4)[OF d(2)] vq(6)[rule_format, of "i mod 32"] d by (simp add: fbit_def)
    qed (use before i(1) in blast)
    then have "n = min ?P ?N - ?S"
      unfolding n_def using SP SN at by (intro run_len_first) simp_all
    moreover have "scan_run f bm s M = Some (min (SizeOfBitMap bm - s)
        (word_of_nat q * 32 - s + (word_of_nat c - 32)))"
      unfolding run c(1) Let_def using False by (auto simp: min_def not_le less_imp_le)
    moreover have "unat (min (SizeOfBitMap bm - s) (word_of_nat q * 32 - s + (word_of_nat c - 32)))
        = min ?P ?N - ?S"
      unfolding unat_min unP size_s by linarith
    ultimately show ?thesis by metis
  qed
qed

section \<open>The scans in terms of the bits\<close>

abbreviation clear_run :: "RTL_BITMAP \<Rightarrow> nat \<Rightarrow> nat" where
  "clear_run bm s \<equiv> run_len (\<lambda>i. \<not> test bm i) s (bits bm)"

abbreviation set_run :: "RTL_BITMAP \<Rightarrow> nat \<Rightarrow> nat" where
  "set_run bm s \<equiv> run_len (test bm) s (bits bm)"

lemma fbit_clear: "fbit (\<lambda>w. w) bm i = test bm i"
  by (simp add: fbit_def test_def)

lemma fbit_set: "fbit (\<lambda>w. NOT w) bm i = (\<not> test bm i)"
  by (simp add: fbit_def test_def bit_not_iff)

lemma unat_MAXINDEX: "unat MAXINDEX = 4294967295"
  by (simp add: MAXINDEX_def)

lemma scan_run_bounds:
  assumes "bm_ok bm"
  shows "\<exists>r. scan_run f bm s M = Some r \<and>
    (let n = run_len (\<lambda>i. \<not> fbit f bm i) (unat s) (bits bm); m = min (unat M) (bits bm - unat s)
     in unat r = n \<or> unat r = m \<and> m \<le> n)"
proof (cases "s < SizeOfBitMap bm")
  case True
  then show ?thesis using scan_run_correct[OF assms True, of f M] by (simp add: Let_def)
next
  case False
  then have "bits bm \<le> unat s" by (simp add: word_lt_unat)
  moreover have "scan_run f bm s M = Some 0" using False by (simp add: scan_run_def not_less)
  ultimately show ?thesis by simp
qed

lemma scan_run_max:
  assumes "bm_ok bm"
  shows "\<exists>r. scan_run f bm s MAXINDEX = Some r \<and>
    unat r = run_len (\<lambda>i. \<not> fbit f bm i) (unat s) (bits bm)"
proof -
  let ?n = "run_len (\<lambda>i. \<not> fbit f bm i) (unat s) (bits bm)"
  have "min (unat MAXINDEX) (bits bm - unat s) = bits bm - unat s"
    using assms unfolding unat_MAXINDEX bm_ok_def by (intro min_absorb2) auto
  then show ?thesis
    using scan_run_bounds[OF assms, of f s MAXINDEX] run_len_le[of _ "unat s" "bits bm"]
    by (metis le_antisym)
qed

section \<open>The search routines over an abstract pair of scans\<close>

text \<open>
  \<open>run_scanner\<close> is what the search routines rely on: a scan \<open>want\<close> for runs of the bits sought
  (\<open>P\<close>) and a scan \<open>skip\<close> for runs of the others, each exact when asked without a bound and,
  with a bound, either exact or at least the bound. The clear-bit and the set-bit routines are
  its two instances, with the scans exchanged.
\<close>

locale run_scanner =
  fixes P :: "RTL_BITMAP \<Rightarrow> nat \<Rightarrow> bool"
    and want :: "RTL_BITMAP \<Rightarrow> BITMAP_INDEX \<Rightarrow> BITMAP_INDEX \<Rightarrow> BITMAP_INDEX option"
    and skip :: "RTL_BITMAP \<Rightarrow> BITMAP_INDEX \<Rightarrow> BITMAP_INDEX \<Rightarrow> BITMAP_INDEX option"
  assumes want_bounds: "bm_ok bm \<Longrightarrow> \<exists>r. want bm s M = Some r \<and>
      (let n = run_len (P bm) (unat s) (bits bm); m = min (unat M) (bits bm - unat s)
       in unat r = n \<or> unat r = m \<and> m \<le> n)"
    and want_max: "bm_ok bm \<Longrightarrow> \<exists>r. want bm s MAXINDEX = Some r \<and>
      unat r = run_len (P bm) (unat s) (bits bm)"
    and skip_max: "bm_ok bm \<Longrightarrow> \<exists>r. skip bm s MAXINDEX = Some r \<and>
      unat r = run_len (\<lambda>i. \<not> P bm i) (unat s) (bits bm)"
begin

lemma want_enough:
  assumes ok: "bm_ok bm" and N: "0 < N"
  obtains r where "want bm s N = Some r"
    "N \<le> r \<longrightarrow> unat N \<le> run_len (P bm) (unat s) (bits bm)"
    "\<not> N \<le> r \<longrightarrow> unat r = run_len (P bm) (unat s) (bits bm)"
proof -
  let ?n = "run_len (P bm) (unat s) (bits bm)"
  from want_bounds[OF ok, of s N] obtain r where r: "want bm s N = Some r"
    "unat r = ?n \<or> unat r = min (unat N) (bits bm - unat s) \<and> min (unat N) (bits bm - unat s) \<le> ?n"
    by (auto simp: Let_def)
  have "?n \<le> bits bm - unat s" by (rule run_len_le)
  then show ?thesis using r(2)
    by (intro that[OF r(1)]) (auto simp: word_le_unat min_def split: if_splits)
qed

text \<open>One round of a search: skip to the next run, measure it.\<close>

lemma skip_run:
  assumes ok: "bm_ok bm" and s: "unat s \<le> bits bm"
  obtains l where "skip bm s MAXINDEX = Some l"
    "unat (s + l) = unat s + run_len (\<lambda>i. \<not> P bm i) (unat s) (bits bm)"
    "unat (s + l) \<le> bits bm" "unat s \<le> unat (s + l)"
    "\<And>i. unat s \<le> i \<Longrightarrow> i < unat (s + l) \<Longrightarrow> \<not> P bm i"
    "unat (s + l) < bits bm \<Longrightarrow> P bm (unat (s + l))"
proof -
  let ?n = "run_len (\<lambda>i. \<not> P bm i) (unat s) (bits bm)"
  from skip_max[OF ok, of s] obtain l where l: "skip bm s MAXINDEX = Some l" "unat l = ?n" by blast
  have le: "unat s + ?n \<le> bits bm" using run_len_le[of "\<lambda>i. \<not> P bm i" "unat s" "bits bm"] s by linarith
  then have sum: "unat (s + l) = unat s + ?n"
    using ok l(2) by (simp add: unat_add_fits bm_ok_def)
  show ?thesis
    using l(1) sum le run_len_all[of "unat s" _ "\<lambda>i. \<not> P bm i" "bits bm"]
      run_len_stop[of "unat s" "\<lambda>i. \<not> P bm i" "bits bm"]
    by (intro that[of l]) auto
qed

end

text \<open>The find loops of the two kinds differ in their loop condition: \<open>fits\<close> is \<open><\<close> in the
  clear-bit search and \<open>\<le>\<close> in the set-bit search.\<close>

locale run_find = run_scanner +
  fixes fits :: "BITMAP_INDEX \<Rightarrow> BITMAP_INDEX \<Rightarrow> bool"
    and loop :: "RTL_BITMAP \<Rightarrow> BITMAP_INDEX \<Rightarrow> BITMAP_INDEX \<Rightarrow> BITMAP_INDEX \<Rightarrow> BITMAP_INDEX option option"
  assumes fits_le: "fits a b \<Longrightarrow> a \<le> b"
    and fits_mono: "fits a b \<Longrightarrow> c \<le> a \<Longrightarrow> fits c b"
    and loop_eq: "loop bm N Margin c =
      (if fits (c + N) Margin then do {
         l \<leftarrow> skip bm c MAXINDEX;
         r \<leftarrow> want bm (c + l) N;
         (if r \<ge> N then Some (Some (c + l)) else loop bm N Margin (c + l + r)) }
       else Some None)"
begin

definition found :: "RTL_BITMAP \<Rightarrow> nat \<Rightarrow> nat \<Rightarrow> bool" where
  "found bm N p \<longleftrightarrow> p + N \<le> bits bm \<and> (\<forall>i. p \<le> i \<longrightarrow> i < p + N \<longrightarrow> P bm i)"

lemma loop_total:
  assumes ok: "bm_ok bm" and N: "0 < N" "N \<le> SizeOfBitMap bm" and mg: "Margin \<le> SizeOfBitMap bm"
    and c: "unat c \<le> bits bm"
  shows "\<exists>r. loop bm N Margin c = Some r \<and>
    (case r of
       Some pos \<Rightarrow> found bm (unat N) (unat pos)
     | None \<Rightarrow> (\<forall>p. unat c \<le> unat p \<longrightarrow> found bm (unat N) (unat p) \<longrightarrow> \<not> fits (p + N) Margin))"
  using c
proof (induction "bits bm - unat c" arbitrary: c rule: less_induct)
  case less
  have size: "bits bm < 2 ^ 31" using ok by (simp add: bm_ok_def)
  have Nn: "0 < unat N" "unat N \<le> bits bm" using N by (auto simp: word_le_unat unat_gt_0)
  have plus: "unat (p + N) = unat p + unat N" if "unat p \<le> bits bm" for p
    using that Nn size by (intro unat_add_fits) simp
  show ?case
  proof (cases "fits (c + N) Margin")
    case False
    have "\<not> fits (p + N) Margin" if "unat c \<le> unat p" "found bm (unat N) (unat p)" for p
    proof
      assume "fits (p + N) Margin"
      moreover have "c + N \<le> p + N"
        using that plus[of p] plus[of c] less.prems by (simp add: word_le_unat found_def)
      ultimately show False using False fits_mono by blast
    qed
    then show ?thesis using False by (subst loop_eq) simp
  next
    case True
    have cN: "unat c + unat N \<le> bits bm"
      using fits_le[OF True] mg plus[OF less.prems] by (simp add: word_le_unat)
    obtain l where l: "skip bm c MAXINDEX = Some l"
        "unat (c + l) \<le> bits bm" "unat c \<le> unat (c + l)"
        "\<And>i. unat c \<le> i \<Longrightarrow> i < unat (c + l) \<Longrightarrow> \<not> P bm i"
        "unat (c + l) < bits bm \<Longrightarrow> P bm (unat (c + l))"
      by (rule skip_run[OF ok less.prems]) blast
    let ?c = "c + l" and ?n = "run_len (P bm) (unat (c + l)) (bits bm)"
    obtain r where r: "want bm ?c N = Some r" "N \<le> r \<longrightarrow> unat N \<le> ?n" "\<not> N \<le> r \<longrightarrow> unat r = ?n"
      by (rule want_enough[OF ok N(1)])
    have n_le: "unat ?c + ?n \<le> bits bm"
      using run_len_le[of "P bm" "unat ?c" "bits bm"] l(2) by linarith
    show ?thesis
    proof (cases "N \<le> r")
      case hit: True
      then have "found bm (unat N) (unat ?c)"
        using r(2) n_le run_len_all[of "unat ?c" _ "P bm" "bits bm"] by (auto simp: found_def)
      then show ?thesis using True l(1) r(1) hit by (subst loop_eq) simp
    next
      case miss: False
      then have rn: "unat r = ?n" using r(3) by blast
      have next_c: "unat (?c + r) = unat ?c + ?n"
        using rn n_le size by (simp add: unat_add_fits)
      have progress: "unat c < unat (?c + r)"
      proof (cases "unat c < unat ?c")
        case False
        then have eq: "unat ?c = unat c" using l(3) by linarith
        then have "P bm (unat ?c)" using l(5) cN Nn by linarith
        then have "0 < ?n" using eq cN Nn by (intro run_len_pos) linarith+
        then show ?thesis using eq next_c by linarith
      qed (use next_c in linarith)
      have none: "unat ?c + ?n \<le> p" if p: "unat c \<le> p" "found bm (unat N) p" for p
      proof (rule ccontr)
        assume a: "\<not> unat ?c + ?n \<le> p"
        have "P bm p" using p Nn by (simp add: found_def)
        then have "unat ?c \<le> p" using p(1) l(4) not_le by blast
        moreover have "unat ?c + ?n < p + unat N"
          using miss rn calculation a by (simp add: word_le_unat)
        ultimately have "P bm (unat ?c + ?n)" "unat ?c + ?n < bits bm"
          using p(2) a by (auto simp: found_def)
        then show False using run_len_stop by blast
      qed
      have "loop bm N Margin c = loop bm N Margin (?c + r)"
        using True l(1) r(1) miss by (subst loop_eq) simp
      moreover have "\<exists>r'. loop bm N Margin (?c + r) = Some r' \<and>
        (case r' of Some pos \<Rightarrow> found bm (unat N) (unat pos)
         | None \<Rightarrow> (\<forall>p. unat (?c + r) \<le> unat p \<longrightarrow> found bm (unat N) (unat p) \<longrightarrow> \<not> fits (p + N) Margin))"
        using progress next_c n_le cN Nn by (intro less.hyps) linarith+
      ultimately show ?thesis using none next_c by (auto split: option.splits)
    qed
  qed
qed

end

locale run_search = run_scanner +
  fixes next_run :: "RTL_BITMAP \<Rightarrow> BITMAP_INDEX \<Rightarrow> (BITMAP_INDEX \<times> BITMAP_INDEX) option"
    and longest :: "RTL_BITMAP \<Rightarrow> BITMAP_INDEX \<Rightarrow> BITMAP_INDEX option \<Rightarrow> BITMAP_INDEX \<Rightarrow>
      (BITMAP_INDEX \<times> BITMAP_INDEX option) option"
  assumes next_run_eq: "next_run bm frm =
      (if frm \<ge> SizeOfBitMap bm then Some (0, frm)
       else do {
         l \<leftarrow> skip bm frm MAXINDEX;
         n \<leftarrow> want bm (frm + l) MAXINDEX;
         Some (n, frm + l) })"
    and longest_eq: "longest bm mx st frm = do {
      (n, Index) \<leftarrow> next_run bm frm;
      (if n = 0 then Some (mx, st)
       else if n > mx then longest bm n (Some Index) (frm + n)
       else longest bm mx st (frm + n)) }"
begin

abbreviation run_at :: "RTL_BITMAP \<Rightarrow> nat \<Rightarrow> nat" where
  "run_at bm s \<equiv> run_len (P bm) s (bits bm)"

lemma next_run_total:
  assumes ok: "bm_ok bm"
  shows "\<exists>n st. next_run bm frm = Some (n, st) \<and> unat frm \<le> unat st \<and>
     unat n = run_at bm (unat st) \<and> (unat frm \<le> bits bm \<longrightarrow> unat st + unat n \<le> bits bm) \<and>
     (\<forall>i. unat frm \<le> i \<longrightarrow> i < unat st \<longrightarrow> \<not> P bm i) \<and>
     (n = 0 \<longrightarrow> (\<forall>i. unat frm \<le> i \<longrightarrow> i < bits bm \<longrightarrow> \<not> P bm i))"
proof (cases "frm \<ge> SizeOfBitMap bm")
  case True
  then show ?thesis by (subst next_run_eq) (simp add: word_le_unat)
next
  case False
  then have lt: "unat frm < bits bm" by (simp add: word_le_unat)
  then have "unat frm \<le> bits bm" by simp
  from skip_run[OF ok this] obtain l where l: "skip bm frm MAXINDEX = Some l"
      "unat (frm + l) \<le> bits bm" "unat frm \<le> unat (frm + l)"
      "\<forall>i. unat frm \<le> i \<longrightarrow> i < unat (frm + l) \<longrightarrow> \<not> P bm i"
      "unat (frm + l) < bits bm \<longrightarrow> P bm (unat (frm + l))"
    by metis
  from want_max[OF ok, of "frm + l"] obtain n where
    n: "want bm (frm + l) MAXINDEX = Some n" "unat n = run_at bm (unat (frm + l))" by blast
  have "unat (frm + l) = bits bm" if "n = 0"
    using that n(2) l(2,5) run_len_pos[of "unat (frm + l)" "bits bm" "P bm"] by fastforce
  then show ?thesis
    using False l n run_len_le[of "P bm" "unat (frm + l)" "bits bm"]
    by (subst next_run_eq) auto
qed

lemma run_at_suffix:
  assumes "s \<le> t" "t < s + run_at bm s"
  shows "run_at bm t \<le> run_at bm s"
proof -
  have "t + run_at bm t \<le> s + run_at bm s"
  proof (rule ccontr)
    let ?e = "s + run_at bm s"
    assume a: "\<not> t + run_at bm t \<le> ?e"
    have "?e < bits bm" using a assms run_len_le[of "P bm" t "bits bm"] by linarith
    then have "\<not> P bm ?e" by (rule run_len_stop)
    moreover have "P bm ?e" using a assms by (intro run_len_all[of t ?e "P bm" "bits bm"]) linarith+
    ultimately show False by contradiction
  qed
  then show ?thesis using assms(1) by linarith
qed

text \<open>The loop restarts inside the run it has just measured (\<open>FromIndex += NumberOfBits\<close>), and
  still ends with the longest run: what it re-measures are suffixes of runs already seen.\<close>

lemma longest_total:
  assumes ok: "bm_ok bm" and frm: "unat frm \<le> bits bm"
    and seen: "\<And>s. s < unat frm \<Longrightarrow> run_at bm s \<le> unat mx"
    and st: "0 < mx \<longrightarrow> (\<exists>s. st = Some s \<and> run_at bm (unat s) = unat mx)"
  shows "\<exists>n st'. longest bm mx st frm = Some (n, st') \<and> (\<forall>s. run_at bm s \<le> unat n) \<and>
    (0 < n \<longrightarrow> (\<exists>s. st' = Some s \<and> run_at bm (unat s) = unat n))"
  using frm seen st
proof (induction "bits bm - unat frm" arbitrary: frm mx st rule: less_induct)
  case less
  have size: "bits bm < 2 ^ 31" using ok by (simp add: bm_ok_def)
  from next_run_total[OF ok, of frm] less.prems(1) obtain n Index where
    nx: "next_run bm frm = Some (n, Index)" "unat frm \<le> unat Index"
      "unat n = run_at bm (unat Index)" "unat Index + unat n \<le> bits bm"
      "\<forall>i. unat frm \<le> i \<longrightarrow> i < unat Index \<longrightarrow> \<not> P bm i"
      "n = 0 \<longrightarrow> (\<forall>i. unat frm \<le> i \<longrightarrow> i < bits bm \<longrightarrow> \<not> P bm i)"
    by blast
  show ?case
  proof (cases "n = 0")
    case True
    have "run_at bm s \<le> unat mx" for s
    proof (cases "s < unat frm")
      case False
      then have "run_at bm s = 0"
        using nx(6) True by (cases "s < bits bm") (simp_all add: run_len_zero)
      then show ?thesis by simp
    qed (rule less.prems(2))
    then show ?thesis using True nx(1) less.prems(3) by (subst longest_eq) simp
  next
    case False
    then have n0: "0 < unat n" by (simp add: unat_gt_0)
    have adv: "unat (frm + n) = unat frm + unat n"
      using nx(2,4) size by (intro unat_add_fits) simp
    let ?mx = "if n > mx then n else mx" and ?st = "if n > mx then Some Index else st"
    have "longest bm mx st frm = longest bm ?mx ?st (frm + n)"
      using False nx(1) by (subst longest_eq) simp
    moreover have "run_at bm s \<le> unat ?mx" if "s < unat (frm + n)" for s
    proof -
      consider "s < unat frm" | "unat frm \<le> s" "s < unat Index" | "unat Index \<le> s" by linarith
      then show ?thesis
      proof cases
        case 1
        then show ?thesis using less.prems(2)[of s] by (auto simp: word_lt_unat)
      next
        case 2
        then have "run_at bm s = 0" using nx(4,5) n0 by (intro run_len_zero) auto
        then show ?thesis by simp
      next
        case 3
        have "s < unat Index + run_at bm (unat Index)" using that adv nx(2,3) by linarith
        then have "run_at bm s \<le> unat n" using run_at_suffix[OF 3] nx(3) by simp
        then show ?thesis by (auto simp: word_lt_unat not_less)
      qed
    qed
    moreover have "0 < ?mx \<longrightarrow> (\<exists>s. ?st = Some s \<and> run_at bm (unat s) = unat ?mx)"
      using less.prems(3) nx(3) by simp
    ultimately show ?thesis
      using less.hyps[of "frm + n" ?mx ?st] adv n0 nx(2,4) by simp
  qed
qed

end

section \<open>The two instances\<close>

interpretation clr: run_scanner "\<lambda>bm i. \<not> test bm i" RtlpGetLengthOfRunClear RtlpGetLengthOfRunSet
  using scan_run_bounds[of _ "\<lambda>w. w"] scan_run_max[of _ "\<lambda>w. w"] scan_run_max[of _ "\<lambda>w. NOT w"]
  by unfold_locales (simp_all add: scan_clear scan_set fbit_clear fbit_set)

interpretation sets: run_scanner test RtlpGetLengthOfRunSet RtlpGetLengthOfRunClear
  using scan_run_bounds[of _ "\<lambda>w. NOT w"] scan_run_max[of _ "\<lambda>w. w"] scan_run_max[of _ "\<lambda>w. NOT w"]
  by unfold_locales (simp_all add: scan_clear scan_set fbit_clear fbit_set)

interpretation clr_find: run_find "\<lambda>bm i. \<not> test bm i" RtlpGetLengthOfRunClear RtlpGetLengthOfRunSet
  "(<)" find_clear_loop
  by unfold_locales (auto simp: find_clear_loop.simps)

interpretation set_find: run_find test RtlpGetLengthOfRunSet RtlpGetLengthOfRunClear
  "(\<le>)" find_set_loop
  by unfold_locales (auto simp: find_set_loop.simps)

interpretation clr_search: run_search "\<lambda>bm i. \<not> test bm i" RtlpGetLengthOfRunClear RtlpGetLengthOfRunSet
  RtlFindNextForwardRunClear longest_clear_loop
  by unfold_locales (simp_all add: RtlFindNextForwardRunClear_def longest_clear_loop.simps)

interpretation set_search: run_search test RtlpGetLengthOfRunSet RtlpGetLengthOfRunClear
  RtlFindNextForwardRunSet longest_set_loop
  by unfold_locales (simp_all add: RtlFindNextForwardRunSet_def longest_set_loop.simps)

end
