(* ===== verification/Bitmap_Update.thy ===== *)
theory Bitmap_Update
  imports Bitmap_Correct
begin

text \<open>The updating and counting routines of the bitmap package: setting and clearing ranges, whole
  bitmaps and single bits, and counting, against the bits.\<close>

section \<open>Filling words\<close>

lemma fill_loop_nth:
  "p + n \<le> length buf \<Longrightarrow> \<exists>b. fill_loop buf p n F = Some b \<and> length b = length buf \<and>
     (\<forall>j < length buf. b ! j = (if p \<le> j \<and> j < p + n then F else buf ! j))"
proof (induction n arbitrary: buf p)
  case (Suc n)
  then have "Suc p + n \<le> length (buf[p := F])" by simp
  from Suc.IH[OF this] obtain b where
    "fill_loop (buf[p := F]) (Suc p) n F = Some b" "length b = length buf"
    "\<forall>j < length buf. b ! j = (if Suc p \<le> j \<and> j < Suc p + n then F else buf[p := F] ! j)"
    by auto
  then show ?case using Suc.prems by (auto simp: wr_def nth_list_update)
qed auto

lemma unat_fill_count: "unat (drop_bit 3 (N :: 32 word) div 4) = unat N div 32"
  by (simp add: unat_div unsigned_drop_bit_eq drop_bit_eq_div div_mult2_eq[symmetric])

section \<open>Ranges\<close>

text \<open>\<open>upd\<close> writes the value \<open>v\<close> into the bits of a mask; the set and the clear routine are the
  same routine for the two values.\<close>

definition upd :: "bool \<Rightarrow> 32 word \<Rightarrow> 32 word \<Rightarrow> 32 word" where
  "upd v w M = (if v then w OR M else w AND NOT M)"

lemma bit_upd: "c < 32 \<Longrightarrow> bit (upd v w M) c = (if bit M c then v else bit w c)"
  by (auto simp: upd_def bit_or_iff bit_and_iff bit_not_iff)

definition tail_bits :: "bool \<Rightarrow> 32 word list \<Rightarrow> nat \<Rightarrow> 32 word \<Rightarrow> 32 word list option" where
  "tail_bits v buf p N = do {
     buf \<leftarrow> RtlFillMemoryUlong buf p (drop_bit 3 N) (if v then MAXINDEX else 0);
     let p = p + unat (N div 32);
     let Rest = N AND (32 - 1);
     (if Rest \<noteq> 0 then do { w \<leftarrow> rd buf p; wr buf p (upd v w (NOT (push_bit (unat Rest) MAXINDEX))) }
      else Some buf) }"

lemma set_tail_upd: "set_tail = tail_bits True"
  unfolding set_tail_def tail_bits_def upd_def Let_def if_True by (intro ext) (rule refl)

lemma clear_tail_upd: "clear_tail = tail_bits False"
  unfolding clear_tail_def tail_bits_def upd_def Let_def if_False bit.double_compl
  by (intro ext) (rule refl)

abbreviation bbit :: "32 word list \<Rightarrow> nat \<Rightarrow> bool" where
  "bbit buf i \<equiv> bit (buf ! (i div 32)) (i mod 32)"

lemma bit_MAXINDEX: "bit MAXINDEX c \<longleftrightarrow> c < 32"
proof -
  have "MAXINDEX = mask 32" by (simp add: MAXINDEX_def mask_eq_exp_minus_1)
  show ?thesis unfolding \<open>MAXINDEX = mask 32\<close> bit_mask_iff by simp
qed

lemma bit_low_mask: "c < 32 \<Longrightarrow> bit (NOT (push_bit n MAXINDEX)) c \<longleftrightarrow> c < n"
  by (auto simp: bit_not_iff bit_push_bit_iff bit_MAXINDEX)

lemma bit_high_mask: "c < 32 \<Longrightarrow> bit (push_bit n MAXINDEX) c \<longleftrightarrow> n \<le> c"
  by (auto simp: bit_push_bit_iff bit_MAXINDEX)

lemma bit_mid_mask:
  "c < 32 \<Longrightarrow> bit (drop_bit k (push_bit k (push_bit n MAXINDEX)) :: 32 word) c \<longleftrightarrow> n \<le> c \<and> c + k < 32"
  by (auto simp: bit_drop_bit_eq bit_push_bit_iff bit_MAXINDEX)

lemma word_pos_cases:
  fixes i :: nat
  assumes "r < 32"
  shows "(32 * p \<le> i \<and> i < 32 * p + (32 * k + r)) \<longleftrightarrow>
     (p \<le> i div 32 \<and> (i div 32 < p + k \<or> i div 32 = p + k \<and> i mod 32 < r))"
proof -
  have "(32 * p \<le> 32 * j + c \<and> 32 * j + c < 32 * p + (32 * k + r)) \<longleftrightarrow>
     (p \<le> j \<and> (j < p + k \<or> j = p + k \<and> c < r))" if "c < 32" for j c :: nat
  proof (cases "j < p \<or> p + k < j")
    case True
    then have "32 * j + 32 \<le> 32 * p \<or> 32 * p + 32 * k + 32 \<le> 32 * j" by linarith
    then show ?thesis using True that assms by linarith
  next
    case False
    then have "j < p + k \<and> 32 * j + 32 \<le> 32 * p + 32 * k \<or> j = p + k" by linarith
    then show ?thesis using False that assms by auto
  qed
  from this[of "i mod 32" "i div 32"] show ?thesis by simp
qed

lemma tail_bits_correct:
  assumes fit: "32 * p + unat N \<le> 32 * length buf"
  shows "\<exists>b. tail_bits v buf p N = Some b \<and> length b = length buf \<and>
    (\<forall>i < 32 * length buf. bbit b i = (if 32 * p \<le> i \<and> i < 32 * p + unat N then v else bbit buf i))"
proof -
  let ?k = "unat N div 32" and ?r = "unat N mod 32" and ?F = "if v then MAXINDEX else 0"
  have N: "unat N = 32 * ?k + ?r" by simp
  have "p + ?k \<le> length buf" using fit N by linarith
  from fill_loop_nth[OF this, of ?F] obtain b where
    b: "RtlFillMemoryUlong buf p (drop_bit 3 N) ?F = Some b" "length b = length buf"
      "\<forall>j < length buf. b ! j = (if p \<le> j \<and> j < p + ?k then ?F else buf ! j)"
    by (auto simp: RtlFillMemoryUlong_def unat_fill_count)
  have fbits: "bit ?F c = v" if "c < 32" for c using that by (simp add: bit_MAXINDEX)
  have r: "unat (N AND 31) = ?r" by (simp add: unat_simps)
  show ?thesis
  proof (cases "?r = 0")
    case True
    then have "N AND 31 = 0" using r by (metis unat_eq_0)
    then have "tail_bits v buf p N = Some b" using b(1) by (simp add: tail_bits_def Let_def)
    moreover have "bbit b i = (if 32 * p \<le> i \<and> i < 32 * p + unat N then v else bbit buf i)"
      if "i < 32 * length buf" for i
    proof -
      have "(32 * p \<le> i \<and> i < 32 * p + unat N) \<longleftrightarrow> p \<le> i div 32 \<and> i div 32 < p + ?k"
        using word_pos_cases[of ?r p i ?k] N True by simp
      then show ?thesis using b(3) fbits that by (simp add: less_mult_imp_div_less mult.commute)
    qed
    ultimately show ?thesis using b(2) by blast
  next
    case False
    then have nz: "N AND 31 \<noteq> 0" using r by auto
    have lt: "p + ?k < length b" using fit N False b(2) by linarith
    let ?w = "upd v (b ! (p + ?k)) (NOT (push_bit ?r MAXINDEX))"
    have "tail_bits v buf p N = Some (b[p + ?k := ?w])"
      using b(1) nz lt by (simp add: tail_bits_def Let_def mem_simps r unat_div32)
    moreover have "bbit (b[p + ?k := ?w]) i = (if 32 * p \<le> i \<and> i < 32 * p + unat N then v else bbit buf i)"
      if "i < 32 * length buf" for i
    proof -
      have "(32 * p \<le> i \<and> i < 32 * p + unat N) \<longleftrightarrow>
          p \<le> i div 32 \<and> (i div 32 < p + ?k \<or> i div 32 = p + ?k \<and> i mod 32 < ?r)"
        using word_pos_cases[of ?r p i ?k] N by simp
      then show ?thesis
        using b(2,3) fbits that lt
        by (auto simp: nth_list_update bit_upd bit_low_mask less_mult_imp_div_less mult.commute)
    qed
    ultimately show ?thesis using b(2) by (intro exI[of _ "b[p + ?k := ?w]"]) simp
  qed
qed

definition range_bits :: "bool \<Rightarrow> RTL_BITMAP \<Rightarrow> 32 word \<Rightarrow> 32 word \<Rightarrow> RTL_BITMAP option" where
  "range_bits v bm Start N =
     (let buf = Buffer bm; p = unat (Start div 32); Bits = Start AND (32 - 1) in do {
        b \<leftarrow>
          (if Bits \<noteq> 0 then
             let Mask = push_bit (unat Bits) MAXINDEX; Bits = 32 - Bits in
             if N < Bits then
               let Bits = Bits - N;
                   Mask = drop_bit (unat Bits) (push_bit (unat Bits) Mask)
               in do { w \<leftarrow> rd buf p; wr buf p (upd v w Mask) }
             else do {
               w \<leftarrow> rd buf p;
               buf \<leftarrow> wr buf p (upd v w Mask);
               tail_bits v buf (Suc p) (N - Bits) }
           else tail_bits v buf p N);
        Some (bm\<lparr>Buffer := b\<rparr>) })"

lemma RtlSetBits_range: "RtlSetBits = range_bits True"
  unfolding RtlSetBits_def range_bits_def upd_def set_tail_upd Let_def if_True
  by (intro ext) (rule refl)

lemma RtlClearBits_range: "RtlClearBits = range_bits False"
  unfolding RtlClearBits_def range_bits_def upd_def clear_tail_upd Let_def if_False
  by (intro ext) (rule refl)

lemma same_word_range:
  fixes i :: nat
  assumes "s mod 32 + n \<le> 32"
  shows "(s \<le> i \<and> i < s + n) \<longleftrightarrow> i div 32 = s div 32 \<and> s mod 32 \<le> i mod 32 \<and> i mod 32 < s mod 32 + n"
proof -
  have "(32 * p + b \<le> 32 * j + c \<and> 32 * j + c < 32 * p + b + n) \<longleftrightarrow> j = p \<and> b \<le> c \<and> c < b + n"
    if "b + n \<le> 32" "c < 32" for p b j c :: nat
  proof (cases "j = p")
    case False
    then have "32 * j + 32 \<le> 32 * p \<or> 32 * p + 32 \<le> 32 * j" by linarith
    then show ?thesis using False that by linarith
  qed auto
  from this[OF assms, of "i mod 32" "s div 32" "i div 32"] show ?thesis by simp
qed

lemma upd_word:
  assumes "unat Start mod 32 + n \<le> 32" "unat Start div 32 < length buf"
    "\<And>c. c < 32 \<Longrightarrow> bit M c \<longleftrightarrow> unat Start mod 32 \<le> c \<and> c < unat Start mod 32 + n"
    "i < 32 * length buf"
  shows "bbit (buf[unat Start div 32 := upd v (buf ! (unat Start div 32)) M]) i =
    (if unat Start \<le> i \<and> i < unat Start + n then v else bbit buf i)"
  using assms same_word_range[OF assms(1), of i] by (auto simp: nth_list_update bit_upd)

lemma unat_room:
  fixes Start :: "32 word"
  shows "unat (32 - (Start AND 31)) = 32 - unat Start mod 32"
proof -
  have b: "unat (Start AND 31) = unat Start mod 32" by (simp add: unat_simps)
  show ?thesis using b by (subst unat_sub_fits) (auto simp: word_le_unat)
qed

lemma next_word: "S = 32 * p + b \<Longrightarrow> b < 32 \<Longrightarrow> 32 * Suc p = S + (32 - (b :: nat))"
  by simp

lemma join_ranges:
  "S \<le> A \<Longrightarrow> (if A \<le> i \<and> i < A + n then v else if S \<le> i \<and> i < A then v else x) =
     (if S \<le> i \<and> i < A + (n :: nat) then v else x)"
  by auto

lemma range_bits_correct:
  assumes fit: "unat Start + unat N \<le> 32 * length (Buffer bm)"
  shows "\<exists>b. range_bits v bm Start N = Some (bm\<lparr>Buffer := b\<rparr>) \<and> length b = length (Buffer bm) \<and>
    (\<forall>i < 32 * length b. bbit b i =
       (if unat Start \<le> i \<and> i < unat Start + unat N then v else bbit (Buffer bm) i))"
proof -
  let ?S = "unat Start" and ?b = "unat Start mod 32" and ?p = "unat Start div 32" and ?buf = "Buffer bm"
  have S: "?S = 32 * ?p + ?b" by simp
  have b: "unat (Start AND 31) = ?b" by (simp add: unat_simps)
  have p: "unat (Start div 32) = ?p" by (simp add: unat_div32)
  show ?thesis
  proof (cases "?b = 0")
    case True
    then have z: "Start AND 31 = 0" using b by (metis unat_eq_0)
    have "32 * ?p + unat N \<le> 32 * length ?buf" using fit True by linarith
    from tail_bits_correct[OF this, of v] obtain b' where
      "tail_bits v ?buf ?p N = Some b'" "length b' = length ?buf"
      "\<forall>i < 32 * length ?buf. bbit b' i = (if 32 * ?p \<le> i \<and> i < 32 * ?p + unat N then v else bbit ?buf i)"
      by blast
    then show ?thesis using z True by (intro exI[of _ b']) (auto simp: range_bits_def Let_def p)
  next
    case False
    then have nz: "Start AND 31 \<noteq> 0" using b by auto
    have lt_p: "?p < length ?buf" using fit False S by linarith
    show ?thesis
    proof (cases "unat N < 32 - ?b")
      case short: True
      then have lt: "N < 32 - (Start AND 31)" by (simp add: word_less_nat_alt unat_room)
      have k: "unat (32 - (Start AND 31) - N) = 32 - ?b - unat N"
        using short by (subst unat_sub_fits) (auto simp: word_le_unat unat_room)
      let ?M = "drop_bit (32 - ?b - unat N) (push_bit (32 - ?b - unat N) (push_bit ?b MAXINDEX)) :: 32 word"
      have "range_bits v bm Start N = Some (bm\<lparr>Buffer := ?buf[?p := upd v (?buf ! ?p) ?M]\<rparr>)"
        using nz lt lt_p by (simp add: range_bits_def Let_def p b k mem_simps)
      moreover have "bit ?M c \<longleftrightarrow> ?b \<le> c \<and> c < ?b + unat N" if "c < 32" for c
        using that short by (subst bit_mid_mask) auto
      ultimately show ?thesis
        using upd_word[of Start "unat N" ?buf ?M _ v] lt_p short
        by (intro exI[of _ "?buf[?p := upd v (?buf ! ?p) ?M]"]) auto
    next
      case long: False
      then have nlt: "\<not> N < 32 - (Start AND 31)" by (simp add: word_less_nat_alt unat_room)
      have k: "unat (N - (32 - (Start AND 31))) = unat N - (32 - ?b)"
        using long by (subst unat_sub_fits) (auto simp: word_le_unat unat_room)
      let ?M = "push_bit ?b MAXINDEX :: 32 word" and ?n = "unat N - (32 - ?b)"
      let ?c = "?buf[?p := upd v (?buf ! ?p) ?M]"
      have first: "bbit ?c i = (if ?S \<le> i \<and> i < ?S + (32 - ?b) then v else bbit ?buf i)"
        if "i < 32 * length ?buf" for i
        using that lt_p by (intro upd_word) (auto simp: bit_high_mask)
      have "32 * Suc ?p + unat (N - (32 - (Start AND 31))) \<le> 32 * length ?c" using fit long S k by simp
      from tail_bits_correct[OF this, of v] obtain b' where b':
        "tail_bits v ?c (Suc ?p) (N - (32 - (Start AND 31))) = Some b'" "length b' = length ?buf"
        "\<forall>i < 32 * length ?buf. bbit b' i = (if 32 * Suc ?p \<le> i \<and> i < 32 * Suc ?p + ?n then v else bbit ?c i)"
        unfolding k by auto
      have r: "range_bits v bm Start N = Some (bm\<lparr>Buffer := b'\<rparr>)"
        using nz nlt lt_p b' by (simp add: range_bits_def Let_def p b mem_simps)
      have e: "?S + unat N = ?S + (32 - ?b) + ?n" using long by linarith
      have "bbit b' i = (if ?S \<le> i \<and> i < ?S + unat N then v else bbit ?buf i)"
        if "i < 32 * length b'" for i
        using that b'(3)[rule_format, of i] first[of i]
        unfolding next_word[OF S mod_less_divisor[OF zero_less_numeral]] e b'(2)
        by (simp only: join_ranges[OF le_add1])
      then show ?thesis using r b'(2) by blast
    qed
  qed
qed

section \<open>Single bits\<close>

lemma bit_single: "c < 32 \<Longrightarrow> bit (2 ^ k :: 32 word) c \<longleftrightarrow> c = k"
  by (auto simp: bit_exp_iff)

definition single_bit :: "bool \<Rightarrow> RTL_BITMAP \<Rightarrow> 32 word \<Rightarrow> RTL_BITMAP option" where
  "single_bit v bm n = (let p = unat (n div 32) in do {
        w \<leftarrow> rd (Buffer bm) p;
        b \<leftarrow> wr (Buffer bm) p (upd v w (push_bit (unat (n AND 31)) 1));
        Some (bm\<lparr>Buffer := b\<rparr>) })"

lemma RtlSetBit_single: "RtlSetBit = single_bit True"
  unfolding RtlSetBit_def single_bit_def upd_def Let_def if_True by (intro ext) (rule refl)

lemma RtlClearBit_single: "RtlClearBit = single_bit False"
  unfolding RtlClearBit_def single_bit_def upd_def Let_def if_False by (intro ext) (rule refl)

lemma single_bit_correct:
  assumes "unat n < 32 * length (Buffer bm)"
  shows "\<exists>b. single_bit v bm n = Some (bm\<lparr>Buffer := b\<rparr>) \<and> length b = length (Buffer bm) \<and>
    (\<forall>i < 32 * length b. bbit b i = (if i = unat n then v else bbit (Buffer bm) i))"
proof -
  let ?p = "unat n div 32" and ?k = "unat n mod 32" and ?buf = "Buffer bm"
  let ?b = "?buf[?p := upd v (?buf ! ?p) (push_bit ?k 1)]"
  have p: "?p < length ?buf" using assms by (simp add: less_mult_imp_div_less mult.commute)
  have "single_bit v bm n = Some (bm\<lparr>Buffer := ?b\<rparr>)"
    using p by (simp add: single_bit_def Let_def unat_div32 unat_and31 mem_simps)
  moreover have "bbit ?b i = (if i = unat n then v else bbit ?buf i)" if "i < 32 * length ?buf" for i
  proof -
    have "i = unat n \<longleftrightarrow> i div 32 = ?p \<and> i mod 32 = ?k" by (metis div_mult_mod_eq)
    then show ?thesis using p by (auto simp: nth_list_update bit_upd bit_single)
  qed
  ultimately show ?thesis by (intro exI[of _ ?b]) simp
qed

lemma RtlTestBit_correct:
  assumes "unat n < 32 * length (Buffer bm)"
  shows "RtlTestBit bm n = Some (bbit (Buffer bm) (unat n))"
proof -
  have "unat n div 32 < length (Buffer bm)" using assms by (simp add: less_mult_imp_div_less mult.commute)
  moreover have "(drop_bit k w AND 1 \<noteq> 0) = bit w k" for w :: "32 word" and k
    by (simp add: and_one_eq bit_iff_odd_drop_bit mod_2_eq_odd)
  ultimately show ?thesis by (simp add: RtlTestBit_def unat_div32 unat_and31 mem_simps)
qed

section \<open>Whole bitmaps\<close>

lemma unat_all_count:
  fixes s :: "32 word"
  assumes "unat s < 2 ^ 31"
  shows "unat ((s + 32 - 1) div 32 * 4 div 4) = (unat s + 31) div 32"
proof -
  have "s + 32 - 1 = s + 31" by simp
  moreover have "unat (s + 31) = unat s + 31" using assms by (subst unat_add_fits) auto
  ultimately have q: "unat ((s + 32 - 1) div 32) = (unat s + 31) div 32"
    by (simp only: unat_div) simp
  have m: "x * 4 mod 4294967296 = x * 4" if "x * 4 < 4294967296" for x :: nat using that by simp
  have "(unat s + 31) div 32 * 4 < 4294967296" using assms by simp
  then have "unat ((s + 32 - 1) div 32 * 4) = (unat s + 31) div 32 * 4"
    unfolding unat_word_ariths(2) q by (simp add: m)
  then show ?thesis by (simp add: unat_div)
qed

definition all_bits :: "bool \<Rightarrow> RTL_BITMAP \<Rightarrow> RTL_BITMAP option" where
  "all_bits v bm = (let n = (SizeOfBitMap bm + 32 - 1) div 32 in do {
        b \<leftarrow> RtlFillMemoryUlong (Buffer bm) 0 (n * 4) (if v then NOT 0 else 0);
        Some (bm\<lparr>Buffer := b\<rparr>) })"

lemma RtlSetAllBits_all: "RtlSetAllBits = all_bits True"
  unfolding RtlSetAllBits_def all_bits_def Let_def if_True by (intro ext) (rule refl)

lemma RtlClearAllBits_all: "RtlClearAllBits = all_bits False"
  unfolding RtlClearAllBits_def all_bits_def Let_def if_False by (intro ext) (rule refl)

lemma all_bits_correct:
  assumes "bm_ok bm"
  shows "\<exists>b. all_bits v bm = Some (bm\<lparr>Buffer := b\<rparr>) \<and> length b = length (Buffer bm) \<and>
    (\<forall>i < bits bm. bbit b i = v)"
proof -
  let ?n = "(bits bm + 31) div 32" and ?F = "if v then NOT 0 else 0 :: 32 word"
  have ok: "bits bm < 2 ^ 31" "bits bm \<le> 32 * length (Buffer bm)" using assms by (auto simp: bm_ok_def)
  then have "0 + ?n \<le> length (Buffer bm)" by linarith
  from fill_loop_nth[OF this, of ?F] obtain b where
    b: "fill_loop (Buffer bm) 0 ?n ?F = Some b" "length b = length (Buffer bm)"
       "\<forall>j < length (Buffer bm). b ! j = (if 0 \<le> j \<and> j < 0 + ?n then ?F else Buffer bm ! j)"
    by blast
  have "all_bits v bm = Some (bm\<lparr>Buffer := b\<rparr>)"
    unfolding all_bits_def Let_def RtlFillMemoryUlong_def unat_all_count[OF ok(1)] b(1) by simp
  moreover have "bbit b i = v" if "i < bits bm" for i
  proof -
    have "i div 32 < ?n" using that by linarith
    moreover have "i div 32 < length (Buffer bm)" using that ok by linarith
    ultimately show ?thesis using b(3) by (simp add: bit_not_iff)
  qed
  ultimately show ?thesis using b(2) by blast
qed

section \<open>Counting\<close>

text \<open>A table of twice the size repeats the table and then its successors; the code's table is the
  eight-fold doubling of \<open>[0]\<close>.\<close>

fun count_table :: "nat \<Rightarrow> nat list" where
  "count_table 0 = [0]"
| "count_table (Suc n) = count_table n @ map Suc (count_table n)"

definition pop :: "nat \<Rightarrow> (nat \<Rightarrow> bool) \<Rightarrow> nat" where
  "pop n P = length (filter P [0..<n])"

lemma pop_Suc: "pop (Suc n) P = pop n P + (if P n then 1 else 0)"
  by (simp add: pop_def)

lemma pop_cong: "(\<And>k. k < n \<Longrightarrow> P k = Q k) \<Longrightarrow> pop n P = pop n Q"
  unfolding pop_def by (rule arg_cong[of _ _ length], rule filter_cong) auto

lemma pop_card: "pop n P = card {i. i < n \<and> P i}"
proof -
  show ?thesis unfolding pop_def by (simp add: distinct_length_filter Int_def conj_commute)
qed

lemma pop_add: "pop (m + n) P = pop m P + pop n (\<lambda>k. P (m + k))"
  by (induction n) (auto simp: pop_Suc pop_def)

lemma bit_below_exp: "(k :: nat) < 2 ^ n \<Longrightarrow> \<not> bit k n"
  by (simp add: bit_iff_odd)

lemma bit_add_exp: "j < n \<Longrightarrow> bit ((2 :: nat) ^ n + k) j = bit k j"
proof -
  assume "j < n"
  then have "n = j + Suc (n - Suc j)" by simp
  then have "(2 :: nat) ^ n = 2 ^ j * (2 * 2 ^ (n - Suc j))" by (metis power_Suc power_add)
  then show ?thesis by (simp add: bit_iff_odd)
qed

lemma count_table_pop: "count_table n = map (\<lambda>k. pop n (bit k)) [0..<2 ^ n]"
proof (induction n)
  case (Suc n)
  have split: "[0..<2 ^ Suc n] = [0..<2 ^ n] @ map (\<lambda>k. 2 ^ n + k) [0..<2 ^ n]"
  proof -
    have "[0..<2 ^ n + 2 ^ n] = [0..<2 ^ n] @ [2 ^ n..<2 ^ n + 2 ^ n]" by (rule upt_add_eq_append) simp
    moreover have "map (\<lambda>k. 2 ^ n + k) [0..<2 ^ n] = [2 ^ n..<2 ^ n + 2 ^ n]"
      using map_add_upt[of "2 ^ n" "2 ^ n"] by (simp add: add.commute)
    ultimately show ?thesis by (simp add: mult_2)
  qed
  have "pop (Suc n) (bit k) = pop n (bit k)" if "k < 2 ^ n" for k :: nat
    using that by (simp add: pop_Suc bit_below_exp)
  moreover have "pop (Suc n) (bit (2 ^ n + k)) = Suc (pop n (bit k))" if "k < 2 ^ n" for k :: nat
  proof -
    have "(2 ^ n + k) div 2 ^ n = 1" using that by (simp add: div_add_self1)
    then have "bit (2 ^ n + k) n" by (simp add: bit_iff_odd)
    moreover have "pop n (bit (2 ^ n + k)) = pop n (bit k)" by (rule pop_cong) (rule bit_add_exp)
    ultimately show ?thesis by (simp add: pop_Suc)
  qed
  ultimately show ?case unfolding split by (simp add: Suc.IH)
qed (simp add: pop_def)

lemma BitCountTable_nth:
  assumes "b < 256"
  shows "rd BitCountTable b = Some (pop 8 (bit b))"
proof -
  have "count_table 8 = count_table (Suc (Suc (Suc (Suc (Suc (Suc (Suc (Suc 0))))))))"
    by (simp add: eval_nat_numeral)
  also have "\<dots> = BitCountTable" by (simp add: BitCountTable_def)
  finally have "BitCountTable = map (\<lambda>k. pop 8 (bit k)) [0..<256]" by (simp add: count_table_pop)
  from this show ?thesis using assms unfolding rd_def \<open>BitCountTable = map _ _\<close> by simp
qed

lemma rd_byte_bits:
  assumes "i < 4 * length buf"
  obtains b where "rd_byte buf i = Some b" "\<And>k. k < 8 \<Longrightarrow> bit b k = bbit buf (8 * i + k)"
proof
  show "rd_byte buf i = Some (ucast (drop_bit (8 * (i mod 4)) (buf ! (i div 4))))"
    using assms by (simp add: rd_byte_def rd_def less_mult_imp_div_less mult.commute)
next
  fix k :: nat
  assume k: "k < 8"
  have "8 * i + k = 32 * (i div 4) + (8 * (i mod 4) + k)"
    using div_mult_mod_eq[of i 4] by linarith
  moreover have "8 * (i mod 4) + k < 32"
  proof -
    have "i mod 4 \<le> 3" by (simp add: less_Suc_eq_le[symmetric])
    then show ?thesis using k by linarith
  qed
  ultimately have "(8 * i + k) div 32 = i div 4" "(8 * i + k) mod 32 = 8 * (i mod 4) + k"
    by (simp_all only: div_mult_self4 mod_mult_self4) simp_all
  then show "bit (ucast (drop_bit (8 * (i mod 4)) (buf ! (i div 4))) :: 8 word) k = bbit buf (8 * i + k)"
    using k by (simp add: bit_ucast_iff bit_drop_bit_eq)
qed

lemma bit_unat8: "bit (unat (b :: 8 word)) = bit b"
  by (simp add: fun_eq_iff bit_unsigned_iff)

lemma count_loop_pop:
  assumes "M \<le> 4 * length buf" "B \<le> M"
  shows "count_loop buf B M c = Some (c + word_of_nat (pop (8 * (M - B)) (\<lambda>k. bbit buf (8 * B + k))))"
  using assms
proof (induction "M - B" arbitrary: B c)
  case 0
  then show ?case by (subst count_loop.simps) (simp add: pop_def)
next
  case (Suc n)
  then have lt: "B < M" "B < 4 * length buf" by auto
  from rd_byte_bits[OF lt(2)] obtain b where
    b: "rd_byte buf B = Some b" "\<And>k. k < 8 \<Longrightarrow> bit b k = bbit buf (8 * B + k)" by blast
  have "unat b < 256" using unsigned_less[of b] by simp
  then have tab: "rd BitCountTable (unat b) = Some (pop 8 (\<lambda>k. bbit buf (8 * B + k)))"
    using b(2) by (simp add: BitCountTable_nth bit_unat8 cong: pop_cong)
  have "8 * (M - B) = 8 + 8 * (M - Suc B)" using lt by simp
  then have "pop (8 * (M - B)) (\<lambda>k. bbit buf (8 * B + k)) =
      pop 8 (\<lambda>k. bbit buf (8 * B + k)) + pop (8 * (M - Suc B)) (\<lambda>k. bbit buf (8 * Suc B + k))"
    by (simp only: pop_add) (simp add: algebra_simps)
  moreover have "n = M - Suc B" using Suc.hyps(2) by simp
  ultimately show ?case
    using lt b(1) tab Suc.hyps(1)[of "Suc B"] Suc.prems
    by (subst count_loop.simps) (simp add: add.assoc)
qed

lemma tail_byte:
  fixes b :: "8 word" and r :: nat
  assumes "r < 8"
  shows "pop 8 (bit (unat (push_bit (8 - r) (ucast b :: 32 word) AND 0xFF))) = pop r (bit b)"
proof -
  have mask: "(0xFF :: 32 word) = mask 8" by (simp add: mask_eq_exp_minus_1)
  have bits: "bit (unat (push_bit (8 - r) (ucast b :: 32 word) AND 0xFF)) k \<longleftrightarrow>
      8 - r \<le> k \<and> bit b (k - (8 - r))" if "k < 8" for k
    unfolding mask using that
    by (auto simp: bit_unsigned_iff bit_and_iff bit_push_bit_iff bit_mask_iff bit_ucast_iff)
  let ?P = "\<lambda>k. 8 - r \<le> k \<and> bit b (k - (8 - r))"
  have "pop r (\<lambda>k. ?P (8 - r + k)) = pop r (bit b)" by (rule pop_cong) simp
  then have "pop 8 ?P = pop (8 - r) ?P + pop r (bit b)"
    using pop_add[of "8 - r" r ?P] le_add_diff_inverse2[of r 8] assms by (simp only: less_imp_le)
  moreover have "pop (8 - r) ?P = 0" by (simp add: pop_def)
  moreover have "pop 8 (bit (unat (push_bit (8 - r) (ucast b :: 32 word) AND 0xFF))) = pop 8 ?P"
    by (rule pop_cong) (rule bits)
  ultimately show ?thesis by simp
qed

lemma NumberOfSetBits_pop:
  assumes ok: "bm_ok bm"
  shows "RtlNumberOfSetBits bm = Some (word_of_nat (pop (bits bm) (test bm)))"
proof -
  let ?M = "bits bm div 8" and ?r = "bits bm mod 8" and ?buf = "Buffer bm"
  have ok': "bits bm \<le> 32 * length ?buf" using ok by (simp add: bm_ok_def)
  have M: "unat (SizeOfBitMap bm div 8) = ?M" by (simp add: unat_div)
  have r: "unat (SizeOfBitMap bm AND 7) = ?r"
  proof -
    have "SizeOfBitMap bm AND 7 = take_bit 3 (SizeOfBitMap bm)"
      by (simp add: take_bit_eq_mask mask_eq_exp_minus_1)
    then have "unat (SizeOfBitMap bm AND 7) = take_bit 3 (bits bm)" by (simp add: unsigned_take_bit_eq)
    then show ?thesis by (simp add: take_bit_eq_mod)
  qed
  have loop: "count_loop ?buf 0 ?M 0 = Some (word_of_nat (pop (8 * ?M) (test bm)))"
    using count_loop_pop[of ?M ?buf 0 0] ok' by (simp add: test_def[abs_def])
  have split: "pop (bits bm) (test bm) = pop (8 * ?M) (test bm) + pop ?r (\<lambda>k. test bm (8 * ?M + k))"
    using pop_add[of "8 * ?M" ?r "test bm"] by simp
  show ?thesis
  proof (cases "?r = 0")
    case True
    then have "SizeOfBitMap bm AND 7 = 0" using r by (metis unat_eq_0)
    then show ?thesis using loop M split True by (simp add: RtlNumberOfSetBits_def Let_def pop_def)
  next
    case False
    then have nz: "SizeOfBitMap bm AND 7 \<noteq> 0" using r by auto
    have "8 * ?M + ?r \<le> 32 * length ?buf" using ok' by simp
    then have "?M < 4 * length ?buf" using False by linarith
    from rd_byte_bits[OF this] obtain b where
      b: "rd_byte ?buf ?M = Some b" "\<And>k. k < 8 \<Longrightarrow> bit b k = bbit ?buf (8 * ?M + k)" by blast
    have sh: "unat (8 - (SizeOfBitMap bm AND 7)) = 8 - ?r"
      using r by (subst unat_sub_fits) (auto simp: word_le_unat)
    have "pop ?r (bit b) = pop ?r (\<lambda>k. test bm (8 * ?M + k))"
      using b(2) by (intro pop_cong) (simp add: test_def)
    moreover have "unat (push_bit (8 - ?r) (ucast b :: 32 word) AND 0xFF) < 256"
    proof -
      have "push_bit (8 - ?r) (ucast b :: 32 word) AND 0xFF \<le> 0xFF" by (rule word_and_le1)
      then show ?thesis by (simp add: word_le_nat_alt)
    qed
    ultimately show ?thesis using loop M nz b(1) sh split tail_byte[of ?r b]
      by (simp add: RtlNumberOfSetBits_def Let_def BitCountTable_nth)
  qed
qed

end
