(* ===== verification/Bitmap_Props.thy ===== *)
theory Bitmap_Props
  imports Bitmap_Update
begin

text \<open>The properties of the bitmap package. The search routines are treated once, over the
  interface \<open>find_api\<close>, and instantiated for clear and for set bits.\<close>

section \<open>The find routines over their loops\<close>

locale find_api = run_find +
  fixes find_bits :: "RTL_BITMAP option \<Rightarrow> BITMAP_INDEX \<Rightarrow> BITMAP_INDEX \<Rightarrow> BITMAP_INDEX option"
  assumes fits_less: "a < b \<Longrightarrow> fits a b"
    and find_null: "find_bits None N Hint = Some MAXINDEX"
    and find_eq: "find_bits (Some bm) N Hint =
      (if N > SizeOfBitMap bm then Some MAXINDEX
       else
         let h = (if Hint \<ge> SizeOfBitMap bm then 0 else Hint) in
         if N = 0 then Some (h AND NOT 7)
         else do {
           r \<leftarrow> loop bm N (SizeOfBitMap bm) h;
           (case r of Some pos \<Rightarrow> Some pos
            | None \<Rightarrow>
              if h \<noteq> 0 then do {
                r \<leftarrow> loop bm N (min (h + N) (SizeOfBitMap bm)) 0;
                Some (case r of Some pos \<Rightarrow> pos | None \<Rightarrow> MAXINDEX) }
              else Some MAXINDEX) })"
begin

lemma found_not_max: "bm_ok bm \<Longrightarrow> found bm N (unat pos) \<Longrightarrow> pos \<noteq> MAXINDEX"
  by (auto simp: found_def bm_ok_def unat_MAXINDEX)

text \<open>The second pass, below the hint, looks at every position the first one did not.\<close>

lemma second_pass:
  assumes ok: "bm_ok bm" and h: "unat h < bits bm" and N: "N \<le> SizeOfBitMap bm"
    and first: "\<forall>p. unat h \<le> unat p \<longrightarrow> found bm (unat N) (unat p) \<longrightarrow> \<not> fits (p + N) (SizeOfBitMap bm)"
    and second: "\<forall>p. found bm (unat N) (unat p) \<longrightarrow> \<not> fits (p + N) (min (h + N) (SizeOfBitMap bm))"
    and p: "found bm (unat N) (unat p)"
  shows "\<not> fits (p + N) (SizeOfBitMap bm)"
proof (cases "unat h \<le> unat p")
  case False
  have "bits bm < 2 ^ 31" using ok by (simp add: bm_ok_def)
  then have "unat (p + N) = unat p + unat N" "unat (h + N) = unat h + unat N"
    using h N p by (auto simp: unat_add_fits found_def word_le_unat)
  then have "p + N < h + N" using False by (simp add: word_less_nat_alt)
  then have "fits (p + N) (h + N)" by (rule fits_less)
  then show ?thesis using second[rule_format, OF p] by (auto simp: min_def split: if_splits)
qed (use first p in blast)

lemma find_total:
  assumes ok: "bm_ok bm" and N: "0 < N" "N \<le> SizeOfBitMap bm"
  shows "\<exists>pos. find_bits (Some bm) N Hint = Some pos \<and>
    (if pos = MAXINDEX then \<forall>p. found bm (unat N) (unat p) \<longrightarrow> \<not> fits (p + N) (SizeOfBitMap bm)
     else found bm (unat N) (unat pos))"
proof -
  define h where "h = (if Hint \<ge> SizeOfBitMap bm then 0 else Hint)"
  have nz: "\<not> N > SizeOfBitMap bm" "N \<noteq> 0" using N by auto
  have h: "unat h < bits bm"
    using N nz by (auto simp: h_def word_le_unat unat_gt_0 not_le)
  from loop_total[OF ok N order_refl less_imp_le[OF h]] obtain r where
    r: "loop bm N (SizeOfBitMap bm) h = Some r" "case r of Some pos \<Rightarrow> found bm (unat N) (unat pos)
     | None \<Rightarrow> (\<forall>p. unat h \<le> unat p \<longrightarrow> found bm (unat N) (unat p) \<longrightarrow> \<not> fits (p + N) (SizeOfBitMap bm))"
    by blast
  have eq: "find_bits (Some bm) N Hint = (case r of Some pos \<Rightarrow> Some pos
            | None \<Rightarrow>
              if h \<noteq> 0 then do {
                r \<leftarrow> loop bm N (min (h + N) (SizeOfBitMap bm)) 0;
                Some (case r of Some pos \<Rightarrow> pos | None \<Rightarrow> MAXINDEX) }
              else Some MAXINDEX)"
    unfolding find_eq h_def[symmetric] Let_def using nz r(1) by simp
  show ?thesis
  proof (cases r)
    case (Some pos)
    then show ?thesis using eq r(2) found_not_max[OF ok] by auto
  next
    case None
    let ?m = "min (h + N) (SizeOfBitMap bm)"
    have "unat (0 :: 32 word) \<le> bits bm" "?m \<le> SizeOfBitMap bm" by auto
    from loop_total[OF ok N this(2,1)] obtain r' where
      r': "loop bm N ?m 0 = Some r'" "case r' of Some pos \<Rightarrow> found bm (unat N) (unat pos)
        | None \<Rightarrow> (\<forall>p. found bm (unat N) (unat p) \<longrightarrow> \<not> fits (p + N) ?m)"
      by (auto split: option.splits)
    show ?thesis
    proof (cases r')
      case (Some pos)
      then show ?thesis using eq None r' r(2) found_not_max[OF ok] by (cases "h = 0") auto
    next
      case none': None
      have "\<forall>p. found bm (unat N) (unat p) \<longrightarrow> \<not> fits (p + N) (SizeOfBitMap bm)"
        using second_pass[OF ok h N(2)] r(2) r'(2) None none' by auto
      then show ?thesis using eq None none' r'(1) by (cases "h = 0") auto
    qed
  qed
qed

end

interpretation clr_api: find_api "\<lambda>bm i. \<not> test bm i" RtlpGetLengthOfRunClear RtlpGetLengthOfRunSet
  "(<)" find_clear_loop RtlFindClearBits
  by unfold_locales (simp_all add: RtlFindClearBits_def)

interpretation set_api: find_api test RtlpGetLengthOfRunSet RtlpGetLengthOfRunClear
  "(\<le>)" find_set_loop RtlFindSetBits
  by unfold_locales (simp_all add: RtlFindSetBits_def)

section \<open>Searching\<close>

text \<open>A bitmap of 40 bits with bits 4 to 7 and 32 to 39 set, for the instances below.\<close>

definition sample :: RTL_BITMAP where
  "sample = \<lparr>SizeOfBitMap = 40, Buffer = [0xF0, 0xFF]\<rparr>"

lemma sample_ok: "bm_ok sample" "SizeOfBitMap sample = 40"
  by (simp_all add: sample_def bm_ok_def)

definition run_within :: "(nat \<Rightarrow> bool) \<Rightarrow> nat \<Rightarrow> nat \<Rightarrow> nat \<Rightarrow> bool" where
  "run_within Q e n p \<longleftrightarrow> p + n \<le> e \<and> (\<forall>i. p \<le> i \<longrightarrow> i < p + n \<longrightarrow> Q i)"

lemma found_run: "set_find.found bm n p \<longleftrightarrow> run_within (test bm) (bits bm) n p"
  "clr_find.found bm n p \<longleftrightarrow> run_within (\<lambda>i. \<not> test bm i) (bits bm) n p"
  by (simp_all add: set_find.found_def clr_find.found_def run_within_def)

lemma run_within_idx:
  assumes "bm_ok bm" "run_within Q (bits bm) (unat (N :: 32 word)) p"
  shows "unat (word_of_nat p :: 32 word) = p" "unat (word_of_nat p + N) = p + unat N"
proof -
  show "unat (word_of_nat p :: 32 word) = p"
    using assms by (simp add: bm_ok_def unat_of_nat run_within_def)
  then show "unat (word_of_nat p + N) = p + unat N"
    using assms by (simp add: bm_ok_def run_within_def unat_add_fits)
qed

text \<open>C9: \<open>RtlFindSetBits\<close> always returns; the position it returns starts a run of \<open>NumberToFind\<close>
  set bits inside the bitmap, and it returns \<open>MAXINDEX\<close> only when the bitmap has no such run,
  whatever the hint.\<close>

theorem RtlFindSetBits_correct:
  assumes "bm_ok bm" "0 < N" "N \<le> SizeOfBitMap bm"
  shows "\<exists>pos. RtlFindSetBits (Some bm) N Hint = Some pos \<and>
    (if pos = MAXINDEX then \<forall>p. \<not> run_within (test bm) (bits bm) (unat N) p
     else run_within (test bm) (bits bm) (unat N) (unat pos))"
proof -
  have "word_of_nat p + N \<le> SizeOfBitMap bm" if "run_within (test bm) (bits bm) (unat N) p" for p
    using run_within_idx[OF assms(1) that] that by (simp add: word_le_unat run_within_def)
  then show ?thesis
    using set_api.find_total[OF assms, of Hint] run_within_idx(1)[OF assms(1)]
    unfolding found_run by (metis (full_types))
qed

theorem RtlFindSetBits_correct_witness:
  "bm_ok sample \<and> (\<exists>pos. RtlFindSetBits (Some sample) 3 0 = Some pos \<and>
    (if pos = MAXINDEX then \<forall>p. \<not> run_within (test sample) (bits sample) (unat (3 :: 32 word)) p
     else run_within (test sample) (bits sample) (unat (3 :: 32 word)) (unat pos)))"
  by (intro conjI RtlFindSetBits_correct sample_ok) (simp_all add: sample_ok)

text \<open>C10: \<open>RtlFindClearBits\<close> always returns; the position it returns starts a run of
  \<open>NumberToFind\<close> clear bits inside the bitmap. It returns \<open>MAXINDEX\<close> only when every such run
  ends with the last bit of the bitmap.\<close>

theorem RtlFindClearBits_correct:
  assumes "bm_ok bm" "0 < N" "N \<le> SizeOfBitMap bm"
  shows "\<exists>pos. RtlFindClearBits (Some bm) N Hint = Some pos \<and>
    (if pos = MAXINDEX
     then \<forall>p. run_within (\<lambda>i. \<not> test bm i) (bits bm) (unat N) p \<longrightarrow> p + unat N = bits bm
     else run_within (\<lambda>i. \<not> test bm i) (bits bm) (unat N) (unat pos))"
proof -
  let ?R = "run_within (\<lambda>i. \<not> test bm i) (bits bm) (unat N)"
  have "word_of_nat p + N < SizeOfBitMap bm" if "?R p" "p + unat N \<noteq> bits bm" for p
    using run_within_idx[OF assms(1) that(1)] that by (simp add: word_less_nat_alt run_within_def)
  then show ?thesis
    using clr_api.find_total[OF assms, of Hint] run_within_idx(1)[OF assms(1)]
    unfolding found_run by (metis (full_types))
qed

theorem RtlFindClearBits_correct_witness:
  "bm_ok sample \<and> (\<exists>pos. RtlFindClearBits (Some sample) 9 0 = Some pos \<and>
    (if pos = MAXINDEX
     then \<forall>p. run_within (\<lambda>i. \<not> test sample i) (bits sample) (unat (9 :: 32 word)) p \<longrightarrow>
       p + unat (9 :: 32 word) = bits sample
     else run_within (\<lambda>i. \<not> test sample i) (bits sample) (unat (9 :: 32 word)) (unat pos)))"
  by (intro conjI RtlFindClearBits_correct sample_ok) (simp_all add: sample_ok)

text \<open>the strict comparison in the loop of \<open>RtlFindClearBits\<close>: asked for as many bits as the
  bitmap has, it answers \<open>MAXINDEX\<close>, even when all of them are clear.\<close>

lemma RtlFindClearBits_whole_missed:
  assumes "0 < SizeOfBitMap bm"
  shows "RtlFindClearBits (Some bm) (SizeOfBitMap bm) 0 = Some MAXINDEX"
proof -
  have "find_clear_loop bm (SizeOfBitMap bm) (SizeOfBitMap bm) 0 = Some None"
    by (subst find_clear_loop.simps) simp
  then show ?thesis using assms by (auto simp: RtlFindClearBits_def Let_def)
qed

lemma RtlFindClearBits_whole_missed_example:
  "RtlFindClearBits (Some \<lparr>SizeOfBitMap = 8, Buffer = [0]\<rparr>) 8 0 = Some MAXINDEX \<and>
   run_within (\<lambda>i. \<not> test \<lparr>SizeOfBitMap = 8, Buffer = [0]\<rparr> i) 8 8 0"
  using RtlFindClearBits_whole_missed[of "\<lparr>SizeOfBitMap = 8, Buffer = [0]\<rparr>"]
  by (simp add: run_within_def test_def)

section \<open>Updating and counting\<close>

text \<open>\<open>updates bm A v bm'\<close>: \<open>bm'\<close> is a well-formed bitmap of the same size whose bits are those of
  \<open>bm\<close>, except that the ones in \<open>A\<close> have the value \<open>v\<close>.\<close>

definition updates :: "RTL_BITMAP \<Rightarrow> (nat \<Rightarrow> bool) \<Rightarrow> bool \<Rightarrow> RTL_BITMAP \<Rightarrow> bool" where
  "updates bm A v bm' \<longleftrightarrow> bm_ok bm' \<and> SizeOfBitMap bm' = SizeOfBitMap bm \<and>
     length (Buffer bm') = length (Buffer bm) \<and>
     (\<forall>i < 32 * length (Buffer bm). test bm' i = (if A i then v else test bm i))"

lemma range_bits_updates:
  assumes "bm_ok bm" "unat s + unat n \<le> bits bm"
  shows "\<exists>bm'. range_bits v bm s n = Some bm' \<and> updates bm (\<lambda>i. unat s \<le> i \<and> i < unat s + unat n) v bm'"
proof -
  have "unat s + unat n \<le> 32 * length (Buffer bm)" using assms by (simp add: bm_ok_def)
  from range_bits_correct[OF this, of v] obtain b where
    "range_bits v bm s n = Some (bm\<lparr>Buffer := b\<rparr>)" "length b = length (Buffer bm)"
    "\<forall>i < 32 * length b. bbit b i = (if unat s \<le> i \<and> i < unat s + unat n then v else bbit (Buffer bm) i)"
    by blast
  then show ?thesis using assms(1) by (intro exI[of _ "bm\<lparr>Buffer := b\<rparr>"]) (simp add: updates_def test_def bm_ok_def)
qed

text \<open>C14: \<open>RtlSetBits\<close> sets the bits of the range and no other, also outside the bitmap's size
  inside its words, for every alignment of the range's ends.\<close>

theorem RtlSetBits_range_correct:
  assumes "bm_ok bm" "unat s + unat n \<le> bits bm"
  shows "\<exists>bm'. RtlSetBits bm s n = Some bm' \<and>
    updates bm (\<lambda>i. unat s \<le> i \<and> i < unat s + unat n) True bm'"
  unfolding RtlSetBits_range using assms by (rule range_bits_updates)

theorem RtlSetBits_range_correct_witness:
  "bm_ok sample \<and> unat (30 :: 32 word) + unat (5 :: 32 word) \<le> bits sample \<and>
   (\<exists>bm'. RtlSetBits sample 30 5 = Some bm' \<and>
    updates sample (\<lambda>i. unat (30 :: 32 word) \<le> i \<and> i < unat (30 :: 32 word) + unat (5 :: 32 word)) True bm')"
  by (intro conjI RtlSetBits_range_correct sample_ok) (simp_all add: sample_ok)

text \<open>\<open>RtlClearBits\<close> clears the bits of the range and no other.\<close>

lemma RtlClearBits_range_correct:
  assumes "bm_ok bm" "unat s + unat n \<le> bits bm"
  shows "\<exists>bm'. RtlClearBits bm s n = Some bm' \<and>
    updates bm (\<lambda>i. unat s \<le> i \<and> i < unat s + unat n) False bm'"
  unfolding RtlClearBits_range using assms by (rule range_bits_updates)

lemma RtlClearBits_range_correct_example:
  "bm_ok sample \<and> unat (6 :: 32 word) + unat (33 :: 32 word) \<le> bits sample \<and>
   (\<exists>bm'. RtlClearBits sample 6 33 = Some bm' \<and>
    updates sample (\<lambda>i. unat (6 :: 32 word) \<le> i \<and> i < unat (6 :: 32 word) + unat (33 :: 32 word)) False bm')"
  by (intro conjI RtlClearBits_range_correct sample_ok) (simp_all add: sample_ok)

text \<open>C11: a successful \<open>RtlFindClearBitsAndSet\<close> allocates: the bits it returns were clear, they are
  set afterwards and no other bit changes; when it fails the bitmap is as before.\<close>

theorem RtlFindClearBitsAndSet_allocates:
  assumes "bm_ok bm" "0 < N" "N \<le> SizeOfBitMap bm"
  shows "\<exists>pos bm'. RtlFindClearBitsAndSet (Some bm) N Hint = Some (pos, Some bm') \<and>
    (if pos = MAXINDEX then bm' = bm
     else run_within (\<lambda>i. \<not> test bm i) (bits bm) (unat N) (unat pos) \<and>
       updates bm (\<lambda>i. unat pos \<le> i \<and> i < unat pos + unat N) True bm')"
proof -
  from clr_api.find_total[OF assms, of Hint] obtain pos where
    pos: "RtlFindClearBits (Some bm) N Hint = Some pos"
      "pos \<noteq> MAXINDEX \<longrightarrow> run_within (\<lambda>i. \<not> test bm i) (bits bm) (unat N) (unat pos)"
    unfolding found_run by (auto split: if_splits)
  show ?thesis
  proof (cases "pos = MAXINDEX")
    case False
    then have "unat pos + unat N \<le> bits bm" using pos(2) by (simp add: run_within_def)
    from range_bits_updates[OF assms(1) this, of True] show ?thesis
      using pos False by (auto simp: RtlFindClearBitsAndSet_def RtlSetBits_range)
  qed (use pos in \<open>simp add: RtlFindClearBitsAndSet_def\<close>)
qed

theorem RtlFindClearBitsAndSet_allocates_witness:
  "bm_ok sample \<and> (\<exists>pos bm'. RtlFindClearBitsAndSet (Some sample) 9 2 = Some (pos, Some bm') \<and>
    (if pos = MAXINDEX then bm' = sample
     else run_within (\<lambda>i. \<not> test sample i) (bits sample) (unat (9 :: 32 word)) (unat pos) \<and>
       updates sample (\<lambda>i. unat pos \<le> i \<and> i < unat pos + unat (9 :: 32 word)) True bm'))"
  by (intro conjI RtlFindClearBitsAndSet_allocates sample_ok) (simp_all add: sample_ok)

text \<open>C15: \<open>RtlNumberOfSetBits\<close> and \<open>RtlNumberOfClearBits\<close> are the numbers of set and of clear bits
  below the bitmap's size; the byte table and the masking of a last partial byte are exact.\<close>

theorem RtlNumberOfSetBits_card:
  assumes "bm_ok bm"
  shows "RtlNumberOfSetBits bm = Some (word_of_nat (card {i. i < bits bm \<and> test bm i})) \<and>
    RtlNumberOfClearBits bm = Some (word_of_nat (card {i. i < bits bm \<and> \<not> test bm i}))"
proof -
  let ?A = "{i. i < bits bm \<and> test bm i}" and ?B = "{i. i < bits bm \<and> \<not> test bm i}"
  have fin: "finite ?A" "finite ?B" by auto
  have "?A \<union> ?B = {..<bits bm}" "?A \<inter> ?B = {}" by auto
  then have "bits bm = card ?A + card ?B" using card_Un_disjoint[OF fin] by simp
  from arg_cong[OF this, of "word_of_nat :: nat \<Rightarrow> 32 word"]
  have "word_of_nat (bits bm) = (word_of_nat (card ?A) + word_of_nat (card ?B) :: 32 word)"
    unfolding of_nat_add .
  then have "SizeOfBitMap bm - word_of_nat (card ?A) = word_of_nat (card ?B)"
    by (simp add: diff_eq_eq add.commute)
  then show ?thesis
    using NumberOfSetBits_pop[OF assms] by (simp add: RtlNumberOfClearBits_def pop_card)
qed

theorem RtlNumberOfSetBits_card_witness:
  "bm_ok sample \<and>
   RtlNumberOfSetBits sample = Some (word_of_nat (card {i. i < bits sample \<and> test sample i})) \<and>
   RtlNumberOfClearBits sample = Some (word_of_nat (card {i. i < bits sample \<and> \<not> test sample i}))"
  using RtlNumberOfSetBits_card[OF sample_ok(1)] sample_ok(1) by blast

section \<open>Run queries\<close>

lemma run_len_within:
  assumes "s + n \<le> e"
  shows "n \<le> run_len Q s e \<longleftrightarrow> run_within Q e n s"
proof
  assume "n \<le> run_len Q s e"
  then show "run_within Q e n s" using assms run_len_all[of s _ Q e] by (auto simp: run_within_def)
next
  assume "run_within Q e n s"
  then show "n \<le> run_len Q s e"
    using assms by (intro run_len_ge) (auto simp: run_within_def)
qed

lemma word_range_guard:
  fixes s n e :: "32 word"
  shows "(s + n > e \<or> s + n \<le> s) \<longleftrightarrow> \<not> (0 < unat n \<and> unat s + unat n \<le> unat e)"
proof (cases "unat s + unat n < 2 ^ 32")
  case True
  then have "unat (s + n) = unat s + unat n" by (simp add: unat_add_fits)
  then show ?thesis by (auto simp: word_less_nat_alt word_le_unat)
next
  case False
  then have "unat (s + n) = unat s + unat n - 2 ^ 32"
    using unat_lt32[of s] unat_lt32[of n] by (simp add: unat_word_ariths mod_if)
  then show ?thesis using False unat_lt32[of s] unat_lt32[of n] unat_lt32[of e]
    by (auto simp: word_less_nat_alt word_le_unat)
qed

text \<open>\<open>RtlAreBitsClear\<close> and \<open>RtlAreBitsSet\<close> decide whether a range is non-empty, inside the
  bitmap and all clear (all set); a range whose end wraps around is answered with \<open>FALSE\<close>.\<close>

lemma RtlAreBits_decide:
  assumes "bm_ok bm"
  shows "RtlAreBitsClear bm s n =
      Some (0 < unat n \<and> run_within (\<lambda>i. \<not> test bm i) (bits bm) (unat n) (unat s)) \<and>
    RtlAreBitsSet bm s n = Some (0 < unat n \<and> run_within (test bm) (bits bm) (unat n) (unat s))"
proof (cases "0 < unat n \<and> unat s + unat n \<le> bits bm")
  case False
  then show ?thesis
    unfolding RtlAreBitsClear_def RtlAreBitsSet_def word_range_guard by (auto simp: run_within_def)
next
  case True
  then have n: "0 < n" "unat s + unat n \<le> bits bm" by (auto simp: unat_gt_0 word_gt_0)
  from clr.want_enough[OF assms n(1), of s] obtain r where
    r: "RtlpGetLengthOfRunClear bm s n = Some r"
      "n \<le> r \<longleftrightarrow> unat n \<le> run_len (\<lambda>i. \<not> test bm i) (unat s) (bits bm)"
    by (metis word_le_unat)
  from sets.want_enough[OF assms n(1), of s] obtain q where
    q: "RtlpGetLengthOfRunSet bm s n = Some q"
      "n \<le> q \<longleftrightarrow> unat n \<le> run_len (test bm) (unat s) (bits bm)"
    by (metis word_le_unat)
  show ?thesis
    unfolding RtlAreBitsClear_def RtlAreBitsSet_def word_range_guard using True r q
    by (simp add: run_len_within[OF n(2)])
qed

lemma RtlAreBits_decide_example:
  "bm_ok sample \<and> RtlAreBitsClear sample 8 24 =
      Some (0 < unat (24 :: 32 word) \<and> run_within (\<lambda>i. \<not> test sample i) (bits sample) (unat (24 :: 32 word)) (unat (8 :: 32 word))) \<and>
    RtlAreBitsSet sample 8 24 =
      Some (0 < unat (24 :: 32 word) \<and> run_within (test sample) (bits sample) (unat (24 :: 32 word)) (unat (8 :: 32 word)))"
  using RtlAreBits_decide[OF sample_ok(1), of 8 24] sample_ok(1) by blast

text \<open>\<open>RtlFindNextForwardRunClear\<close> returns the first run of clear bits at or after \<open>FromIndex\<close>:
  only set bits lie before it, its length is the maximal one from its start, and the length 0 is
  returned only when no clear bit is left.\<close>

lemma RtlFindNextForwardRunClear_first:
  assumes "bm_ok bm" "unat frm \<le> bits bm"
  shows "\<exists>n st. RtlFindNextForwardRunClear bm frm = Some (n, st) \<and> unat frm \<le> unat st \<and>
     unat n = run_len (\<lambda>i. \<not> test bm i) (unat st) (bits bm) \<and> unat st + unat n \<le> bits bm \<and>
     (\<forall>i. unat frm \<le> i \<longrightarrow> i < unat st \<longrightarrow> test bm i) \<and>
     (n = 0 \<longrightarrow> (\<forall>i. unat frm \<le> i \<longrightarrow> i < bits bm \<longrightarrow> test bm i))"
  using clr_search.next_run_total[OF assms(1), of frm] assms(2) by auto

lemma RtlFindNextForwardRunClear_first_example:
  "bm_ok sample \<and> (\<exists>n st. RtlFindNextForwardRunClear sample 5 = Some (n, st) \<and> unat (5 :: 32 word) \<le> unat st \<and>
     unat n = run_len (\<lambda>i. \<not> test sample i) (unat st) (bits sample) \<and> unat st + unat n \<le> bits sample \<and>
     (\<forall>i. unat (5 :: 32 word) \<le> i \<longrightarrow> i < unat st \<longrightarrow> test sample i) \<and>
     (n = 0 \<longrightarrow> (\<forall>i. unat (5 :: 32 word) \<le> i \<longrightarrow> i < bits sample \<longrightarrow> test sample i)))"
  by (rule conjI[OF sample_ok(1) RtlFindNextForwardRunClear_first]) (simp_all add: sample_ok)

text \<open>C16: \<open>RtlFindLongestRunClear\<close> returns the length of the longest run of clear bits of the whole
  bitmap and, unless there is none, a start of such a run, although its loop restarts inside the
  run it has measured.\<close>

theorem RtlFindLongestRunClear_longest:
  assumes "bm_ok bm"
  shows "\<exists>n st. RtlFindLongestRunClear bm = Some (n, st) \<and>
    (\<forall>s. run_len (\<lambda>i. \<not> test bm i) s (bits bm) \<le> unat n) \<and>
    (0 < n \<longrightarrow> (\<exists>s. st = Some s \<and> run_len (\<lambda>i. \<not> test bm i) (unat s) (bits bm) = unat n))"
  unfolding RtlFindLongestRunClear_def using clr_search.longest_total[OF assms, of 0 0 None] by simp

theorem RtlFindLongestRunClear_longest_witness:
  "bm_ok sample \<and> (\<exists>n st. RtlFindLongestRunClear sample = Some (n, st) \<and>
    (\<forall>s. run_len (\<lambda>i. \<not> test sample i) s (bits sample) \<le> unat n) \<and>
    (0 < n \<longrightarrow> (\<exists>s. st = Some s \<and> run_len (\<lambda>i. \<not> test sample i) (unat s) (bits sample) = unat n)))"
  using RtlFindLongestRunClear_longest[OF sample_ok(1)] sample_ok(1) by blast

end
