(* ===== verification/RtlTime.thy ===== *)
theory RtlTime
  imports Prelude "HOL-Library.Signed_Division"
begin

text \<open>Time conversion of the runtime library, \<open>sdk/lib/rtl/time.c\<close>.

  Signed quantities (\<open>LARGE_INTEGER.QuadPart\<close>, \<open>CSHORT\<close> fields, \<open>int\<close>) are integers in the range of
  their C type; \<open>cshort\<close>, \<open>ulong\<close>, \<open>ulonglong\<close> and \<open>longlong\<close> are the C conversions to these types
  and are written wherever the code converts or the result of an operation may leave the type.
  Reading a table out of range is \<open>None\<close>.\<close>

section \<open>Types and constants\<close>

definition cshort :: "int \<Rightarrow> int" where
  "cshort x = (x + 2 ^ 15) mod 2 ^ 16 - 2 ^ 15"

definition ulong :: "int \<Rightarrow> int" where
  "ulong x = x mod 2 ^ 32"

definition ulonglong :: "int \<Rightarrow> int" where
  "ulonglong x = x mod 2 ^ 64"

definition longlong :: "int \<Rightarrow> int" where
  "longlong x = (x + 2 ^ 63) mod 2 ^ 64 - 2 ^ 63"

record TIME_FIELDS =
  Year :: int
  Month :: int
  Day :: int
  Hour :: int
  Minute :: int
  Second :: int
  Milliseconds :: int
  Weekday :: int

abbreviation (input) "TICKSPERSEC \<equiv> (10000000 :: int)"
abbreviation (input) "TICKSPERMSEC \<equiv> (10000 :: int)"
abbreviation (input) "SECSPERDAY \<equiv> (86400 :: int)"
abbreviation (input) "SECSPERHOUR \<equiv> (3600 :: int)"
abbreviation (input) "SECSPERMIN \<equiv> (60 :: int)"
abbreviation (input) "EPOCHWEEKDAY \<equiv> (1 :: int)"
abbreviation (input) "DAYSPERWEEK \<equiv> (7 :: int)"
abbreviation (input) "EPOCHYEAR \<equiv> (1601 :: int)"
abbreviation (input) "DAYSPERNORMALYEAR \<equiv> (365 :: int)"
abbreviation (input) "DAYSPERLEAPYEAR \<equiv> (366 :: int)"
abbreviation (input) "TICKSTO1970 \<equiv> (0x019db1ded53e8000 :: int)"
abbreviation (input) "TICKSTO1980 \<equiv> (0x01a8e79fe1d58000 :: int)"

section \<open>Calendar\<close>

definition YearLengths :: "bool \<Rightarrow> int" where
  "YearLengths leap = (if leap then DAYSPERLEAPYEAR else DAYSPERNORMALYEAR)"

definition MonthLengths :: "bool \<Rightarrow> int list" where
  "MonthLengths leap =
     (if leap then [31, 29, 31, 30, 31, 30, 31, 31, 30, 31, 30, 31]
      else [31, 28, 31, 30, 31, 30, 31, 31, 30, 31, 30, 31])"

definition IsLeapYear :: "int \<Rightarrow> bool" where
  "IsLeapYear Y \<longleftrightarrow> Y smod 4 = 0 \<and> (Y smod 100 \<noteq> 0 \<or> Y smod 400 = 0)"

definition DaysSinceEpoch :: "int \<Rightarrow> int" where
  "DaysSinceEpoch Y =
     (let Y = Y - 1;
          Days = Y * DAYSPERNORMALYEAR + Y sdiv 4 - Y sdiv 100 + Y sdiv 400
      in Days - ((EPOCHYEAR - 1) * DAYSPERNORMALYEAR + (EPOCHYEAR - 1) sdiv 4
           - (EPOCHYEAR - 1) sdiv 100 + (EPOCHYEAR - 1) sdiv 400))"

section \<open>Fields to time\<close>

definition MonthLength_at :: "int \<Rightarrow> int \<Rightarrow> int option" where
  "MonthLength_at Y m = (if m < 1 then None else rd (MonthLengths (IsLeapYear Y)) (nat (m - 1)))"

text \<open>The loop \<open>for (CurMonth = 1; CurMonth < Month; CurMonth++)\<close> adding up the month lengths.\<close>

function month_sum :: "int \<Rightarrow> int \<Rightarrow> int \<Rightarrow> int \<Rightarrow> int option" where
  "month_sum Y M CurMonth acc =
     (if CurMonth < M then do {
        l \<leftarrow> MonthLength_at Y CurMonth;
        month_sum Y M (CurMonth + 1) (acc + l) }
      else Some acc)"
  by pat_completeness auto
termination
  by (relation "measure (\<lambda>(Y, M, CurMonth, acc). nat (M - CurMonth))") auto

declare month_sum.simps [simp del]

text \<open>The validity test, in the order of its disjuncts: the month length is only read for a month
  between 1 and 12.\<close>

definition fields_rejected :: "TIME_FIELDS \<Rightarrow> bool option" where
  "fields_rejected tf =
     (if Milliseconds tf < 0 \<or> Milliseconds tf > 999 \<or>
         Second tf < 0 \<or> Second tf > 59 \<or>
         Minute tf < 0 \<or> Minute tf > 59 \<or>
         Hour tf < 0 \<or> Hour tf > 23 \<or>
         Month tf < 1 \<or> Month tf > 12 \<or>
         Day tf < 1 then Some True
      else do {
        l \<leftarrow> MonthLength_at (Year tf) (Month tf);
        Some (Day tf > l \<or> Year tf < 1601) })"

text \<open>The result is \<open>Some None\<close> when the routine returns \<open>FALSE\<close> and \<open>Some (Some t)\<close> when it returns
  \<open>TRUE\<close> with \<open>*Time = t\<close>.\<close>

definition RtlTimeFieldsToTime :: "TIME_FIELDS \<Rightarrow> int option option" where
  "RtlTimeFieldsToTime tf = do {
     bad \<leftarrow> fields_rejected tf;
     (if bad then Some None
      else do {
        q \<leftarrow> month_sum (Year tf) (Month tf) 1 (DaysSinceEpoch (Year tf));
        let q = q + (Day tf - 1);
        let q = longlong (q * SECSPERDAY);
        let q = longlong (q + (Hour tf * SECSPERHOUR + Minute tf * SECSPERMIN + Second tf));
        let q = longlong (q * TICKSPERSEC);
        Some (Some (longlong (q + Milliseconds tf * TICKSPERMSEC))) }) }"

section \<open>Time to fields\<close>

text \<open>Fields the routine does not assign keep the value of the caller's structure.\<close>

definition RtlTimeToElapsedTimeFields :: "int \<Rightarrow> TIME_FIELDS \<Rightarrow> TIME_FIELDS" where
  "RtlTimeToElapsedTimeFields t tf =
     (let ms = cshort ((t smod TICKSPERSEC) sdiv TICKSPERMSEC);
          ElapsedSeconds = ulonglong t div TICKSPERSEC;
          SecondsInDay = ulong (ElapsedSeconds mod SECSPERDAY);
          SecondsInMinute = SecondsInDay mod SECSPERHOUR
      in tf\<lparr>Milliseconds := ms,
            Hour := cshort (SecondsInDay div SECSPERHOUR),
            Minute := cshort (SecondsInMinute div SECSPERMIN),
            Second := cshort (SecondsInMinute mod SECSPERMIN),
            Day := cshort (ElapsedSeconds div SECSPERDAY),
            Month := 0, Year := 0\<rparr>)"

function year_loop :: "int \<Rightarrow> int \<Rightarrow> int \<times> int" where
  "year_loop Days CurYear =
     (if Days < YearLengths (IsLeapYear CurYear) then (Days, CurYear)
      else year_loop (Days - YearLengths (IsLeapYear CurYear)) (CurYear + 1))"
  by pat_completeness auto
termination
  by (relation "measure (\<lambda>(Days, CurYear). nat Days)") (auto simp: YearLengths_def split: if_splits)

fun month_loop :: "int \<Rightarrow> int \<Rightarrow> int list \<Rightarrow> (int \<times> int) option" where
  "month_loop Days CurMonth [] = None"
| "month_loop Days CurMonth (m # Months) =
     (if Days \<ge> m then month_loop (Days - m) (CurMonth + 1) Months else Some (Days, CurMonth))"

declare year_loop.simps [simp del]

definition RtlTimeToTimeFields :: "int \<Rightarrow> TIME_FIELDS option" where
  "RtlTimeToTimeFields t =
     (let IntTime = ulonglong t;
          ms = cshort ((IntTime mod TICKSPERSEC) div TICKSPERMSEC);
          IntTime = IntTime div TICKSPERSEC;
          Days = ulong (IntTime div SECSPERDAY);
          SecondsInDay = ulong (IntTime mod SECSPERDAY);
          hour = cshort (SecondsInDay div SECSPERHOUR);
          SecondsInDay = SecondsInDay mod SECSPERHOUR;
          minute = cshort (SecondsInDay div SECSPERMIN);
          sec = cshort (SecondsInDay mod SECSPERMIN);
          wday = cshort (ulong (EPOCHWEEKDAY + Days) mod DAYSPERWEEK);
          CurYear = EPOCHYEAR;
          CurYear = ulong (CurYear + Days div DAYSPERLEAPYEAR);
          Days = ulong (Days - DaysSinceEpoch CurYear);
          (Days, CurYear) = year_loop Days CurYear
      in do {
        (Days, CurMonth) \<leftarrow> month_loop Days 0 (MonthLengths (IsLeapYear CurYear));
        Some \<lparr>Year = cshort CurYear, Month = cshort (CurMonth + 1), Day = cshort (Days + 1),
              Hour = hour, Minute = minute, Second = sec, Milliseconds = ms, Weekday = wday\<rparr> })"

section \<open>Seconds since 1970 and 1980\<close>

definition HighPart :: "int \<Rightarrow> int" where
  "HighPart x = ulonglong x div 2 ^ 32"

definition LowPart :: "int \<Rightarrow> int" where
  "LowPart x = ulong x"

definition RtlTimeToSecondsSince1970 :: "int \<Rightarrow> int option" where
  "RtlTimeToSecondsSince1970 t =
     (let IntTime = longlong (t - TICKSTO1970);
          IntTime = IntTime sdiv TICKSPERSEC
      in if HighPart IntTime \<noteq> 0 then None else Some (LowPart IntTime))"

definition RtlTimeToSecondsSince1980 :: "int \<Rightarrow> int option" where
  "RtlTimeToSecondsSince1980 t =
     (let IntTime = longlong (t - TICKSTO1980);
          IntTime = IntTime sdiv TICKSPERSEC
      in if HighPart IntTime \<noteq> 0 then None else Some (LowPart IntTime))"

definition RtlSecondsSince1970ToTime :: "int \<Rightarrow> int" where
  "RtlSecondsSince1970ToTime s = longlong (longlong (s * TICKSPERSEC) + TICKSTO1970)"

definition RtlSecondsSince1980ToTime :: "int \<Rightarrow> int" where
  "RtlSecondsSince1980ToTime s = longlong (longlong (s * TICKSPERSEC) + TICKSTO1980)"

section \<open>Local time\<close>

text \<open>The answer of \<open>ZwQuerySystemInformation\<close>, a system call, is an argument: its status and the
  time zone bias it returned. A negative status is an error and is passed on.\<close>

definition RtlLocalTimeToSystemTime :: "int \<times> int \<Rightarrow> int \<Rightarrow> int + int" where
  "RtlLocalTimeToSystemTime query LocalTime =
     (let (Status, TimeZoneBias) = query in
      if \<not> Status \<ge> 0 then Inl Status else Inr (longlong (LocalTime + TimeZoneBias)))"

definition RtlSystemTimeToLocalTime :: "int \<times> int \<Rightarrow> int \<Rightarrow> int + int" where
  "RtlSystemTimeToLocalTime query SystemTime =
     (let (Status, TimeZoneBias) = query in
      if \<not> Status \<ge> 0 then Inl Status else Inr (longlong (SystemTime - TimeZoneBias)))"

section \<open>Cutover times\<close>

text \<open>The two adjustments in the loop of \<open>RtlCutoverTimeToSystemTime\<close>: to the first day of the month
  with the weekday of the rule, and by whole weeks.\<close>

definition adjust_weekday :: "TIME_FIELDS \<Rightarrow> TIME_FIELDS \<Rightarrow> TIME_FIELDS \<Rightarrow> TIME_FIELDS" where
  "adjust_weekday ctf Cutover Adjusted =
     (if Weekday Cutover \<noteq> Weekday ctf then
        let Days = (if Weekday Cutover < Weekday ctf
                    then cshort (Weekday ctf - Weekday Cutover)
                    else cshort (DAYSPERWEEK - (Weekday Cutover - Weekday ctf)))
        in Adjusted\<lparr>Day := cshort (Day Adjusted + Days)\<rparr>
      else Adjusted)"

definition adjust_weeks :: "TIME_FIELDS \<Rightarrow> TIME_FIELDS \<Rightarrow> TIME_FIELDS option" where
  "adjust_weeks ctf Adjusted =
     (if Day ctf > 1 then do {
        let Days = cshort (DAYSPERWEEK * (Day ctf - 1));
        len \<leftarrow> MonthLength_at (Year Adjusted) (Month Adjusted);
        let Days = (if Day Adjusted + Days > len then cshort (Days - DAYSPERWEEK) else Days);
        Some (Adjusted\<lparr>Day := cshort (Day Adjusted + Days)\<rparr>) }
      else Some Adjusted)"

text \<open>One round of the loop for the year \<open>Y\<close>: \<open>Some None\<close> when the routine returns \<open>FALSE\<close>, otherwise
  the cutover time. \<open>AdjustedTimeFields.Weekday\<close> is never set nor read by the code; it is 0 here.\<close>

definition cutover_round :: "TIME_FIELDS \<Rightarrow> int \<Rightarrow> int option option" where
  "cutover_round ctf Y = (let
     Adjusted = \<lparr>Year = Y, Month = Month ctf, Day = 1, Hour = Hour ctf, Minute = Minute ctf,
                 Second = Second ctf, Milliseconds = Milliseconds ctf, Weekday = 0\<rparr> in do {
     r \<leftarrow> RtlTimeFieldsToTime Adjusted;
     (case r of None \<Rightarrow> Some None
      | Some first \<Rightarrow> do {
        Cutover \<leftarrow> RtlTimeToTimeFields first;
        Adjusted \<leftarrow> adjust_weeks ctf (adjust_weekday ctf Cutover Adjusted);
        RtlTimeFieldsToTime Adjusted }) })"

definition RtlCutoverTimeToSystemTime :: "TIME_FIELDS \<Rightarrow> int \<Rightarrow> bool \<Rightarrow> int option option" where
  "RtlCutoverTimeToSystemTime ctf CurrentTime ThisYearsCutoverOnly =
     (if Year ctf \<noteq> 0 then do {
        r \<leftarrow> RtlTimeFieldsToTime ctf;
        (case r of None \<Rightarrow> Some None
         | Some SystemTime \<Rightarrow> Some (if SystemTime < CurrentTime then None else Some SystemTime)) }
      else if Day ctf = 0 \<or> Day ctf > 5 then Some None
      else do {
        current \<leftarrow> RtlTimeToTimeFields CurrentTime;
        r \<leftarrow> cutover_round ctf (Year current);
        (case r of None \<Rightarrow> Some None
         | Some t \<Rightarrow>
           if ThisYearsCutoverOnly \<or> t \<ge> CurrentTime then Some (Some t)
           else cutover_round ctf (cshort (Year current + 1))) })"

end
