(* ===== verification/RtlTime_Correct.thy ===== *)
theory RtlTime_Correct
  imports RtlTime
begin

text \<open>Correctness of the time conversions: the calendar, the two conversions between time and
  fields as inverses of each other, the second counters and the recurring cutover times.\<close>

section \<open>Conversions\<close>

lemma sdiv_pos: "0 \<le> a \<Longrightarrow> 0 < b \<Longrightarrow> (a :: int) sdiv b = a div b"
  by (simp add: signed_divide_int_def sgn_if zero_less_mult_iff)

lemma smod_pos: "0 \<le> a \<Longrightarrow> 0 < b \<Longrightarrow> (a :: int) smod b = a mod b"
  by (auto simp: signed_modulo_int_def sgn_if)

lemma cshort_id: "- 32768 \<le> x \<Longrightarrow> x < 32768 \<Longrightarrow> cshort x = x"
  by (simp add: cshort_def)

lemma ulong_id: "0 \<le> x \<Longrightarrow> x < 4294967296 \<Longrightarrow> ulong x = x"
  by (simp add: ulong_def)

lemma ulonglong_id: "0 \<le> x \<Longrightarrow> x < 18446744073709551616 \<Longrightarrow> ulonglong x = x"
  by (simp add: ulonglong_def)

lemma longlong_id: "- 9223372036854775808 \<le> x \<Longrightarrow> x < 9223372036854775808 \<Longrightarrow> longlong x = x"
  by (simp add: longlong_def)

section \<open>Calendar\<close>

lemma IsLeapYear_mod:
  "0 \<le> Y \<Longrightarrow> IsLeapYear Y \<longleftrightarrow> Y mod 4 = 0 \<and> (Y mod 100 \<noteq> 0 \<or> Y mod 400 = 0)"
  by (simp add: IsLeapYear_def smod_pos)

lemma div_step:
  fixes Y k :: int
  assumes "0 < k"
  shows "Y div k = (Y - 1) div k + (if Y mod k = 0 then 1 else 0)"
proof -
  define q r where "q = (Y - 1) div k" and "r = (Y - 1) mod k"
  have r: "0 \<le> r" "r < k" using assms by (auto simp: r_def)
  have "Y - 1 = k * q + r" by (simp add: q_def r_def)
  then have Y: "Y = k * q + (r + 1)" by simp
  show ?thesis
  proof (cases "r + 1 = k")
    case True
    then have "Y = k * (q + 1)" using Y by (simp add: algebra_simps)
    then have "Y div k = q + 1" "Y mod k = 0" using assms by simp_all
    then show ?thesis unfolding q_def[symmetric] by simp
  next
    case False
    then have "(k * q + (r + 1)) div k = q" "(k * q + (r + 1)) mod k = r + 1"
      using r assms by (simp_all add: div_pos_pos_trivial)
    then have "Y div k = q" "Y mod k = r + 1" using Y by simp_all
    then show ?thesis using r unfolding q_def[symmetric] by simp
  qed
qed

lemma DaysSinceEpoch_div:
  "1 \<le> Y \<Longrightarrow> DaysSinceEpoch Y =
     (Y - 1) * 365 + (Y - 1) div 4 - (Y - 1) div 100 + (Y - 1) div 400 - 584388"
  by (simp add: DaysSinceEpoch_def Let_def sdiv_pos)

lemma DaysSinceEpoch_start: "DaysSinceEpoch 1601 = 0"
  by (simp add: DaysSinceEpoch_div)

lemma DaysSinceEpoch_next:
  assumes "1 \<le> Y"
  shows "DaysSinceEpoch (Y + 1) = DaysSinceEpoch Y + YearLengths (IsLeapYear Y)"
proof -
  have h: "Y mod 400 = 0 \<longrightarrow> Y mod 100 = 0" "Y mod 100 = 0 \<longrightarrow> Y mod 4 = 0"
    using mod_mod_cancel[of 100 400 Y] mod_mod_cancel[of 4 100 Y] by auto
  have tt: "(if a \<and> (\<not> b \<or> c) then 366 else 365) =
      365 + (if a then 1 else 0) - (if b then 1 else 0) + (if c then 1 else 0 :: int)"
    if "c \<longrightarrow> b" "b \<longrightarrow> a" for a b c using that by (cases a; cases b; cases c) simp_all
  have leap: "YearLengths (IsLeapYear Y) = 365 + (if Y mod 4 = 0 then 1 else 0)
      - (if Y mod 100 = 0 then 1 else 0) + (if Y mod 400 = 0 then 1 else 0)"
    unfolding IsLeapYear_mod[OF order_trans[OF zero_le_one assms]] YearLengths_def by (rule tt[OF h])
  have sum: "Y * 365 + (a + x) - (b + y) + (c + z) - 584388 =
      (Y - 1) * 365 + a - b + c - 584388 + (365 + x - y + z)" for a b c x y z :: int
    by simp
  have "DaysSinceEpoch (Y + 1) = Y * 365 + Y div 4 - Y div 100 + Y div 400 - 584388"
    using DaysSinceEpoch_div[of "Y + 1"] assms by simp
  also have "\<dots> = DaysSinceEpoch Y + YearLengths (IsLeapYear Y)"
    unfolding leap DaysSinceEpoch_div[OF assms] div_step[OF zero_less_numeral, of Y] by (rule sum)
  finally show ?thesis .
qed

lemma YearLengths_bounds: "365 \<le> YearLengths b" "YearLengths b \<le> 366"
  by (auto simp: YearLengths_def)

lemma DaysSinceEpoch_growth:
  assumes "Y \<le> Z" "1 \<le> Y"
  shows "DaysSinceEpoch Y + 365 * (Z - Y) \<le> DaysSinceEpoch Z \<and>
    DaysSinceEpoch Z \<le> DaysSinceEpoch Y + 366 * (Z - Y)"
  using assms
proof (induction Z rule: int_ge_induct)
  case (step Z)
  then show ?case
    using DaysSinceEpoch_next[of Z] YearLengths_bounds[of "IsLeapYear Z"] by simp
qed simp

lemma year_unique:
  assumes "1 \<le> Y" "1 \<le> Z" "0 \<le> r" "r < YearLengths (IsLeapYear Y)" "0 \<le> q" "q < YearLengths (IsLeapYear Z)"
    "DaysSinceEpoch Y + r = DaysSinceEpoch Z + q"
  shows "Y = Z \<and> r = q"
proof -
  have "\<not> A < B" if "1 \<le> A" "a < YearLengths (IsLeapYear A)" "0 \<le> b"
      "DaysSinceEpoch A + a = DaysSinceEpoch B + b" for A B a b
  proof
    assume "A < B"
    then have "DaysSinceEpoch (A + 1) \<le> DaysSinceEpoch B"
      using DaysSinceEpoch_growth[of "A + 1" B] that(1) by simp
    then show False using that DaysSinceEpoch_next[OF that(1)] by simp
  qed
  from this[of Y r q Z] this[of Z q r Y] assms show ?thesis by simp
qed

lemma year_loop_correct:
  assumes "1 \<le> Y" "0 \<le> d"
  shows "\<exists>r Z. year_loop d Y = (r, Z) \<and> Y \<le> Z \<and> 0 \<le> r \<and> r < YearLengths (IsLeapYear Z) \<and>
    DaysSinceEpoch Z + r = DaysSinceEpoch Y + d"
  using assms
proof (induction d Y rule: year_loop.induct)
  case (1 d Y)
  show ?case
  proof (cases "d < YearLengths (IsLeapYear Y)")
    case True
    then show ?thesis using 1 by (subst year_loop.simps) simp
  next
    case False
    then show ?thesis
      using 1 DaysSinceEpoch_next[of Y] by (subst year_loop.simps) fastforce
  qed
qed

section \<open>Months\<close>

lemma month_loop_total:
  assumes "0 \<le> d" "d < sum_list ms"
  shows "\<exists>r k. month_loop d c ms = Some (r, c + int k) \<and> k < length ms \<and> 0 \<le> r \<and> r < ms ! k \<and>
    sum_list (take k ms) + r = d"
  using assms
proof (induction d c ms rule: month_loop.induct)
  case (2 d c m ms)
  show ?case
  proof (cases "d \<ge> m")
    case True
    then have "0 \<le> d - m" "d - m < sum_list ms" using "2.prems" by auto
    from "2.IH"[OF True this] obtain r k where
      "month_loop (d - m) (c + 1) ms = Some (r, c + 1 + int k)" "k < length ms" "0 \<le> r" "r < ms ! k"
      "sum_list (take k ms) + r = d - m" by blast
    then show ?thesis using True by (intro exI[of _ r] exI[of _ "Suc k"]) auto
  next
    case False
    then show ?thesis using 2 by (intro exI[of _ d] exI[of _ 0]) auto
  qed
qed simp

lemma month_unique:
  assumes "\<forall>m \<in> set ms. 0 \<le> m"
    "k < length ms" "0 \<le> r" "r < ms ! k" "j < length ms" "0 \<le> q" "q < ms ! j"
    "sum_list (take k ms) + r = sum_list (take j ms) + (q :: int)"
  shows "k = j \<and> r = q"
proof -
  have "\<not> k < j" if "k < length ms" "r < ms ! k" "0 \<le> q" "j < length ms"
     "sum_list (take k ms) + r = sum_list (take j ms) + q" for k j r q
  proof
    assume "k < j"
    then have "take j ms = take k ms @ ms ! k # take (j - Suc k) (drop (Suc k) ms)"
      using take_add[of "Suc k" "j - Suc k" ms] take_Suc_conv_app_nth[OF that(1)] by simp
    moreover have "0 \<le> sum_list (take (j - Suc k) (drop (Suc k) ms))"
      using assms(1) by (intro sum_list_nonneg) (meson in_set_dropD in_set_takeD)
    ultimately show False using that by simp
  qed
  from this[of k r q j] this[of j q r k] assms have "k = j" by simp
  then show ?thesis using assms(8) by simp
qed

lemma MonthLengths_length [simp]: "length (MonthLengths b) = 12"
  by (simp add: MonthLengths_def)

lemma MonthLengths_range: "m \<in> set (MonthLengths b) \<Longrightarrow> 28 \<le> m \<and> m \<le> 31"
  by (auto simp: MonthLengths_def split: if_splits)

lemma MonthLengths_sum: "sum_list (MonthLengths b) = YearLengths b"
  by (simp add: MonthLengths_def YearLengths_def)

lemma MonthLength_at_in:
  "1 \<le> m \<Longrightarrow> m \<le> 12 \<Longrightarrow> MonthLength_at Y m = Some (MonthLengths (IsLeapYear Y) ! nat (m - 1))"
  by (simp add: MonthLength_at_def rd_def)

lemma month_sum_take:
  assumes "1 \<le> c" "c \<le> M" "M \<le> 12"
  shows "month_sum Y M c (acc + sum_list (take (nat (c - 1)) (MonthLengths (IsLeapYear Y)))) =
    Some (acc + sum_list (take (nat (M - 1)) (MonthLengths (IsLeapYear Y))))"
  using assms
proof (induction "nat (M - c)" arbitrary: c)
  case 0
  then show ?case by (subst month_sum.simps) simp
next
  case (Suc n)
  let ?L = "MonthLengths (IsLeapYear Y)"
  have c: "1 \<le> c + 1" "c + 1 \<le> M" "c \<le> 12" "n = nat (M - (c + 1))" using Suc by auto
  have "nat (c - 1) < length ?L" using c Suc.prems by simp
  moreover have "nat c = Suc (nat (c - 1))" using Suc.prems by simp
  ultimately have "sum_list (take (nat c) ?L) = sum_list (take (nat (c - 1)) ?L) + ?L ! nat (c - 1)"
    by (simp add: take_Suc_conv_app_nth)
  then show ?case
    using c Suc.hyps(1)[OF c(4,1,2)] Suc.prems
    by (subst month_sum.simps) (simp add: MonthLength_at_in add.assoc)
qed

section \<open>Fields and ticks\<close>

definition valid_fields :: "TIME_FIELDS \<Rightarrow> bool" where
  "valid_fields tf \<longleftrightarrow>
     0 \<le> Milliseconds tf \<and> Milliseconds tf \<le> 999 \<and> 0 \<le> Second tf \<and> Second tf \<le> 59 \<and>
     0 \<le> Minute tf \<and> Minute tf \<le> 59 \<and> 0 \<le> Hour tf \<and> Hour tf \<le> 23 \<and>
     1 \<le> Month tf \<and> Month tf \<le> 12 \<and> 1 \<le> Day tf \<and>
     Day tf \<le> MonthLengths (IsLeapYear (Year tf)) ! nat (Month tf - 1) \<and> 1601 \<le> Year tf"

definition day_number :: "TIME_FIELDS \<Rightarrow> int" where
  "day_number tf = DaysSinceEpoch (Year tf) +
     (sum_list (take (nat (Month tf - 1)) (MonthLengths (IsLeapYear (Year tf)))) + (Day tf - 1))"

definition second_of_day :: "TIME_FIELDS \<Rightarrow> int" where
  "second_of_day tf = Hour tf * 3600 + Minute tf * 60 + Second tf"

definition ticks :: "TIME_FIELDS \<Rightarrow> int" where
  "ticks tf = (day_number tf * 86400 + second_of_day tf) * 10000000 + Milliseconds tf * 10000"

lemma fields_rejected_iff: "fields_rejected tf = Some (\<not> valid_fields tf)"
proof (cases "1 \<le> Month tf \<and> Month tf \<le> 12")
  case True
  then show ?thesis
    unfolding fields_rejected_def valid_fields_def by (simp add: MonthLength_at_in) linarith
next
  case False
  then show ?thesis unfolding fields_rejected_def valid_fields_def by auto
qed

lemma day_in_year:
  assumes "valid_fields tf"
  shows "0 \<le> day_number tf - DaysSinceEpoch (Year tf)"
    "day_number tf - DaysSinceEpoch (Year tf) < YearLengths (IsLeapYear (Year tf))"
proof -
  let ?L = "MonthLengths (IsLeapYear (Year tf))" and ?k = "nat (Month tf - 1)"
  have k: "?k < length ?L" using assms by (auto simp: valid_fields_def)
  have pos: "0 \<le> sum_list (take n ?L)" "0 \<le> sum_list (drop n ?L)" for n
    using MonthLengths_range by (fastforce intro!: sum_list_nonneg dest: in_set_takeD in_set_dropD)+
  then show "0 \<le> day_number tf - DaysSinceEpoch (Year tf)"
    using assms by (simp add: day_number_def valid_fields_def)
  have "sum_list ?L = sum_list (take ?k ?L) + (?L ! ?k + sum_list (drop (Suc ?k) ?L))"
    using arg_cong[OF id_take_nth_drop[OF k], of sum_list] by simp
  then show "day_number tf - DaysSinceEpoch (Year tf) < YearLengths (IsLeapYear (Year tf))"
    using assms pos(2)[of "Suc ?k"] by (simp add: day_number_def valid_fields_def MonthLengths_sum)
qed

lemma second_of_day_range: "valid_fields tf \<Longrightarrow> 0 \<le> second_of_day tf \<and> second_of_day tf < 86400"
  by (simp add: valid_fields_def second_of_day_def)

lemma day_nonneg:
  assumes "valid_fields tf"
  shows "0 \<le> day_number tf"
proof -
  have Y: "1601 \<le> Year tf" using assms by (simp add: valid_fields_def)
  then have "0 \<le> DaysSinceEpoch (Year tf)"
    using DaysSinceEpoch_growth[OF Y] DaysSinceEpoch_start by simp
  then show ?thesis using day_in_year[OF assms] by linarith
qed

text \<open>Up to the year 30827 the ticks fit into 63 bits.\<close>

lemma ticks_range:
  assumes "valid_fields tf" "Year tf \<le> 30827"
  shows "0 \<le> day_number tf" "day_number tf < 10675000" "0 \<le> ticks tf" "ticks tf < 9223372036854775808"
proof -
  have D: "DaysSinceEpoch 30828 = 10674942" by (simp add: DaysSinceEpoch_div)
  have Y: "1601 \<le> Year tf" using assms by (simp add: valid_fields_def)
  have lo: "0 \<le> DaysSinceEpoch (Year tf)"
    using DaysSinceEpoch_growth[OF Y] DaysSinceEpoch_start by simp
  have hi: "DaysSinceEpoch (Year tf + 1) \<le> 10674942"
    using DaysSinceEpoch_growth[of "Year tf + 1" 30828] assms Y D by simp
  show d: "0 \<le> day_number tf" "day_number tf < 10675000"
    using day_in_year[OF assms(1)] lo hi DaysSinceEpoch_next[of "Year tf"] Y by linarith+
  have "0 \<le> Milliseconds tf" "Milliseconds tf \<le> 999" using assms by (auto simp: valid_fields_def)
  then show "0 \<le> ticks tf" "ticks tf < 9223372036854775808"
    using d second_of_day_range[OF assms(1)] unfolding ticks_def by auto
qed

lemma RtlTimeFieldsToTime_ticks:
  assumes "valid_fields tf" "ticks tf < 9223372036854775808"
  shows "RtlTimeFieldsToTime tf = Some (Some (ticks tf))"
proof -
  have s: "0 \<le> second_of_day tf" "second_of_day tf < 86400" using second_of_day_range[OF assms(1)] by auto
  have ms: "0 \<le> Milliseconds tf" using assms(1) by (simp add: valid_fields_def)
  have r: "0 \<le> day_number tf" "day_number tf \<le> 10675199" "0 \<le> ticks tf"
    using day_nonneg[OF assms(1)] s ms assms(2) by (auto simp: ticks_def)
  have m: "1 \<le> (1 :: int)" "1 \<le> Month tf" "Month tf \<le> 12" using assms(1) by (auto simp: valid_fields_def)
  have days: "month_sum (Year tf) (Month tf) 1 (DaysSinceEpoch (Year tf)) =
      Some (day_number tf - (Day tf - 1))"
    using month_sum_take[OF m, of "Year tf" "DaysSinceEpoch (Year tf)"] by (simp add: day_number_def)
  have 1: "longlong (day_number tf * 86400) = day_number tf * 86400" using r by (intro longlong_id) auto
  have 2: "longlong (day_number tf * 86400 + second_of_day tf) = day_number tf * 86400 + second_of_day tf"
    using r s by (intro longlong_id) auto
  have 3: "longlong ((day_number tf * 86400 + second_of_day tf) * 10000000) =
      (day_number tf * 86400 + second_of_day tf) * 10000000"
    using r s ms assms(2) by (intro longlong_id) (auto simp: ticks_def)
  have 4: "longlong (ticks tf) = ticks tf" using r assms(2) by (intro longlong_id) auto
  show ?thesis
    unfolding RtlTimeFieldsToTime_def fields_rejected_iff days Let_def
    using assms(1) by (simp only: Option.bind.simps not_True_eq_False if_False diff_add_cancel
        second_of_day_def[symmetric] 1 2 3 ticks_def[symmetric] 4)
qed

lemma RtlTimeFieldsToTime_invalid:
  "\<not> valid_fields tf \<Longrightarrow> RtlTimeFieldsToTime tf = Some None"
  by (simp add: RtlTimeFieldsToTime_def fields_rejected_iff)

lemma clock_range:
  fixes s :: int
  assumes "0 \<le> s" "s < 86400"
  shows "0 \<le> s div 3600 \<and> s div 3600 \<le> 23 \<and> 0 \<le> s mod 3600 div 60 \<and> s mod 3600 div 60 \<le> 59 \<and>
    0 \<le> s mod 3600 mod 60 \<and> s mod 3600 mod 60 \<le> 59"
proof -
  have m: "0 \<le> s mod 3600" "s mod 3600 < 3600" by auto
  have h: "0 \<le> x div 60 \<and> x div 60 \<le> 59" if "0 \<le> x" "x < 3600" for x :: int using that by auto
  have "0 \<le> s div 3600 \<and> s div 3600 \<le> 23" using assms by auto
  moreover have "0 \<le> x mod 60 \<and> x mod 60 \<le> 59" for x :: int by auto
  ultimately show ?thesis using h[OF m] by blast
qed

lemma milli_range: "0 \<le> (s :: int) \<Longrightarrow> s < 10000000 \<Longrightarrow> 0 \<le> s div 10000 \<and> s div 10000 \<le> 999"
  by auto

lemma split_seconds: "(s :: int) div 3600 * 3600 + s mod 3600 div 60 * 60 + s mod 3600 mod 60 = s"
  by (simp only: add.assoc div_mult_mod_eq)

lemma split_ticks: "(t :: int) div 10000000 * 10000000 + t mod 10000000 div 10000 * 10000 = t - t mod 10000"
proof -
  have "t mod 10000000 mod 10000 = t mod 10000" by (rule mod_mod_cancel) simp
  then have "t mod 10000000 div 10000 * 10000 = t mod 10000000 - t mod 10000"
    using minus_mod_eq_div_mult[of "t mod 10000000" 10000] by simp
  then show ?thesis using div_mult_mod_eq[of t 10000000] by simp
qed

lemma RtlTimeToTimeFields_ticks:
  assumes "0 \<le> t" "t < 9223372036854775808"
  shows "\<exists>tf. RtlTimeToTimeFields t = Some tf \<and> valid_fields tf \<and> ticks tf = t - t mod 10000 \<and>
    Weekday tf = (1 + day_number tf) mod 7 \<and> Year tf \<le> 30848"
proof -
  define secs days where "secs = t div 10000000" and "days = secs div 86400"
  have t: "t = secs * 10000000 + t mod 10000000" by (simp add: secs_def)
  have secs: "0 \<le> secs" "secs \<le> 922337203685" using assms by (auto simp: secs_def)
  have days: "0 \<le> days" "days \<le> 10675199" using secs by (auto simp: days_def)
  define Y0 where "Y0 = 1601 + days div 366"
  have Y0: "1601 \<le> Y0" "366 * (Y0 - 1601) \<le> days" "Y0 \<le> 30800" using days by (auto simp: Y0_def)
  have le: "DaysSinceEpoch Y0 \<le> days" and le0: "0 \<le> DaysSinceEpoch Y0"
    using DaysSinceEpoch_growth[OF Y0(1)] DaysSinceEpoch_start Y0 by auto
  have "1 \<le> Y0" "0 \<le> days - DaysSinceEpoch Y0" using Y0 le by auto
  from year_loop_correct[OF this] obtain r Y where
    yl: "year_loop (days - DaysSinceEpoch Y0) Y0 = (r, Y)" "Y0 \<le> Y" "0 \<le> r"
      "r < YearLengths (IsLeapYear Y)" "DaysSinceEpoch Y + r = days" by auto
  from month_loop_total[OF yl(3), of "MonthLengths (IsLeapYear Y)" 0] yl(4) obtain q k where
    ml: "month_loop r 0 (MonthLengths (IsLeapYear Y)) = Some (q, int k)" "k < 12" "0 \<le> q"
      "q < MonthLengths (IsLeapYear Y) ! k" "sum_list (take k (MonthLengths (IsLeapYear Y))) + q = r"
    by (auto simp: MonthLengths_sum)
  define tf where "tf = \<lparr>Year = Y, Month = int k + 1, Day = q + 1,
    Hour = secs mod 86400 div 3600, Minute = secs mod 86400 mod 3600 div 60,
    Second = secs mod 86400 mod 3600 mod 60, Milliseconds = t mod 10000000 div 10000,
    Weekday = (1 + days) mod 7\<rparr>"
  have q31: "q < 31" using ml(4) MonthLengths_range[OF nth_mem, of k "IsLeapYear Y"] ml(2) by auto
  have Yhi: "Y \<le> 30848"
    using DaysSinceEpoch_growth[of 1601 Y] DaysSinceEpoch_start yl days Y0 by simp
  have fields: "RtlTimeToTimeFields t = Some tf"
  proof -
    have u: "ulonglong t = t" "ulong days = days" "ulong Y0 = Y0" "ulong (1 + days) = 1 + days"
      "ulong (days - DaysSinceEpoch Y0) = days - DaysSinceEpoch Y0"
      using assms days Y0 le le0 by (auto intro!: ulong_id ulonglong_id)
    have v: "ulong (secs mod 86400) = secs mod 86400" by (simp add: ulong_id)
    show ?thesis
      unfolding RtlTimeToTimeFields_def Let_def u secs_def[symmetric] v days_def[symmetric]
        Y0_def[symmetric] tf_def yl(1) prod.case ml(1) Option.bind.simps
      using q31 ml(2,3) Yhi Y0 yl(2) by (simp add: cshort_id)
  qed
  have "day_number tf = days" using yl ml by (simp add: tf_def day_number_def)
  moreover have "valid_fields tf"
    using ml Y0 yl(2) clock_range[of "secs mod 86400"] milli_range[of "t mod 10000000"]
    by (simp add: valid_fields_def tf_def)
  moreover have "second_of_day tf = secs mod 86400"
    using split_seconds[of "secs mod 86400"] by (simp add: tf_def second_of_day_def)
  moreover have "days * 86400 + secs mod 86400 = secs" by (simp add: days_def)
  moreover have "secs * 10000000 + t mod 10000000 div 10000 * 10000 = t - t mod 10000"
    using split_ticks[of t] by (simp only: secs_def)
  ultimately have "ticks tf = t - t mod 10000" "valid_fields tf" "Weekday tf = (1 + day_number tf) mod 7"
    by (simp_all only: ticks_def) (simp_all only: tf_def TIME_FIELDS.simps)
  moreover have "Year tf \<le> 30848" using Yhi by (simp only: tf_def TIME_FIELDS.simps)
  ultimately show ?thesis using fields by blast
qed

section \<open>Round trips\<close>

lemma radix:
  fixes x y u v n :: int
  assumes "x * n + u = y * n + v" "0 \<le> u" "u < n" "0 \<le> v" "v < n"
  shows "x = y \<and> u = v"
proof -
  have d: "(z * n + w) div n = z" if "0 \<le> w" "w < n" for z w using that by simp
  have "x = y" using d[of u x] d[of v y] assms by simp
  then show ?thesis using assms(1) by simp
qed

lemma ticks_inj:
  assumes "valid_fields a" "valid_fields b" "ticks a = ticks b"
  shows "Year a = Year b \<and> Month a = Month b \<and> Day a = Day b \<and> Hour a = Hour b \<and>
    Minute a = Minute b \<and> Second a = Second b \<and> Milliseconds a = Milliseconds b"
proof -
  have va: "0 \<le> Milliseconds a" "Milliseconds a \<le> 999" "0 \<le> Second a" "Second a \<le> 59"
      "0 \<le> Minute a" "Minute a \<le> 59" "1 \<le> Month a" "Month a \<le> 12" "1601 \<le> Year a"
    and vb: "0 \<le> Milliseconds b" "Milliseconds b \<le> 999" "0 \<le> Second b" "Second b \<le> 59"
      "0 \<le> Minute b" "Minute b \<le> 59" "1 \<le> Month b" "Month b \<le> 12" "1601 \<le> Year b"
    using assms(1,2) by (auto simp: valid_fields_def)
  have "day_number a * 86400 + second_of_day a = day_number b * 86400 + second_of_day b \<and>
      Milliseconds a * 10000 = Milliseconds b * 10000"
    using assms(3) va vb unfolding ticks_def by (intro radix[of _ 10000000]) auto
  moreover from this have "day_number a = day_number b \<and> second_of_day a = second_of_day b"
    using second_of_day_range[OF assms(1)] second_of_day_range[OF assms(2)] by (intro radix) auto
  moreover from this have "Hour a * 60 + Minute a = Hour b * 60 + Minute b \<and> Second a = Second b"
    using va vb by (intro radix[of _ 60]) (auto simp: second_of_day_def)
  moreover from this have "Hour a = Hour b \<and> Minute a = Minute b" using va vb by (intro radix) auto
  moreover have "Year a = Year b \<and>
      day_number a - DaysSinceEpoch (Year a) = day_number b - DaysSinceEpoch (Year b)"
    using day_in_year[OF assms(1)] day_in_year[OF assms(2)] va vb calculation(2) by (intro year_unique) auto
  moreover have "nat (Month a - 1) = nat (Month b - 1) \<and> Day a - 1 = Day b - 1"
  proof (rule month_unique)
    show "\<forall>m \<in> set (MonthLengths (IsLeapYear (Year a))). 0 \<le> m" using MonthLengths_range by fastforce
  qed (use assms va vb calculation in \<open>auto simp: valid_fields_def day_number_def\<close>)
  ultimately show ?thesis using va vb by (simp add: nat_eq_iff)
qed

lemma fields_eqI:
  assumes "valid_fields a" "valid_fields b" "ticks a = ticks b" "Weekday a = w"
  shows "a = b\<lparr>Weekday := w\<rparr>"
  using ticks_inj[OF assms(1-3)] assms(4) by (cases a; cases b) simp

lemma same_ticks_day:
  assumes "valid_fields a" "valid_fields b" "ticks a = ticks b"
  shows "day_number a = day_number b"
  using ticks_inj[OF assms] by (simp add: day_number_def)

lemma fields_to_time_to_fields:
  assumes "valid_fields tf" "Year tf \<le> 30827"
  shows "\<exists>t. RtlTimeFieldsToTime tf = Some (Some t) \<and> 0 \<le> t \<and> t < 2 ^ 63 \<and>
    RtlTimeToTimeFields t = Some (tf\<lparr>Weekday := (1 + day_number tf) mod 7\<rparr>)"
proof -
  have r: "0 \<le> ticks tf" "ticks tf < 9223372036854775808" using ticks_range[OF assms] by auto
  from RtlTimeToTimeFields_ticks[OF r] obtain b where
    b: "RtlTimeToTimeFields (ticks tf) = Some b" "valid_fields b" "ticks b = ticks tf - ticks tf mod 10000"
      "Weekday b = (1 + day_number b) mod 7" by blast
  have "ticks tf = ((day_number tf * 86400 + second_of_day tf) * 1000 + Milliseconds tf) * 10000"
    by (simp add: ticks_def)
  then have "ticks tf mod 10000 = 0" by simp
  then have eq: "ticks b = ticks tf" using b(3) by simp
  have "b = tf\<lparr>Weekday := (1 + day_number tf) mod 7\<rparr>"
    using fields_eqI[OF b(2) assms(1) eq] b(4) same_ticks_day[OF b(2) assms(1) eq] by simp
  then show ?thesis using b(1) r RtlTimeFieldsToTime_ticks[OF assms(1) r(2)] by simp
qed

text \<open>C17: from fields to time and back: fields that \<open>RtlTimeFieldsToTime\<close> accepts, up to the year
  30827, come back unchanged from \<open>RtlTimeToTimeFields\<close>, with the weekday filled in as the day
  number counted from Monday, 1 January 1601.\<close>

theorem fields_time_roundtrip:
  assumes "valid_fields tf" "Year tf \<le> 30827"
  shows "\<exists>t. RtlTimeFieldsToTime tf = Some (Some t) \<and> 0 \<le> t \<and> t < 2 ^ 63 \<and>
    RtlTimeToTimeFields t = Some (tf\<lparr>Weekday := (1 + day_number tf) mod 7\<rparr>)"
  using assms by (rule fields_to_time_to_fields)

definition leap_day :: TIME_FIELDS where
  "leap_day = \<lparr>Year = 2024, Month = 2, Day = 29, Hour = 23, Minute = 59, Second = 58,
     Milliseconds = 7, Weekday = 0\<rparr>"

lemma leap_day_valid: "valid_fields leap_day" "Year leap_day = 2024"
  by (simp_all add: leap_day_def valid_fields_def IsLeapYear_mod MonthLengths_def)

theorem fields_time_roundtrip_witness:
  "valid_fields leap_day \<and> (\<exists>t. RtlTimeFieldsToTime leap_day = Some (Some t) \<and> 0 \<le> t \<and> t < 2 ^ 63 \<and>
    RtlTimeToTimeFields t = Some (leap_day\<lparr>Weekday := (1 + day_number leap_day) mod 7\<rparr>))"
  by (rule conjI[OF leap_day_valid(1) fields_time_roundtrip]) (simp_all add: leap_day_valid)

text \<open>C18: from time to fields and back: every non-negative time has fields that
  \<open>RtlTimeFieldsToTime\<close> accepts and converts to the same time, rounded down to the millisecond. The
  loops of \<open>RtlTimeToTimeFields\<close> end, no subtraction wraps around and no table is read out of range.\<close>

theorem time_fields_roundtrip:
  assumes "0 \<le> t" "t < 2 ^ 63"
  shows "\<exists>tf. RtlTimeToTimeFields t = Some tf \<and> valid_fields tf \<and>
    RtlTimeFieldsToTime tf = Some (Some (t - t mod TICKSPERMSEC))"
proof -
  have "t < 9223372036854775808" using assms(2) by simp
  from RtlTimeToTimeFields_ticks[OF assms(1) this] obtain b where
    b: "RtlTimeToTimeFields t = Some b" "valid_fields b" "ticks b = t - t mod 10000" by blast
  moreover have "ticks b < 9223372036854775808"
    using b(3) \<open>t < 9223372036854775808\<close> pos_mod_sign[of 10000 t] by simp
  ultimately show ?thesis using RtlTimeFieldsToTime_ticks by simp
qed

theorem time_fields_roundtrip_witness:
  "\<exists>tf. RtlTimeToTimeFields 133536383980075678 = Some tf \<and> valid_fields tf \<and>
    RtlTimeFieldsToTime tf = Some (Some 133536383980070000)"
  using time_fields_roundtrip[of 133536383980075678] by simp

text \<open>C23: \<open>RtlTimeFieldsToTime\<close> returns \<open>FALSE\<close> exactly for fields outside their ranges: it never
  reads beyond the month table, and the day is checked against the length of that month in that
  year.\<close>

theorem RtlTimeFieldsToTime_accepts:
  "RtlTimeFieldsToTime tf \<noteq> None \<and> (RtlTimeFieldsToTime tf = Some None) = (\<not> valid_fields tf)"
proof (cases "valid_fields tf")
  case True
  then have m: "1 \<le> (1 :: int)" "1 \<le> Month tf" "Month tf \<le> 12" by (auto simp: valid_fields_def)
  show ?thesis
    using True month_sum_take[OF m, of "Year tf" "DaysSinceEpoch (Year tf)"]
    by (simp add: RtlTimeFieldsToTime_def fields_rejected_iff Let_def)
qed (simp add: RtlTimeFieldsToTime_invalid)

section \<open>Seconds since 1970 and 1980\<close>

definition to_seconds :: "int \<Rightarrow> int \<Rightarrow> int option" where
  "to_seconds T t = (let x = longlong (t - T) sdiv 10000000
     in if HighPart x \<noteq> 0 then None else Some (LowPart x))"

lemma to_seconds_1970: "RtlTimeToSecondsSince1970 = to_seconds TICKSTO1970"
  by (simp add: fun_eq_iff RtlTimeToSecondsSince1970_def to_seconds_def Let_def)

lemma to_seconds_1980: "RtlTimeToSecondsSince1980 = to_seconds TICKSTO1980"
  by (simp add: fun_eq_iff RtlTimeToSecondsSince1980_def to_seconds_def Let_def)

lemma HighPart_zero:
  assumes "- 9223372036854775808 \<le> x" "x < 9223372036854775808"
  shows "HighPart x = 0 \<longleftrightarrow> 0 \<le> x \<and> x < 4294967296"
proof (cases "0 \<le> x")
  case True
  then have "HighPart x = x div 4294967296" using assms by (simp add: HighPart_def ulonglong_id)
  then show ?thesis using True by (auto simp: pos_imp_zdiv_neg_iff div_eq_0_iff)
next
  case False
  have "ulonglong x = ulonglong (x + 18446744073709551616)" by (simp add: ulonglong_def)
  also have "\<dots> = x + 18446744073709551616" using False assms by (intro ulonglong_id) auto
  finally have "HighPart x = (x + 18446744073709551616) div 4294967296" by (simp add: HighPart_def)
  moreover have "(x + 18446744073709551616) div 4294967296 > 0"
    using assms by (simp add: pos_imp_zdiv_pos_iff)
  ultimately show ?thesis using False by simp
qed

lemma sdiv_neg: "(x :: int) < 0 \<Longrightarrow> 0 < b \<Longrightarrow> x sdiv b = - ((- x) div b)"
  by (simp add: signed_divide_int_def sgn_if zero_less_mult_iff mult_less_0_iff)

lemma div_tick_le: "0 \<le> (x :: int) \<Longrightarrow> x div 10000000 \<le> x"
  by linarith

lemma to_seconds_exact:
  assumes "0 \<le> T" "T \<le> 4611686018427387904" "0 \<le> t" "t < 9223372036854775808"
  shows "to_seconds T t =
    (if T - 10000000 < t \<and> t < T + 4294967296 * 10000000
     then Some (if t < T then 0 else (t - T) div 10000000) else None)"
proof -
  have ll: "longlong (t - T) = t - T" using assms by (intro longlong_id) auto
  show ?thesis
  proof (cases "t < T")
    case True
    have "(t - T) sdiv 10000000 = - ((T - t) div 10000000)" using True by (subst sdiv_neg) auto
    moreover have "0 \<le> (T - t) div 10000000" "(T - t) div 10000000 \<le> T - t"
      using True div_tick_le[of "T - t"] by (auto simp: pos_imp_zdiv_nonneg_iff)
    moreover have "(T - t) div 10000000 = 0 \<longleftrightarrow> T - t < 10000000" using True by linarith
    ultimately show ?thesis
      using True assms ll HighPart_zero[of "- ((T - t) div 10000000)"]
      by (auto simp: to_seconds_def Let_def LowPart_def ulong_def)
  next
    case False
    have q: "(t - T) sdiv 10000000 = (t - T) div 10000000" using False by (simp add: sdiv_pos)
    have r: "0 \<le> (t - T) div 10000000" "(t - T) div 10000000 \<le> t - T"
      using False div_tick_le[of "t - T"] by (auto simp: pos_imp_zdiv_nonneg_iff)
    have "(t - T) div 10000000 < 4294967296 \<longleftrightarrow> t - T < 4294967296 * 10000000"
      using False by linarith
    then show ?thesis
      using False assms ll q r HighPart_zero[of "(t - T) div 10000000"]
      by (auto simp: to_seconds_def Let_def LowPart_def ulong_id)
  qed
qed

text \<open>A number of seconds since 1970 or 1980 converted to a time converts back to itself, and
  for non-negative times \<open>RtlTimeToSecondsSince1970\<close> succeeds exactly from one second (exclusive)
  before 1970 until the counter's 32 bits are exhausted; the last second before 1970 counts as
  second 0, because the division rounds towards zero.\<close>

lemma seconds_since_roundtrip:
  "(0 \<le> s \<and> s < 2 ^ 32 \<longrightarrow>
     RtlTimeToSecondsSince1970 (RtlSecondsSince1970ToTime s) = Some s \<and>
     RtlTimeToSecondsSince1980 (RtlSecondsSince1980ToTime s) = Some s) \<and>
   (0 \<le> t \<and> t < 2 ^ 63 \<longrightarrow> RtlTimeToSecondsSince1970 t =
     (if TICKSTO1970 - TICKSPERSEC < t \<and> t < TICKSTO1970 + 2 ^ 32 * TICKSPERSEC
      then Some (if t < TICKSTO1970 then 0 else (t - TICKSTO1970) div TICKSPERSEC) else None))"
  by (auto simp: RtlSecondsSince1970ToTime_def RtlSecondsSince1980ToTime_def longlong_id
      to_seconds_1970 to_seconds_1980 to_seconds_exact)

lemma seconds_since_roundtrip_example:
  "RtlTimeToSecondsSince1970 (RtlSecondsSince1970ToTime 1700000000) = Some 1700000000 \<and>
   RtlTimeToSecondsSince1970 116444735995000000 = Some 0 \<and>
   RtlTimeToSecondsSince1970 116444735900000000 = None"
  using seconds_since_roundtrip[of 1700000000 116444735995000000]
    seconds_since_roundtrip[of 1700000000 116444735900000000] by simp

section \<open>Cutover times\<close>

text \<open>The fields of the cutover rule in the year \<open>Y\<close> with the day left open.\<close>

definition on_day :: "TIME_FIELDS \<Rightarrow> int \<Rightarrow> int \<Rightarrow> TIME_FIELDS" where
  "on_day ctf Y d = \<lparr>Year = Y, Month = Month ctf, Day = d, Hour = Hour ctf, Minute = Minute ctf,
     Second = Second ctf, Milliseconds = Milliseconds ctf, Weekday = 0\<rparr>"

definition rule_ok :: "TIME_FIELDS \<Rightarrow> bool" where
  "rule_ok ctf \<longleftrightarrow> Year ctf = 0 \<and> 1 \<le> Day ctf \<and> Day ctf \<le> 5 \<and> 0 \<le> Weekday ctf \<and> Weekday ctf \<le> 6 \<and>
     0 \<le> Milliseconds ctf \<and> Milliseconds ctf \<le> 999 \<and> 0 \<le> Second ctf \<and> Second ctf \<le> 59 \<and>
     0 \<le> Minute ctf \<and> Minute ctf \<le> 59 \<and> 0 \<le> Hour ctf \<and> Hour ctf \<le> 23 \<and>
     1 \<le> Month ctf \<and> Month ctf \<le> 12"

abbreviation month_len :: "TIME_FIELDS \<Rightarrow> int \<Rightarrow> int" where
  "month_len ctf Y \<equiv> MonthLengths (IsLeapYear Y) ! nat (Month ctf - 1)"

lemma month_len_range: "rule_ok ctf \<Longrightarrow> 28 \<le> month_len ctf Y \<and> month_len ctf Y \<le> 31"
  using MonthLengths_range[OF nth_mem, of "nat (Month ctf - 1)" "IsLeapYear Y"] by (auto simp: rule_ok_def)

lemma on_day_valid:
  "rule_ok ctf \<Longrightarrow> 1601 \<le> Y \<Longrightarrow> 1 \<le> d \<Longrightarrow> d \<le> month_len ctf Y \<Longrightarrow> valid_fields (on_day ctf Y d)"
  by (simp add: valid_fields_def on_day_def rule_ok_def)

lemma on_day_number: "day_number (on_day ctf Y d) = day_number (on_day ctf Y 1) + (d - 1)"
  by (simp add: day_number_def on_day_def)

text \<open>The day of the month of the rule: the first one with the weekday, then whole weeks.\<close>

definition first_match :: "TIME_FIELDS \<Rightarrow> int \<Rightarrow> int" where
  "first_match ctf Y = 1 + (Weekday ctf - (1 + day_number (on_day ctf Y 1))) mod 7"

definition rule_day :: "TIME_FIELDS \<Rightarrow> int \<Rightarrow> int" where
  "rule_day ctf Y = (let d = first_match ctf Y + 7 * (Day ctf - 1)
     in if d > month_len ctf Y then d - 7 else d)"

lemma first_match_range: "1 \<le> first_match ctf Y" "first_match ctf Y \<le> 7"
  by (auto simp: first_match_def)

lemma rule_day_range:
  assumes "rule_ok ctf"
  shows "1 \<le> rule_day ctf Y" "rule_day ctf Y \<le> month_len ctf Y"
  using first_match_range[of ctf Y] month_len_range[OF assms, of Y] assms
  by (auto simp: rule_day_def Let_def rule_ok_def)

lemma rule_day_weekday:
  assumes "rule_ok ctf"
  shows "(1 + day_number (on_day ctf Y (rule_day ctf Y))) mod 7 = Weekday ctf"
proof -
  define n where "n = 1 + day_number (on_day ctf Y 1)"
  have "rule_day ctf Y = first_match ctf Y + 7 * (if first_match ctf Y + 7 * (Day ctf - 1) > month_len ctf Y
      then Day ctf - 2 else Day ctf - 1)"
    by (simp add: rule_day_def Let_def)
  then obtain k where "rule_day ctf Y = first_match ctf Y + 7 * k" by blast
  then have "1 + day_number (on_day ctf Y (rule_day ctf Y)) = n + (Weekday ctf - n) mod 7 + 7 * k"
    by (subst on_day_number) (simp add: first_match_def n_def)
  then have "(1 + day_number (on_day ctf Y (rule_day ctf Y))) mod 7 = (n + (Weekday ctf - n) mod 7) mod 7"
    by simp
  also have "\<dots> = Weekday ctf mod 7" by (simp add: mod_add_right_eq)
  finally show ?thesis using assms by (simp add: rule_ok_def)
qed

text \<open>The adjustments of one round of the loop, on days of the month.\<close>

lemma first_match_cases:
  assumes "rule_ok ctf" "w = (1 + day_number (on_day ctf Y 1)) mod 7"
  shows "first_match ctf Y = 1 + (if w = Weekday ctf then 0
    else if w < Weekday ctf then Weekday ctf - w else 7 - (w - Weekday ctf))"
proof -
  have W: "0 \<le> Weekday ctf" "Weekday ctf < 7" using assms(1) by (auto simp: rule_ok_def)
  have w: "0 \<le> w" "w < 7" using assms(2) by auto
  have e: "(Weekday ctf - (1 + day_number (on_day ctf Y 1))) mod 7 = (Weekday ctf - w) mod 7"
    unfolding assms(2) by (rule mod_diff_right_eq[symmetric])
  have "(x - y) mod 7 = (if y = x then 0 else if y < x then x - y else 7 - (y - x))"
    if "0 \<le> x" "x < 7" "0 \<le> y" "y < 7" for x y :: int
  proof (cases "y \<le> x")
    case True
    then show ?thesis using that by simp
  next
    case False
    have "(x - y) mod 7 = (x - y + 7) mod 7" by (rule mod_add_self2[symmetric])
    also have "\<dots> = x - y + 7" using False that by (intro mod_pos_pos_trivial) linarith+
    also have "\<dots> = (if y = x then 0 else if y < x then x - y else 7 - (y - x))" using False by simp
    finally show ?thesis .
  qed
  from this[OF W w] show ?thesis unfolding first_match_def e by (rule arg_cong)
qed

lemma cutover_round_correct:
  assumes "rule_ok ctf" "1601 \<le> Y" "Y \<le> 30827"
  shows "cutover_round ctf Y = Some (Some (ticks (on_day ctf Y (rule_day ctf Y))))"
proof -
  let ?f = "on_day ctf Y 1" and ?d = "first_match ctf Y"
  define w where "w = (1 + day_number ?f) mod 7"
  have len: "28 \<le> month_len ctf Y" "month_len ctf Y \<le> 31" using month_len_range[OF assms(1)] by auto
  have m: "1 \<le> Month ctf" "Month ctf \<le> 12" and D: "1 \<le> Day ctf" "Day ctf \<le> 5"
    using assms(1) by (auto simp: rule_ok_def)
  have v: "valid_fields ?f" using on_day_valid[OF assms(1,2)] len by simp
  have yf: "Year ?f \<le> 30827" using assms by (simp add: on_day_def)
  obtain t where t: "RtlTimeFieldsToTime ?f = Some (Some t)"
      "RtlTimeToTimeFields t = Some (?f\<lparr>Weekday := w\<rparr>)"
    using fields_to_time_to_fields[OF v yf] w_def by blast
  have v': "valid_fields (on_day ctf Y (rule_day ctf Y))"
    using on_day_valid[OF assms(1,2) rule_day_range[OF assms(1)]] .
  have tt: "RtlTimeFieldsToTime (on_day ctf Y (rule_day ctf Y)) = Some (Some (ticks (on_day ctf Y (rule_day ctf Y))))"
    using RtlTimeFieldsToTime_ticks[OF v'] ticks_range[OF v'] assms by (simp add: on_day_def)
  have W: "0 \<le> w" "w < 7" "0 \<le> Weekday ctf" "Weekday ctf < 7" using assms(1) by (auto simp: w_def rule_ok_def)
  have A: "adjust_weekday ctf (?f\<lparr>Weekday := w\<rparr>) ?f = on_day ctf Y ?d"
    using W first_match_cases[OF assms(1) w_def] by (auto simp: adjust_weekday_def on_day_def cshort_id)
  have d: "1 \<le> ?d" "?d \<le> 7" by (rule first_match_range)+
  have "adjust_weeks ctf (on_day ctf Y ?d) = Some (on_day ctf Y (rule_day ctf Y))"
    using D d len m by (auto simp: adjust_weeks_def rule_day_def on_day_def MonthLength_at_in Let_def cshort_id)
  then show ?thesis
    unfolding cutover_round_def Let_def on_day_def[of ctf Y 1, symmetric] using t A tt by simp
qed

lemma later_year_later:
  assumes "valid_fields a" "valid_fields b" "Year a < Year b"
  shows "ticks a + 10000 \<le> ticks b"
proof -
  have Y: "1 \<le> Year a + 1" "1 \<le> Year a" using assms(1) by (auto simp: valid_fields_def)
  have "DaysSinceEpoch (Year a + 1) \<le> DaysSinceEpoch (Year b)"
    using DaysSinceEpoch_growth[of "Year a + 1" "Year b"] assms(3) Y by simp
  then have "day_number a + 1 \<le> day_number b"
    using day_in_year(2)[OF assms(1)] day_in_year(1)[OF assms(2)] DaysSinceEpoch_next[OF Y(2)] by linarith
  moreover have "Milliseconds a \<le> 999" "0 \<le> Milliseconds b"
    using assms(1,2) by (auto simp: valid_fields_def)
  ultimately show ?thesis
    using second_of_day_range[OF assms(1)] second_of_day_range[OF assms(2)] unfolding ticks_def by auto
qed

lemma rule_day_position:
  assumes "rule_ok ctf"
  shows "(Day ctf < 5 \<longrightarrow> 7 * (Day ctf - 1) < rule_day ctf Y \<and> rule_day ctf Y \<le> 7 * Day ctf) \<and>
    (Day ctf = 5 \<longrightarrow> month_len ctf Y < rule_day ctf Y + 7)"
  using first_match_range[of ctf Y] month_len_range[OF assms, of Y] assms
  by (auto simp: rule_day_def Let_def rule_ok_def)

lemma rule_time_fields:
  assumes "rule_ok ctf" "1601 \<le> Y" "Y \<le> 30827"
  shows "RtlTimeToTimeFields (ticks (on_day ctf Y (rule_day ctf Y))) =
    Some ((on_day ctf Y (rule_day ctf Y))\<lparr>Weekday := Weekday ctf\<rparr>)"
proof -
  let ?f = "on_day ctf Y (rule_day ctf Y)"
  have v: "valid_fields ?f" using on_day_valid[OF assms(1,2) rule_day_range[OF assms(1)]] .
  have y: "Year ?f \<le> 30827" using assms by (simp add: on_day_def)
  have "RtlTimeFieldsToTime ?f = Some (Some (ticks ?f))"
    using RtlTimeFieldsToTime_ticks[OF v] ticks_range[OF v y] by simp
  then show ?thesis
    using fields_to_time_to_fields[OF v y] rule_day_weekday[OF assms(1), of Y] by simp
qed

text \<open>C24: a recurring cutover rule (the n-th weekday of a month, 5 for the last) is resolved to a
  time in the current or the next year that has the month, the weekday and the time of day of the
  rule, in the n-th week of the month or, for 5, within the last seven days; unless only this year's
  cutover is asked for, it is not in the past.\<close>

theorem cutover_recurring:
  assumes "rule_ok ctf" "0 \<le> now" "now < 2 ^ 63"
    "RtlTimeToTimeFields now = Some cur" "Year cur \<le> 30826"
  shows "\<exists>t tf. RtlCutoverTimeToSystemTime ctf now only = Some (Some t) \<and> RtlTimeToTimeFields t = Some tf \<and>
    (Year tf = Year cur \<or> Year tf = Year cur + 1) \<and> Month tf = Month ctf \<and> Weekday tf = Weekday ctf \<and>
    Hour tf = Hour ctf \<and> Minute tf = Minute ctf \<and> Second tf = Second ctf \<and>
    Milliseconds tf = Milliseconds ctf \<and>
    (Day ctf < 5 \<longrightarrow> 7 * (Day ctf - 1) < Day tf \<and> Day tf \<le> 7 * Day ctf) \<and>
    (Day ctf = 5 \<longrightarrow> month_len ctf (Year tf) < Day tf + 7) \<and> (\<not> only \<longrightarrow> now \<le> t)"
proof -
  let ?t = "\<lambda>Y. ticks (on_day ctf Y (rule_day ctf Y))"
  have "now < 9223372036854775808" using assms(3) by simp
  from RtlTimeToTimeFields_ticks[OF assms(2) this] assms(4)
  have cur: "valid_fields cur" "ticks cur = now - now mod 10000" by auto
  then have Y: "1601 \<le> Year cur" by (simp add: valid_fields_def)
  have good: "\<exists>tf. RtlTimeToTimeFields (?t Z) = Some tf \<and>
      Year tf = Z \<and> Month tf = Month ctf \<and> Weekday tf = Weekday ctf \<and>
      Hour tf = Hour ctf \<and> Minute tf = Minute ctf \<and> Second tf = Second ctf \<and>
      Milliseconds tf = Milliseconds ctf \<and>
      (Day ctf < 5 \<longrightarrow> 7 * (Day ctf - 1) < Day tf \<and> Day tf \<le> 7 * Day ctf) \<and>
      (Day ctf = 5 \<longrightarrow> month_len ctf (Year tf) < Day tf + 7)" if "1601 \<le> Z" "Z \<le> 30827" for Z
    using rule_time_fields[OF assms(1) that] rule_day_position[OF assms(1), of Z] by (simp add: on_day_def)
  have r1: "cutover_round ctf (Year cur) = Some (Some (?t (Year cur)))"
    and r2: "cutover_round ctf (cshort (Year cur + 1)) = Some (Some (?t (Year cur + 1)))"
    using cutover_round_correct[OF assms(1)] Y assms(5) by (simp_all add: cshort_id)
  have "valid_fields (on_day ctf (Year cur + 1) (rule_day ctf (Year cur + 1)))"
    using on_day_valid[OF assms(1) _ rule_day_range[OF assms(1)]] Y by simp
  then have "ticks cur + 10000 \<le> ?t (Year cur + 1)"
    by (rule later_year_later[OF cur(1)]) (simp add: on_day_def)
  then have next_later: "now \<le> ?t (Year cur + 1)"
    using cur(2) pos_mod_bound[of 10000 now] by simp
  have eq: "RtlCutoverTimeToSystemTime ctf now only =
      (if only \<or> ?t (Year cur) \<ge> now then Some (Some (?t (Year cur))) else Some (Some (?t (Year cur + 1))))"
    using assms(1,4) r1 r2 by (simp add: RtlCutoverTimeToSystemTime_def rule_ok_def)
  show ?thesis
  proof (cases "only \<or> ?t (Year cur) \<ge> now")
    case True
    then show ?thesis using eq good[of "Year cur"] Y assms(5) by auto
  next
    case False
    then show ?thesis using eq good[of "Year cur + 1"] Y assms(5) next_later by auto
  qed
qed

definition last_sunday_march :: TIME_FIELDS where
  "last_sunday_march = \<lparr>Year = 0, Month = 3, Day = 5, Hour = 1, Minute = 0, Second = 0,
     Milliseconds = 0, Weekday = 0\<rparr>"

lemma last_sunday_march_ok: "rule_ok last_sunday_march"
  by (simp add: rule_ok_def last_sunday_march_def)

lemma epoch_fields: "RtlTimeToTimeFields 0 = Some \<lparr>Year = 1601, Month = 1, Day = 1, Hour = 0, Minute = 0,
   Second = 0, Milliseconds = 0, Weekday = 1\<rparr>"
  by (simp add: RtlTimeToTimeFields_def Let_def ulonglong_id ulong_id cshort_id DaysSinceEpoch_start
      year_loop.simps YearLengths_def MonthLengths_def)

theorem cutover_recurring_witness:
  "\<exists>t tf. RtlCutoverTimeToSystemTime last_sunday_march 0 False = Some (Some t) \<and>
    RtlTimeToTimeFields t = Some tf \<and> (Year tf = 1601 \<or> Year tf = 1602) \<and> Month tf = 3 \<and> Weekday tf = 0 \<and>
    Hour tf = 1 \<and> month_len last_sunday_march (Year tf) < Day tf + 7 \<and> 0 \<le> t"
  using cutover_recurring[OF last_sunday_march_ok _ _ epoch_fields, of False]
  by (auto simp: last_sunday_march_def)

text \<open>the routine does not reject a negative day in a recurring rule, although the day must be
  between 1 and 5: it is treated like the first occurrence.\<close>

lemma cutover_negative_day:
  assumes "rule_ok ctf" "Day ctf = 1" "d < 0"
  shows "RtlCutoverTimeToSystemTime (ctf\<lparr>Day := d\<rparr>) now only = RtlCutoverTimeToSystemTime ctf now only"
proof -
  have "adjust_weeks (ctf\<lparr>Day := d\<rparr>) = adjust_weeks ctf"
    "adjust_weekday (ctf\<lparr>Day := d\<rparr>) = adjust_weekday ctf"
    using assms by (auto simp: fun_eq_iff adjust_weeks_def adjust_weekday_def Let_def)
  then have "cutover_round (ctf\<lparr>Day := d\<rparr>) = cutover_round ctf"
    by (simp add: fun_eq_iff cutover_round_def)
  from this show ?thesis
    unfolding RtlCutoverTimeToSystemTime_def \<open>cutover_round _ = _\<close> using assms by (simp add: rule_ok_def)
qed

lemma cutover_negative_day_example:
  "RtlCutoverTimeToSystemTime (last_sunday_march\<lparr>Day := - 3\<rparr>) 0 True =
   RtlCutoverTimeToSystemTime (last_sunday_march\<lparr>Day := 1\<rparr>) 0 True"
  using cutover_negative_day[of "last_sunday_march\<lparr>Day := 1\<rparr>" "- 3" 0 True]
  by (simp add: rule_ok_def last_sunday_march_def)

text \<open>Converting a local time to system time and back, or the other way round, with the same
  answer of the system call gives the time again; an error status is passed on.\<close>

lemma local_system_roundtrip:
  assumes "- (2 ^ 63) \<le> t" "t < 2 ^ 63" "0 \<le> st"
  shows "(\<exists>x. RtlSystemTimeToLocalTime (st, bias) t = Inr x \<and> RtlLocalTimeToSystemTime (st, bias) x = Inr t) \<and>
    (\<exists>x. RtlLocalTimeToSystemTime (st, bias) t = Inr x \<and> RtlSystemTimeToLocalTime (st, bias) x = Inr t)"
proof -
  have "(t - bias + 2 ^ 63) mod 2 ^ 64 - 2 ^ 63 + bias + 2 ^ 63 = (t - bias + 2 ^ 63) mod 2 ^ 64 + bias"
    by simp
  then have 1: "longlong (longlong (t - bias) + bias) = t"
    using assms by (simp add: longlong_def mod_add_left_eq)
  have 2: "longlong (longlong (t + bias) - bias) = t"
    using assms by (simp add: longlong_def mod_diff_left_eq)
  show ?thesis using assms 1 2 by (simp add: RtlSystemTimeToLocalTime_def RtlLocalTimeToSystemTime_def)
qed

lemma local_system_roundtrip_example:
  "\<exists>x. RtlSystemTimeToLocalTime (0, 36000000000) 5 = Inr x \<and> RtlLocalTimeToSystemTime (0, 36000000000) x = Inr 5"
  using local_system_roundtrip[of 5 0 36000000000] by simp

end
