(* ===== verification/WaitOnAddress.thy ===== *)
theory WaitOnAddress
  imports Prelude
begin

text \<open>\<open>WaitOnAddress\<close> and \<open>WakeByAddress\<close> of the native extension library,
  \<open>oca/extensions/ntext/rtl/synch.c\<close>.

  The wait blocks live in the stack frames of the waiting threads and are linked into a circular
  doubly linked list per hash bucket. The store \<open>Blocks\<close> maps the address of a live block to its
  contents; reading or writing a block that is not live is \<open>None\<close>. \<open>NULL\<close> is 0. The events of the
  kernel are a map from handles to their signal state. Everything a thread does between acquiring
  and releasing the bucket lock is one operation here: the lock is exclusive.\<close>

section \<open>State\<close>

type_synonym wptr = nat

abbreviation (input) "NULL \<equiv> (0 :: wptr)"

record WAIT_BLOCK =
  Address :: "32 word"
  EventHandle :: nat
  Next :: wptr
  Previous :: wptr

abbreviation (input) "KexRtlWoaHashEntries \<equiv> (128 :: nat)"

text \<open>\<open>WaitBlocks s k\<close> is the list head of entry \<open>k\<close> of the hash table.\<close>

record woa =
  Blocks :: "wptr \<rightharpoonup> WAIT_BLOCK"
  WaitBlocks :: "nat \<Rightarrow> wptr"
  Events :: "nat \<rightharpoonup> bool"

definition KexRtlpGetWoaHashBucket :: "32 word \<Rightarrow> nat" where
  "KexRtlpGetWoaHashBucket A = unat (drop_bit 4 A AND (128 - 1))"

section \<open>Memory comparison\<close>

text \<open>The little endian value of \<open>n\<close> bytes of memory at an address.\<close>

fun le_value :: "(32 word \<Rightarrow> 8 word) \<Rightarrow> 32 word \<Rightarrow> nat \<Rightarrow> nat" where
  "le_value mem a 0 = 0"
| "le_value mem a (Suc n) = unat (mem a) + 256 * le_value mem (a + 1) n"

definition KexRtlpEqualVolatileMemory ::
  "(32 word \<Rightarrow> 8 word) \<Rightarrow> 32 word \<Rightarrow> 32 word \<Rightarrow> 32 word \<Rightarrow> bool" where
  "KexRtlpEqualVolatileMemory mem Address1 Address2 Size =
     (if Size = 1 then le_value mem Address1 1 = le_value mem Address2 1
      else if Size = 2 then le_value mem Address1 2 = le_value mem Address2 2
      else if Size = 4 then le_value mem Address1 4 = le_value mem Address2 4
      else if Size = 8 then le_value mem Address1 8 = le_value mem Address2 8
      else False)"

section \<open>List operations\<close>

definition set_Next :: "woa \<Rightarrow> wptr \<Rightarrow> wptr \<Rightarrow> woa option" where
  "set_Next s p v = do { b \<leftarrow> Blocks s p; Some (s\<lparr>Blocks := (Blocks s)(p \<mapsto> b\<lparr>Next := v\<rparr>)\<rparr>) }"

definition set_Previous :: "woa \<Rightarrow> wptr \<Rightarrow> wptr \<Rightarrow> woa option" where
  "set_Previous s p v = do { b \<leftarrow> Blocks s p; Some (s\<lparr>Blocks := (Blocks s)(p \<mapsto> b\<lparr>Previous := v\<rparr>)\<rparr>) }"

definition KexRtlpRemoveWoaWaitBlock :: "woa \<Rightarrow> nat \<Rightarrow> wptr \<Rightarrow> woa option" where
  "KexRtlpRemoveWoaWaitBlock s HashBucket WaitBlock = do {
     b \<leftarrow> Blocks s WaitBlock;
     (if Previous b = NULL then Some s
      else if Next b = WaitBlock then Some (s\<lparr>WaitBlocks := (WaitBlocks s)(HashBucket := NULL)\<rparr>)
      else do {
        let s = (if WaitBlock = WaitBlocks s HashBucket
                 then s\<lparr>WaitBlocks := (WaitBlocks s)(HashBucket := Next b)\<rparr> else s);
        s \<leftarrow> set_Next s (Previous b) (Next b);
        b \<leftarrow> Blocks s WaitBlock;
        set_Previous s (Next b) (Previous b) }) }"

text \<open>Linking the new block at the end of the list. The block \<open>WaitBlock\<close> is in the caller's frame:
  it becomes live here, with \<open>Address\<close> and \<open>EventHandle\<close> set.\<close>

definition append_block :: "woa \<Rightarrow> nat \<Rightarrow> wptr \<Rightarrow> 32 word \<Rightarrow> nat \<Rightarrow> woa option" where
  "append_block s HashBucket WaitBlock A h =
     (if WaitBlocks s HashBucket = NULL then
        let b = \<lparr>Address = A, EventHandle = h, Next = WaitBlock, Previous = WaitBlock\<rparr>
        in Some (s\<lparr>Blocks := (Blocks s)(WaitBlock \<mapsto> b),
                   WaitBlocks := (WaitBlocks s)(HashBucket := WaitBlock)\<rparr>)
      else do {
        let hd = WaitBlocks s HashBucket;
        first \<leftarrow> Blocks s hd;
        let b = \<lparr>Address = A, EventHandle = h, Next = hd, Previous = Previous first\<rparr>;
        let s = s\<lparr>Blocks := (Blocks s)(WaitBlock \<mapsto> b)\<rparr>;
        first \<leftarrow> Blocks s hd;
        s \<leftarrow> set_Next s (Previous first) WaitBlock;
        set_Previous s hd WaitBlock })"

section \<open>Waiting\<close>

text \<open>\<open>RtlWaitOnAddress\<close> up to the wait: \<open>Inl\<close> is a return with that status, \<open>Inr ()\<close> means that the
  thread goes on to \<open>NtWaitForSingleObject\<close>. The frame holds the block at \<open>WaitBlock\<close>. The answer of
  \<open>NtCreateEvent\<close> is an argument: its status and the new handle, whose event is not signalled.\<close>

definition RtlWaitOnAddress_enter ::
  "(32 word \<Rightarrow> 8 word) \<Rightarrow> NTSTATUS \<times> nat \<Rightarrow> wptr \<Rightarrow> 32 word \<Rightarrow> 32 word \<Rightarrow> 32 word \<Rightarrow> woa \<Rightarrow>
   ((NTSTATUS + unit) \<times> woa) option" where
  "RtlWaitOnAddress_enter mem create WaitBlock A CompareAddress AddressSize s =
     (if A = 0 \<or> CompareAddress = 0 then Some (Inl STATUS_INVALID_PARAMETER, s)
      else if AddressSize \<noteq> 4 \<and> AddressSize \<noteq> 2 \<and> AddressSize \<noteq> 1 \<and> AddressSize \<noteq> 8
      then Some (Inl STATUS_INVALID_PARAMETER, s)
      else
        let HashBucket = KexRtlpGetWoaHashBucket A in
        if \<not> KexRtlpEqualVolatileMemory mem A CompareAddress AddressSize
        then Some (Inl STATUS_SUCCESS, s)
        else
          let (Status, h) = create in
          if \<not> NT_SUCCESS Status then Some (Inl Status, s)
          else do {
            s \<leftarrow> append_block (s\<lparr>Events := (Events s)(h \<mapsto> False)\<rparr>) HashBucket WaitBlock A h;
            Some (Inr (), s) })"

text \<open>\<open>RtlWaitOnAddress\<close> from the return of the wait with \<open>Status\<close>: a thread that was not woken removes
  its block; then the event is closed and the frame, with the block, is gone.\<close>

definition RtlWaitOnAddress_exit :: "wptr \<Rightarrow> 32 word \<Rightarrow> NTSTATUS \<Rightarrow> woa \<Rightarrow> (NTSTATUS \<times> woa) option" where
  "RtlWaitOnAddress_exit WaitBlock A Status s = do {
     s \<leftarrow> (if Status = STATUS_TIMEOUT \<or> \<not> NT_SUCCESS Status
          then KexRtlpRemoveWoaWaitBlock s (KexRtlpGetWoaHashBucket A) WaitBlock
          else Some s);
     b \<leftarrow> Blocks s WaitBlock;
     Some (Status, s\<lparr>Events := (Events s)(EventHandle b := None),
                     Blocks := (Blocks s)(WaitBlock := None)\<rparr>) }"

section \<open>Waking\<close>

definition NtSetEvent :: "woa \<Rightarrow> nat \<Rightarrow> woa" where
  "NtSetEvent s h = (if Events s h = None then s else s\<lparr>Events := (Events s)(h \<mapsto> True)\<rparr>)"

text \<open>The body of the loop for one matching block: unlink, mark as removed, signal.\<close>

definition wake_block :: "woa \<Rightarrow> nat \<Rightarrow> wptr \<Rightarrow> woa option" where
  "wake_block s HashBucket WaitBlock = do {
     s \<leftarrow> KexRtlpRemoveWoaWaitBlock s HashBucket WaitBlock;
     s \<leftarrow> set_Previous s WaitBlock NULL;
     b \<leftarrow> Blocks s WaitBlock;
     Some (NtSetEvent s (EventHandle b)) }"

partial_function (option) wake_loop :: "32 word \<Rightarrow> bool \<Rightarrow> nat \<Rightarrow> wptr \<Rightarrow> woa \<Rightarrow> woa option" where
  "wake_loop A WakeAll HashBucket WaitBlock s = do {
     b \<leftarrow> Blocks s WaitBlock;
     let NextWaitBlock = Next b;
     (if Address b = A then do {
        s \<leftarrow> wake_block s HashBucket WaitBlock;
        (if \<not> WakeAll then Some s
         else if WaitBlocks s HashBucket = NULL \<or> NextWaitBlock = WaitBlocks s HashBucket then Some s
         else wake_loop A WakeAll HashBucket NextWaitBlock s) }
      else if WaitBlocks s HashBucket = NULL \<or> NextWaitBlock = WaitBlocks s HashBucket then Some s
      else wake_loop A WakeAll HashBucket NextWaitBlock s) }"

definition RtlpWakeByAddress :: "32 word \<Rightarrow> bool \<Rightarrow> woa \<Rightarrow> woa option" where
  "RtlpWakeByAddress A WakeAll s =
     (let HashBucket = KexRtlpGetWoaHashBucket A in
      if WaitBlocks s HashBucket = NULL then Some s
      else wake_loop A WakeAll HashBucket (WaitBlocks s HashBucket) s)"

definition RtlWakeAddressSingle :: "32 word \<Rightarrow> woa \<Rightarrow> woa option" where
  "RtlWakeAddressSingle A = RtlpWakeByAddress A False"

definition RtlWakeAddressAll :: "32 word \<Rightarrow> woa \<Rightarrow> woa option" where
  "RtlWakeAddressAll A = RtlpWakeByAddress A True"

end
