(* ===== verification/Woa_Lists.thy ===== *)
theory Woa_Lists
  imports WaitOnAddress
begin

text \<open>The circular doubly linked lists of the hash buckets as lists of block addresses: what linking,
  unlinking and waking do to them.\<close>

section \<open>Segments and rings\<close>

fun dlseg :: "(wptr \<rightharpoonup> WAIT_BLOCK) \<Rightarrow> wptr \<Rightarrow> wptr list \<Rightarrow> wptr \<Rightarrow> bool" where
  "dlseg H pv [] nx = True"
| "dlseg H pv (x # xs) nx =
     (\<exists>b. H x = Some b \<and> Previous b = pv \<and> Next b = hd (xs @ [nx]) \<and> dlseg H x xs nx)"

lemma dlseg_append:
  "dlseg H pv (xs @ ys) nx \<longleftrightarrow> dlseg H pv xs (hd (ys @ [nx])) \<and> dlseg H (last (pv # xs)) ys nx"
proof (induction xs arbitrary: pv)
  case (Cons x xs)
  have "hd ((xs @ ys) @ [nx]) = hd (xs @ [hd (ys @ [nx])])" by (cases xs) auto
  then show ?case using Cons by auto
qed simp

lemma dlseg_cong: "\<forall>x \<in> set xs. H x = H' x \<Longrightarrow> dlseg H pv xs nx = dlseg H' pv xs nx"
  by (induction xs arbitrary: pv) auto

lemma dlseg_live: "dlseg H pv xs nx \<Longrightarrow> x \<in> set xs \<Longrightarrow> \<exists>b. H x = Some b"
  by (induction xs arbitrary: pv) auto

lemma dlseg_set_Next:
  assumes "dlseg H pv xs nx" "xs \<noteq> []" "distinct xs" "H (last xs) = Some b"
  shows "dlseg (H(last xs \<mapsto> b\<lparr>Next := v\<rparr>)) pv xs v"
proof -
  obtain us x where xs: "xs = us @ [x]" using assms(2) by (metis append_butlast_last_id)
  let ?H = "H(x \<mapsto> b\<lparr>Next := v\<rparr>)"
  have "dlseg H pv us x" "dlseg H (last (pv # us)) [x] nx"
    using assms(1) unfolding xs dlseg_append by simp_all
  moreover have "dlseg ?H pv us x = dlseg H pv us x"
    using assms(3) by (intro dlseg_cong) (auto simp: xs)
  ultimately show ?thesis
    using assms(4) unfolding xs dlseg_append by (simp add: xs)
qed

lemma dlseg_set_Previous:
  assumes "dlseg H pv xs nx" "xs \<noteq> []" "distinct xs" "H (hd xs) = Some b"
  shows "dlseg (H(hd xs \<mapsto> b\<lparr>Previous := v\<rparr>)) v xs nx"
proof -
  obtain x ys where xs: "xs = x # ys" using assms(2) by (cases xs) auto
  have "dlseg (H(x \<mapsto> b\<lparr>Previous := v\<rparr>)) x ys nx = dlseg H x ys nx"
    using assms(3) by (intro dlseg_cong) (auto simp: xs)
  then show ?thesis using assms(1,4) by (simp add: xs)
qed

definition ring :: "(wptr \<rightharpoonup> WAIT_BLOCK) \<Rightarrow> wptr list \<Rightarrow> bool" where
  "ring H xs \<longleftrightarrow> distinct xs \<and> NULL \<notin> set xs \<and> (xs \<noteq> [] \<longrightarrow> dlseg H (last xs) xs (hd xs))"

definition head :: "wptr list \<Rightarrow> wptr" where
  "head xs = (if xs = [] then NULL else hd xs)"

lemma ring_Nil [simp]: "ring H []" and head_Nil [simp]: "head [] = 0" and head_Cons [simp]: "head (x # xs) = x"
  by (simp_all add: ring_def head_def)

lemma ring_rotate: "ring H (xs @ ys) \<longleftrightarrow> ring H (ys @ xs)"
proof (cases "xs = [] \<or> ys = []")
  case False
  then have "dlseg H (last (xs @ ys)) (xs @ ys) (hd (xs @ ys)) \<longleftrightarrow>
      dlseg H (last ys) xs (hd ys) \<and> dlseg H (last xs) ys (hd xs)"
    "dlseg H (last (ys @ xs)) (ys @ xs) (hd (ys @ xs)) \<longleftrightarrow>
      dlseg H (last xs) ys (hd xs) \<and> dlseg H (last ys) xs (hd ys)"
    by (simp_all add: dlseg_append)
  then show ?thesis using False by (auto simp: ring_def)
qed auto

lemma ring_cong: "\<forall>x \<in> set xs. H x = H' x \<Longrightarrow> ring H xs = ring H' xs"
  using dlseg_cong[of xs H H'] by (simp add: ring_def)

lemma ring_live: "ring H xs \<Longrightarrow> x \<in> set xs \<Longrightarrow> \<exists>b. H x = Some b \<and> x \<noteq> 0"
  using dlseg_live[of H "last xs" xs "hd xs" x] by (cases "x = 0") (auto simp: ring_def)

lemma ring_neighbours:
  assumes "ring H (x # ys)" "H x = Some b"
  shows "Next b = hd (ys @ [x])" "Previous b = last (x # ys)"
  using assms by (auto simp: ring_def)

lemma ring_Previous:
  assumes "ring H xs" "x \<in> set xs" "H x = Some b"
  shows "Previous b \<noteq> 0"
proof -
  obtain us vs where xs: "xs = us @ x # vs" using assms(2) by (auto simp: in_set_conv_decomp)
  then have r: "ring H (x # vs @ us)" using assms(1) ring_rotate[of H us "x # vs"] by simp
  then have "Previous b \<in> set (x # vs @ us)"
    using ring_neighbours(2)[OF r assms(3)] last_in_set[of "x # vs @ us"] by simp
  then show ?thesis using assms(1) by (auto simp: ring_def xs)
qed

text \<open>What the list operations leave alone: no block appears or disappears, blocks outside \<open>A\<close> are
  unchanged and no block changes its address or its event.\<close>

definition relinked :: "wptr set \<Rightarrow> (wptr \<rightharpoonup> WAIT_BLOCK) \<Rightarrow> (wptr \<rightharpoonup> WAIT_BLOCK) \<Rightarrow> bool" where
  "relinked A H H' \<longleftrightarrow> (\<forall>p. p \<notin> A \<longrightarrow> H' p = H p) \<and>
     (\<forall>p. map_option (\<lambda>b. (Address b, EventHandle b)) (H' p) = map_option (\<lambda>b. (Address b, EventHandle b)) (H p))"

lemma relinked_refl: "relinked A H H"
  by (simp add: relinked_def)

lemma relinked_trans: "relinked A H H' \<Longrightarrow> relinked B H' H'' \<Longrightarrow> relinked (A \<union> B) H H''"
  by (simp add: relinked_def)

lemma relinked_upd:
  "H p = Some b \<Longrightarrow> p \<in> A \<Longrightarrow> relinked A H (H(p \<mapsto> b\<lparr>Next := v\<rparr>))"
  "H p = Some b \<Longrightarrow> p \<in> A \<Longrightarrow> relinked A H (H(p \<mapsto> b\<lparr>Previous := v\<rparr>))"
  by (auto simp: relinked_def)

lemma unlink_ring:
  assumes r: "ring (Blocks s) (x # ys)" and ne: "ys \<noteq> []"
  shows "\<exists>s1 s2. set_Next s (last ys) (hd ys) = Some s1 \<and> Blocks s1 x = Blocks s x \<and>
    set_Previous s1 (hd ys) (last ys) = Some s2 \<and> ring (Blocks s2) ys \<and>
    relinked (set ys) (Blocks s) (Blocks s2) \<and> WaitBlocks s2 = WaitBlocks s \<and> Events s2 = Events s"
proof -
  let ?H = "Blocks s"
  have d: "distinct ys" "x \<notin> set ys" "NULL \<notin> set ys" and seg: "dlseg ?H x ys x"
    using r by (auto simp: ring_def)
  obtain bl where bl: "?H (last ys) = Some bl" using dlseg_live[OF seg] ne by (meson last_in_set)
  let ?H1 = "?H(last ys \<mapsto> bl\<lparr>Next := hd ys\<rparr>)"
  have seg1: "dlseg ?H1 x ys (hd ys)" by (rule dlseg_set_Next[OF seg ne d(1) bl])
  obtain bh where bh: "?H1 (hd ys) = Some bh" using dlseg_live[OF seg1] ne by (meson hd_in_set)
  let ?H2 = "?H1(hd ys \<mapsto> bh\<lparr>Previous := last ys\<rparr>)"
  have seg2: "dlseg ?H2 (last ys) ys (hd ys)" by (rule dlseg_set_Previous[OF seg1 ne d(1) bh])
  have "relinked (set ys) ?H ?H1" using bl ne by (intro relinked_upd) auto
  moreover have "relinked (set ys) ?H1 ?H2" using bh ne by (intro relinked_upd) auto
  ultimately have "relinked (set ys) ?H ?H2" using relinked_trans by fastforce
  moreover have "last ys \<noteq> x" using d ne by auto
  ultimately show ?thesis
    using bl bh seg2 d ne by (simp add: set_Next_def set_Previous_def ring_def)
qed

section \<open>Removing and appending\<close>

lemma remove1_split: "distinct (us @ x # vs) \<Longrightarrow> remove1 x (us @ x # vs) = us @ vs"
  by (simp add: remove1_append)

lemma KexRtlpRemoveWoaWaitBlock_ring:
  assumes r: "ring (Blocks s) xs" and hd: "WaitBlocks s k = head xs" and x: "x \<in> set xs"
  shows "\<exists>s'. KexRtlpRemoveWoaWaitBlock s k x = Some s' \<and> ring (Blocks s') (remove1 x xs) \<and>
    WaitBlocks s' = (WaitBlocks s)(k := head (remove1 x xs)) \<and> Events s' = Events s \<and>
    relinked (set xs - {x}) (Blocks s) (Blocks s')"
proof -
  obtain us vs where xs: "xs = us @ x # vs" using x by (auto simp: in_set_conv_decomp)
  let ?ys = "vs @ us"
  have d: "distinct xs" using r by (simp add: ring_def)
  have rot: "ring (Blocks s) (x # ?ys)" using r ring_rotate[of "Blocks s" us "x # vs"] by (simp add: xs)
  obtain b where b: "Blocks s x = Some b" using ring_live[OF r x] by blast
  have nz: "Previous b \<noteq> 0" by (rule ring_Previous[OF r x b])
  have rem: "remove1 x xs = us @ vs" using d remove1_split by (simp add: xs)
  show ?thesis
  proof (cases "?ys = []")
    case True
    then show ?thesis
      using b nz ring_neighbours(1)[OF rot b] hd rem
      by (simp add: KexRtlpRemoveWoaWaitBlock_def xs relinked_refl)
  next
    case False
    have nb: "Next b = hd ?ys" "Previous b = last ?ys"
      using ring_neighbours[OF rot b] False by (cases vs; cases us; simp)+
    have nx: "Next b \<noteq> x" using nb(1) hd_in_set[OF False] rot by (auto simp: ring_def)
    define s0 where "s0 = (if x = WaitBlocks s k then s\<lparr>WaitBlocks := (WaitBlocks s)(k := Next b)\<rparr> else s)"
    have s0: "Blocks s0 = Blocks s" "Events s0 = Events s" by (simp_all add: s0_def)
    have wb: "WaitBlocks s0 = (WaitBlocks s)(k := head (us @ vs))"
    proof (cases us)
      case Nil
      then show ?thesis using hd nb False by (simp add: s0_def xs head_def)
    next
      case (Cons u us')
      then have "u \<noteq> x" using d by (auto simp: xs)
      then show ?thesis using hd Cons by (simp add: s0_def xs fun_eq_iff)
    qed
    have "ring (Blocks s0) (x # ?ys)" using rot s0 by simp
    from unlink_ring[OF this False] obtain s1 s2 where
      s12: "set_Next s0 (last ?ys) (hd ?ys) = Some s1" "Blocks s1 x = Blocks s x"
        "set_Previous s1 (hd ?ys) (last ?ys) = Some s2" "ring (Blocks s2) ?ys"
        "relinked (set ?ys) (Blocks s) (Blocks s2)" "WaitBlocks s2 = WaitBlocks s0" "Events s2 = Events s"
      unfolding s0 by blast
    have "KexRtlpRemoveWoaWaitBlock s k x = Some s2"
      unfolding KexRtlpRemoveWoaWaitBlock_def Let_def using b nz nx s12(1-3)
      by (simp add: s0_def[symmetric] nb)
    moreover have "ring (Blocks s2) (us @ vs)" using s12(4) ring_rotate by blast
    moreover have "set ?ys = set xs - {x}" using d by (auto simp: xs)
    ultimately show ?thesis using s12 wb rem by simp
  qed
qed

lemma append_block_ring:
  assumes r: "ring (Blocks s) xs" and hd: "WaitBlocks s k = head xs" and p: "Blocks s p = None" "p \<noteq> 0"
  shows "\<exists>s' b. append_block s k p A h = Some s' \<and> ring (Blocks s') (xs @ [p]) \<and>
    WaitBlocks s' = (WaitBlocks s)(k := head (xs @ [p])) \<and> Events s' = Events s \<and>
    Blocks s' p = Some b \<and> Address b = A \<and> EventHandle b = h \<and>
    relinked (set xs) (Blocks s) ((Blocks s')(p := None))"
proof (cases "xs = []")
  case True
  then show ?thesis
    using hd p by (simp add: append_block_def ring_def head_def relinked_def)
next
  case False
  have d: "distinct xs" "NULL \<notin> set xs" and seg: "dlseg (Blocks s) (last xs) xs (hd xs)"
    using r False by (auto simp: ring_def)
  have pn: "p \<notin> set xs" using p(1) ring_live[OF r] by fastforce
  have hz: "hd xs \<noteq> 0" "hd xs \<noteq> p" "last xs \<noteq> p" using d False pn by (metis hd_in_set last_in_set)+
  obtain f where f: "Blocks s (hd xs) = Some f" using ring_live[OF r] False by (meson hd_in_set)
  have fp: "Previous f = last xs" using seg f False by (cases xs) auto
  define b where "b = \<lparr>Address = A, EventHandle = h, Next = hd xs, Previous = last xs\<rparr>"
  let ?H = "(Blocks s)(p \<mapsto> b)"
  have seg0: "dlseg ?H (last xs) xs (hd xs)"
    using seg dlseg_cong[of xs "Blocks s" ?H] pn by auto
  obtain bl where bl: "?H (last xs) = Some bl" using dlseg_live[OF seg0] False by (meson last_in_set)
  let ?H1 = "?H(last xs \<mapsto> bl\<lparr>Next := p\<rparr>)"
  have seg1: "dlseg ?H1 (last xs) xs p" by (rule dlseg_set_Next[OF seg0 False d(1) bl])
  obtain bh where bh: "?H1 (hd xs) = Some bh" using dlseg_live[OF seg1] False by (meson hd_in_set)
  let ?H2 = "?H1(hd xs \<mapsto> bh\<lparr>Previous := p\<rparr>)"
  have seg2: "dlseg ?H2 p xs p" by (rule dlseg_set_Previous[OF seg1 False d(1) bh])
  have "ring ?H2 (xs @ [p])"
    using seg2 d pn p(2) hz False by (simp add: ring_def dlseg_append b_def)
  moreover have "append_block s k p A h = Some (s\<lparr>Blocks := ?H2\<rparr>)"
    using hd False hz f fp bl bh
    by (auto simp: append_block_def head_def Let_def set_Next_def set_Previous_def b_def[symmetric]
        split: if_splits)
  moreover have "relinked (set xs) (Blocks s) (?H2(p := None))"
    using bl bh hz p False by (auto simp: relinked_def fun_upd_twist split: if_splits)
  moreover have "head (xs @ [p]) = WaitBlocks s k" using hd False by (simp add: head_def)
  ultimately show ?thesis using hz by (intro exI[of _ "s\<lparr>Blocks := ?H2\<rparr>"] exI[of _ b]) (simp add: b_def)
qed

section \<open>Waking\<close>

text \<open>A woken block is out of the list, is marked as removed and its event is set.\<close>

lemma wake_block_ring:
  assumes r: "ring (Blocks s) xs" and hd: "WaitBlocks s k = head xs" and x: "x \<in> set xs"
    and b: "Blocks s x = Some b" and ev: "Events s (EventHandle b) \<noteq> None"
  shows "\<exists>s' b'. wake_block s k x = Some s' \<and> ring (Blocks s') (remove1 x xs) \<and>
    WaitBlocks s' = (WaitBlocks s)(k := head (remove1 x xs)) \<and>
    Events s' = (Events s)(EventHandle b \<mapsto> True) \<and>
    Blocks s' x = Some b' \<and> Previous b' = NULL \<and> relinked (set xs) (Blocks s) (Blocks s')"
proof -
  from KexRtlpRemoveWoaWaitBlock_ring[OF r hd x] obtain s1 where
    s1: "KexRtlpRemoveWoaWaitBlock s k x = Some s1" "ring (Blocks s1) (remove1 x xs)"
      "WaitBlocks s1 = (WaitBlocks s)(k := head (remove1 x xs))" "Events s1 = Events s"
      "relinked (set xs - {x}) (Blocks s) (Blocks s1)" by blast
  have b1: "Blocks s1 x = Some b" using s1(5) b by (simp add: relinked_def)
  let ?s2 = "s1\<lparr>Blocks := (Blocks s1)(x \<mapsto> b\<lparr>Previous := NULL\<rparr>)\<rparr>"
  have "x \<notin> set (remove1 x xs)" using r by (simp add: ring_def)
  then have "ring (Blocks ?s2) (remove1 x xs)"
    using s1(2) ring_cong[of "remove1 x xs" "Blocks s1" "Blocks ?s2"] by auto
  moreover have "relinked (set xs) (Blocks s) (Blocks ?s2)"
    using relinked_trans[OF s1(5) relinked_upd(2)[where H = "Blocks s1" and A = "{x}" and v = NULL, OF b1]] x
    by (simp add: insert_absorb)
  ultimately show ?thesis
    using s1 b1 ev by (auto simp: wake_block_def set_Previous_def NtSetEvent_def)
qed

text \<open>The blocks of a list that wait on an address.\<close>

definition waits_on :: "(wptr \<rightharpoonup> WAIT_BLOCK) \<Rightarrow> 32 word \<Rightarrow> wptr \<Rightarrow> bool" where
  "waits_on H A p \<longleftrightarrow> (\<exists>b. H p = Some b \<and> Address b = A)"

lemma waits_on_relinked: "relinked S H H' \<Longrightarrow> waits_on H' A = waits_on H A"
proof
  fix p
  assume "relinked S H H'"
  then have "map_option (\<lambda>b. (Address b, EventHandle b)) (H' p) = map_option (\<lambda>b. (Address b, EventHandle b)) (H p)"
    by (simp add: relinked_def)
  then show "waits_on H' A p = waits_on H A p"
    by (cases "H p"; cases "H' p") (auto simp: waits_on_def)
qed

text \<open>\<open>woke k xs W s s'\<close>: from the list \<open>xs\<close> of bucket \<open>k\<close>, the blocks in \<open>W\<close> were woken.\<close>

definition woke :: "nat \<Rightarrow> wptr list \<Rightarrow> wptr set \<Rightarrow> woa \<Rightarrow> woa \<Rightarrow> bool" where
  "woke k xs W s s' \<longleftrightarrow> W \<subseteq> set xs \<and> ring (Blocks s') (filter (\<lambda>p. p \<notin> W) xs) \<and>
     WaitBlocks s' = (WaitBlocks s)(k := head (filter (\<lambda>p. p \<notin> W) xs)) \<and>
     Events s' = (\<lambda>h. if \<exists>p b. p \<in> W \<and> Blocks s p = Some b \<and> EventHandle b = h then Some True else Events s h) \<and>
     (\<forall>p \<in> W. \<exists>b. Blocks s' p = Some b \<and> Previous b = NULL) \<and>
     relinked (set xs) (Blocks s) (Blocks s')"

definition bucket_ok :: "woa \<Rightarrow> nat \<Rightarrow> wptr list \<Rightarrow> bool" where
  "bucket_ok s k xs \<longleftrightarrow> ring (Blocks s) xs \<and> WaitBlocks s k = head xs \<and>
     (\<forall>p \<in> set xs. \<forall>b. Blocks s p = Some b \<longrightarrow> Events s (EventHandle b) \<noteq> None)"

lemma relinked_event:
  assumes "relinked A H H'" "H' p = Some b'"
  shows "\<exists>b. H p = Some b \<and> EventHandle b = EventHandle b' \<and> Address b = Address b'"
proof -
  have "map_option (\<lambda>b. (Address b, EventHandle b)) (H' p) = map_option (\<lambda>b. (Address b, EventHandle b)) (H p)"
    using assms(1) by (simp add: relinked_def)
  then show ?thesis using assms(2) by (cases "H p") auto
qed

lemma relinked_sym: "relinked A H H' \<Longrightarrow> relinked A H' H"
  by (simp add: relinked_def)

lemma woke_none: "bucket_ok s k xs \<Longrightarrow> woke k xs {} s s"
  by (auto simp: woke_def bucket_ok_def relinked_refl fun_eq_iff)

lemma filter_neq [simp]: "x \<notin> set xs \<Longrightarrow> filter (\<lambda>p. p \<noteq> x) xs = xs"
  by (induction xs) auto

lemma filter_remove1: "distinct xs \<Longrightarrow> filter (\<lambda>p. p \<noteq> x) xs = remove1 x xs"
  by (induction xs) auto

lemma wake_block_woke:
  assumes ok: "bucket_ok s k xs" and x: "x \<in> set xs"
  shows "\<exists>s'. wake_block s k x = Some s' \<and> woke k xs {x} s s'"
proof -
  have r: "ring (Blocks s) xs" and hd: "WaitBlocks s k = head xs" and d: "distinct xs"
    using ok by (auto simp: bucket_ok_def ring_def)
  obtain b where b: "Blocks s x = Some b" using ring_live[OF r x] by blast
  then have "Events s (EventHandle b) \<noteq> None" using ok x by (auto simp: bucket_ok_def)
  from wake_block_ring[OF r hd x b this] show ?thesis
    using b x by (auto simp: woke_def filter_remove1[OF d] fun_eq_iff)
qed

lemma woke_ok:
  assumes "bucket_ok s k xs" "woke k xs W s s'"
  shows "bucket_ok s' k (filter (\<lambda>p. p \<notin> W) xs)"
proof -
  have "Events s' (EventHandle b') \<noteq> None" if "p \<in> set xs" "Blocks s' p = Some b'" for p b'
  proof -
    have "relinked (set xs) (Blocks s) (Blocks s')" using assms(2) by (simp add: woke_def)
    from relinked_event[OF this that(2)] that(1) assms show ?thesis
      by (auto simp: woke_def bucket_ok_def)
  qed
  moreover have "ring (Blocks s') (filter (\<lambda>p. p \<notin> W) xs)"
    "WaitBlocks s' k = head (filter (\<lambda>p. p \<notin> W) xs)" using assms(2) by (simp_all add: woke_def)
  ultimately show ?thesis unfolding bucket_ok_def by auto
qed

lemma woke_trans:
  assumes "woke k xs W s s'" "woke k (filter (\<lambda>p. p \<notin> W) xs) V s' s''"
  shows "woke k xs (W \<union> V) s s''"
proof -
  let ?ys = "filter (\<lambda>p. p \<notin> W) xs"
  have rl: "relinked (set xs) (Blocks s) (Blocks s')" "relinked (set ?ys) (Blocks s') (Blocks s'')"
    using assms by (auto simp: woke_def)
  have f: "filter (\<lambda>p. p \<notin> V) ?ys = filter (\<lambda>p. p \<notin> W \<union> V) xs" by (simp add: conj_commute)
  have "set xs \<union> set ?ys = set xs" by auto
  then have "relinked (set xs) (Blocks s) (Blocks s'')" using relinked_trans[OF rl] by simp
  moreover have "\<exists>b. Blocks s'' p = Some b \<and> Previous b = NULL" if "p \<in> W \<union> V" for p
  proof (cases "p \<in> V")
    case False
    then have "p \<in> W" "p \<notin> set ?ys" using that by auto
    then show ?thesis using assms(1) rl(2) by (auto simp: woke_def relinked_def)
  qed (use assms(2) in \<open>auto simp: woke_def\<close>)
  moreover have "(\<exists>p b. p \<in> V \<and> Blocks s' p = Some b \<and> EventHandle b = h) \<longleftrightarrow>
      (\<exists>p b. p \<in> V \<and> Blocks s p = Some b \<and> EventHandle b = h)" for h
    using relinked_event[OF rl(1)] relinked_event[OF relinked_sym[OF rl(1)]] by metis
  then have "Events s'' = (\<lambda>h. if \<exists>p b. p \<in> W \<union> V \<and> Blocks s p = Some b \<and> EventHandle b = h
      then Some True else Events s h)"
    using assms by (auto simp: woke_def fun_eq_iff)
  ultimately show ?thesis
    using assms f unfolding woke_def by (simp add: le_infI1) blast
qed

section \<open>The wake loop\<close>

lemma ring_Next:
  assumes "ring H (us @ x # ws)" "H x = Some b"
  shows "Next b = (case ws of [] \<Rightarrow> hd (us @ [x]) | y # ys \<Rightarrow> y)"
proof -
  have r: "ring H (x # ws @ us)" using assms(1) ring_rotate[of H us "x # ws"] by simp
  show ?thesis using ring_neighbours(1)[OF r assms(2)] by (cases ws) auto
qed

text \<open>One step of the loop at a block that does not wait on the address.\<close>

lemma wake_loop_skip:
  assumes ok: "bucket_ok s k (us @ x # ws)" and no: "\<not> waits_on (Blocks s) A x"
  shows "wake_loop A all k x s = (case ws of [] \<Rightarrow> Some s | y # ys \<Rightarrow> wake_loop A all k y s)"
proof -
  have r: "ring (Blocks s) (us @ x # ws)" using ok by (simp add: bucket_ok_def)
  obtain b where b: "Blocks s x = Some b" using ring_live[OF r, of x] by auto
  have hd: "WaitBlocks s k = hd (us @ [x])" "WaitBlocks s k \<noteq> 0"
    using ok ring_live[OF r, of "hd (us @ x # ws)"] by (auto simp: bucket_ok_def head_def hd_append)
  have "y \<noteq> hd (us @ [x])" if "ws = y # ys" for y ys
    using r that by (cases us) (auto simp: ring_def)
  then show ?thesis
    using b no hd ring_Next[OF r b]
    by (subst wake_loop.simps) (auto simp: waits_on_def Let_def split: list.splits)
qed

lemma wake_single_loop:
  assumes "bucket_ok s k (us @ ws)" "ws \<noteq> []"
  shows "\<exists>s'. wake_loop A False k (hd ws) s = Some s' \<and>
    woke k (us @ ws) (set_option (find (waits_on (Blocks s) A) ws)) s s'"
  using assms
proof (induction ws arbitrary: us)
  case (Cons x ws)
  have r: "ring (Blocks s) (us @ x # ws)" using Cons.prems by (simp add: bucket_ok_def)
  show ?case
  proof (cases "waits_on (Blocks s) A x")
    case True
    then obtain b where b: "Blocks s x = Some b" "Address b = A" by (auto simp: waits_on_def)
    from wake_block_woke[OF Cons.prems(1), of x] obtain s' where
      s': "wake_block s k x = Some s'" "woke k (us @ x # ws) {x} s s'" by auto
    then show ?thesis using True b by (subst wake_loop.simps) (simp add: Let_def)
  next
    case False
    show ?thesis
    proof (cases ws)
      case Nil
      then show ?thesis
        using wake_loop_skip[OF Cons.prems(1) False] woke_none[OF Cons.prems(1)] False by simp
    next
      case (Cons y ys)
      then show ?thesis
        using wake_loop_skip[OF Cons.prems(1) False, of False] Cons.IH[of "us @ [x]"] Cons.prems(1) False
        by simp
    qed
  qed
qed simp

text \<open>The wake-all loop past the head: the head does not wait on the address and stays in place.\<close>

lemma wake_all_loop:
  assumes "bucket_ok s k (x # us @ ws)" "ws \<noteq> []"
  shows "\<exists>s'. wake_loop A True k (hd ws) s = Some s' \<and>
    woke k (x # us @ ws) {p \<in> set ws. waits_on (Blocks s) A p} s s'"
  using assms
proof (induction ws arbitrary: us s)
  case (Cons y ws)
  let ?xs = "x # us @ y # ws"
  have r: "ring (Blocks s) ?xs" using Cons.prems by (simp add: bucket_ok_def)
  have dist: "distinct ?xs" using r by (simp add: ring_def)
  have ok: "bucket_ok s k ((x # us) @ y # ws)" using Cons.prems by simp
  show ?case
  proof (cases "waits_on (Blocks s) A y")
    case False
    show ?thesis
    proof (cases ws)
      case Nil
      then show ?thesis
        using wake_loop_skip[OF ok False] woke_none[OF Cons.prems(1)] False by (simp add: Collect_conv_if)
    next
      case (Cons z zs)
      have "{p \<in> set (y # ws). waits_on (Blocks s) A p} = {p \<in> set ws. waits_on (Blocks s) A p}"
        using False by auto
      then show ?thesis
        using wake_loop_skip[OF ok False, of True] Cons.IH[of s "us @ [y]"] Cons.prems(1) Cons by simp
    qed
  next
    case True
    then obtain b where b: "Blocks s y = Some b" "Address b = A" by (auto simp: waits_on_def)
    from wake_block_woke[OF Cons.prems(1), of y] obtain s1 where
      s1: "wake_block s k y = Some s1" "woke k ?xs {y} s s1" by auto
    have f: "filter (\<lambda>p. p \<notin> {y}) ?xs = x # us @ ws" using dist by auto
    have ok1: "bucket_ok s1 k (x # us @ ws)" using woke_ok[OF Cons.prems(1) s1(2)] unfolding f .
    have hd1: "WaitBlocks s1 k = x" "x \<noteq> 0" using ok1 r by (auto simp: bucket_ok_def ring_def)
    have nx: "Next b = (case ws of [] \<Rightarrow> x | z # zs \<Rightarrow> z)"
      using ring_Next[of "Blocks s" "x # us" y ws b] r b by (simp split: list.splits)
    have on: "waits_on (Blocks s1) A = waits_on (Blocks s) A"
      using s1(2) by (intro waits_on_relinked) (auto simp: woke_def)
    show ?thesis
    proof (cases ws)
      case Nil
      then show ?thesis
        using s1 b hd1 nx True by (subst wake_loop.simps) (simp add: Let_def Collect_conv_if)
    next
      case ws: (Cons z zs)
      then have zx: "z \<noteq> x" using dist by auto
      from Cons.IH[OF ok1] ws obtain s2 where
        s2: "wake_loop A True k z s1 = Some s2" "woke k (x # us @ ws) {p \<in> set ws. waits_on (Blocks s) A p} s1 s2"
        unfolding on by auto
      have "wake_loop A True k y s = Some s2"
        using s1(1) b hd1 nx ws zx s2(1) by (subst wake_loop.simps) (simp add: Let_def)
      moreover have "woke k ?xs ({y} \<union> {p \<in> set ws. waits_on (Blocks s) A p}) s s2"
        using woke_trans[OF s1(2)] s2(2) unfolding f by blast
      moreover have "{y} \<union> {p \<in> set ws. waits_on (Blocks s) A p} = {p \<in> set (y # ws). waits_on (Blocks s) A p}"
        using True by auto
      ultimately show ?thesis by simp
    qed
  qed
qed simp

definition woken_by_all :: "(wptr \<rightharpoonup> WAIT_BLOCK) \<Rightarrow> 32 word \<Rightarrow> wptr list \<Rightarrow> wptr set" where
  "woken_by_all H A xs = (if xs \<noteq> [] \<and> waits_on H A (hd xs) then {hd xs} else {p \<in> set xs. waits_on H A p})"

lemma head_zero: "ring H xs \<Longrightarrow> head xs = NULL \<longleftrightarrow> xs = []"
  by (cases xs) (auto simp: ring_def)

lemma RtlWakeAddressSingle_bucket:
  assumes "bucket_ok s (KexRtlpGetWoaHashBucket A) xs"
  shows "\<exists>s'. RtlWakeAddressSingle A s = Some s' \<and>
    woke (KexRtlpGetWoaHashBucket A) xs (set_option (find (waits_on (Blocks s) A) xs)) s s'"
proof (cases "xs = []")
  case True
  then show ?thesis
    using assms woke_none[OF assms]
    by (simp add: RtlWakeAddressSingle_def RtlpWakeByAddress_def Let_def bucket_ok_def)
next
  case False
  have "WaitBlocks s (KexRtlpGetWoaHashBucket A) = hd xs" "hd xs \<noteq> 0"
    using assms False head_zero[of "Blocks s" xs] by (auto simp: bucket_ok_def head_def)
  then show ?thesis
    using wake_single_loop[of s _ "[]" xs A] assms False
    by (simp add: RtlWakeAddressSingle_def RtlpWakeByAddress_def Let_def)
qed

lemma RtlWakeAddressAll_bucket:
  assumes "bucket_ok s (KexRtlpGetWoaHashBucket A) xs"
  shows "\<exists>s'. RtlWakeAddressAll A s = Some s' \<and>
    woke (KexRtlpGetWoaHashBucket A) xs (woken_by_all (Blocks s) A xs) s s'"
proof (cases xs)
  case Nil
  then show ?thesis
    using assms woke_none[OF assms]
    by (simp add: RtlWakeAddressAll_def RtlpWakeByAddress_def Let_def bucket_ok_def woken_by_all_def)
next
  case (Cons x ys)
  let ?k = "KexRtlpGetWoaHashBucket A"
  have r: "ring (Blocks s) (x # ys)" and hd: "WaitBlocks s ?k = x" and nz: "x \<noteq> 0"
    using assms Cons by (auto simp: bucket_ok_def ring_def)
  have eq: "RtlWakeAddressAll A s = wake_loop A True ?k x s"
    using hd nz by (simp add: RtlWakeAddressAll_def RtlpWakeByAddress_def Let_def)
  have ok: "bucket_ok s ?k ([] @ x # ys)" using assms Cons by simp
  show ?thesis
  proof (cases "waits_on (Blocks s) A x")
    case True
    then obtain b where b: "Blocks s x = Some b" "Address b = A" by (auto simp: waits_on_def)
    from wake_block_woke[OF assms, of x] Cons obtain s1 where
      s1: "wake_block s ?k x = Some s1" "woke ?k xs {x} s s1" by auto
    have f: "filter (\<lambda>p. p \<notin> {x}) xs = ys" using r Cons by (auto simp: ring_def)
    have "WaitBlocks s1 ?k = head ys" using s1(2) unfolding woke_def f by simp
    moreover have "Next b = hd (ys @ [x])" using ring_neighbours(1)[OF r b(1)] .
    ultimately have "wake_loop A True ?k x s = Some s1"
      using b s1(1) by (subst wake_loop.simps) (cases ys; simp add: Let_def)
    then show ?thesis using eq s1(2) True Cons by (simp add: woken_by_all_def)
  next
    case False
    then have W: "woken_by_all (Blocks s) A xs = {p \<in> set ys. waits_on (Blocks s) A p}"
      using Cons by (auto simp: woken_by_all_def)
    show ?thesis
    proof (cases ys)
      case Nil
      then show ?thesis
        using wake_loop_skip[OF ok False, of True] woke_none[OF assms] eq W by simp
    next
      case ys: (Cons y zs)
      then show ?thesis
        using wake_loop_skip[OF ok False, of True] wake_all_loop[of s ?k x "[]" ys A] assms eq W Cons by simp
    qed
  qed
qed

end
