(* ===== verification/Woa_Machine.thy ===== *)
theory Woa_Machine
  imports Woa_Lists
begin

text \<open>Threads that wait on addresses and wake each other, interleaved at the bucket locks: the steps,
  the invariant that links threads, blocks, lists and events, and the properties of the component.\<close>

section \<open>Steps\<close>

text \<open>A thread is outside the component (\<open>Running\<close>), in the kernel wait of \<open>RtlWaitOnAddress\<close>
  (\<open>Blocked\<close>, with its block and its address), or has returned from that wait with a status
  (\<open>Leaving\<close>).\<close>

datatype wpc = Running | Blocked wptr "32 word" | Leaving wptr "32 word" NTSTATUS

record sys =
  shared :: woa
  threads :: "nat \<Rightarrow> wpc"

text \<open>The block of a thread that enters is a new stack variable; \<open>NtCreateEvent\<close> returns an unused
  handle; the wait returns \<open>STATUS_SUCCESS\<close> only when the event is signalled, and may time out or
  fail at any time.\<close>

inductive step :: "sys \<Rightarrow> sys \<Rightarrow> bool" where
  enter_return: "threads x t = Running \<Longrightarrow>
    RtlWaitOnAddress_enter mem (st, h) p A C n (shared x) = Some (Inl st', s') \<Longrightarrow>
    step x (x\<lparr>shared := s'\<rparr>)"
| enter_block: "threads x t = Running \<Longrightarrow> Blocks (shared x) p = None \<Longrightarrow> p \<noteq> NULL \<Longrightarrow> Events (shared x) h = None \<Longrightarrow>
    RtlWaitOnAddress_enter mem (st, h) p A C n (shared x) = Some (Inr u, s') \<Longrightarrow>
    step x (x\<lparr>shared := s', threads := (threads x)(t := Blocked p A)\<rparr>)"
| wait_woken: "threads x t = Blocked p A \<Longrightarrow> Blocks (shared x) p = Some b \<Longrightarrow>
    Events (shared x) (EventHandle b) = Some True \<Longrightarrow>
    step x (x\<lparr>threads := (threads x)(t := Leaving p A STATUS_SUCCESS)\<rparr>)"
| wait_failed: "threads x t = Blocked p A \<Longrightarrow> st = STATUS_TIMEOUT \<or> \<not> NT_SUCCESS st \<Longrightarrow>
    step x (x\<lparr>threads := (threads x)(t := Leaving p A st)\<rparr>)"
| leave: "threads x t = Leaving p A st \<Longrightarrow> RtlWaitOnAddress_exit p A st (shared x) = Some (st', s') \<Longrightarrow>
    step x (x\<lparr>shared := s', threads := (threads x)(t := Running)\<rparr>)"
| wake: "threads x t = Running \<Longrightarrow> RtlpWakeByAddress A all (shared x) = Some s' \<Longrightarrow>
    step x (x\<lparr>shared := s'\<rparr>)"

definition woa_init :: woa where
  "woa_init = \<lparr>Blocks = Map.empty, WaitBlocks = (\<lambda>_. NULL), Events = Map.empty\<rparr>"

definition sys_init :: sys where
  "sys_init = \<lparr>shared = woa_init, threads = (\<lambda>_. Running)\<rparr>"

inductive reachable :: "sys \<Rightarrow> bool" where
  init: "reachable sys_init"
| step: "reachable x \<Longrightarrow> step x y \<Longrightarrow> reachable y"

section \<open>Invariant\<close>

fun owns :: "wpc \<Rightarrow> wptr \<Rightarrow> 32 word \<Rightarrow> bool" where
  "owns Running p A = False"
| "owns (Blocked q B) p A = (p = q \<and> A = B)"
| "owns (Leaving q B st) p A = (p = q \<and> A = B)"

abbreviation (input) hash :: "32 word \<Rightarrow> nat" where
  "hash \<equiv> KexRtlpGetWoaHashBucket"

text \<open>The lists: each bucket's list is a ring of live blocks whose addresses belong to the bucket and
  whose events are not signalled.\<close>

definition lists_inv :: "woa \<Rightarrow> (nat \<Rightarrow> wptr list) \<Rightarrow> bool" where
  "lists_inv s Q \<longleftrightarrow> (\<forall>k. ring (Blocks s) (Q k) \<and> WaitBlocks s k = head (Q k)) \<and>
     (\<forall>k p b. p \<in> set (Q k) \<longrightarrow> Blocks s p = Some b \<longrightarrow> hash (Address b) = k \<and> Events s (EventHandle b) = Some False)"

text \<open>The events: live blocks have different events.\<close>

definition events_inv :: "woa \<Rightarrow> bool" where
  "events_inv s \<longleftrightarrow> (\<forall>p b. Blocks s p = Some b \<longrightarrow> Events s (EventHandle b) \<noteq> None) \<and>
     (\<forall>p q b c. Blocks s p = Some b \<longrightarrow> Blocks s q = Some c \<longrightarrow> EventHandle b = EventHandle c \<longrightarrow> p = q)"

text \<open>The threads: a thread in the component owns a live block, which is in its list or has been
  removed and signalled; a thread that was woken has been removed; no block has two owners, and every
  block in a list has one.\<close>

definition threads_inv :: "woa \<Rightarrow> (nat \<Rightarrow> wpc) \<Rightarrow> (nat \<Rightarrow> wptr list) \<Rightarrow> bool" where
  "threads_inv s T Q \<longleftrightarrow>
     (\<forall>t p A. owns (T t) p A \<longrightarrow> (\<exists>b. Blocks s p = Some b \<and> Address b = A \<and>
        (p \<in> set (Q (hash A)) \<or> Previous b = NULL \<and> Events s (EventHandle b) = Some True))) \<and>
     (\<forall>t p A. T t = Leaving p A STATUS_SUCCESS \<longrightarrow> p \<notin> set (Q (hash A))) \<and>
     (\<forall>t u p A B. owns (T t) p A \<longrightarrow> owns (T u) p B \<longrightarrow> t = u) \<and>
     (\<forall>k p. p \<in> set (Q k) \<longrightarrow> (\<exists>t A. owns (T t) p A))"

definition sys_inv :: "sys \<Rightarrow> (nat \<Rightarrow> wptr list) \<Rightarrow> bool" where
  "sys_inv x Q \<longleftrightarrow> lists_inv (shared x) Q \<and> events_inv (shared x) \<and> threads_inv (shared x) (threads x) Q"

lemma sys_inv_init: "sys_inv sys_init (\<lambda>_. [])"
  by (simp add: sys_inv_def lists_inv_def events_inv_def threads_inv_def sys_init_def woa_init_def)

lemma lists_invD:
  assumes "lists_inv s Q"
  shows "ring (Blocks s) (Q k)" "WaitBlocks s k = head (Q k)"
    "p \<in> set (Q k) \<Longrightarrow> Blocks s p = Some b \<Longrightarrow> hash (Address b) = k"
    "p \<in> set (Q k) \<Longrightarrow> Blocks s p = Some b \<Longrightarrow> Events s (EventHandle b) = Some False"
    "p \<in> set (Q k) \<Longrightarrow> \<exists>b. Blocks s p = Some b"
  using assms ring_live[of "Blocks s" "Q k" p] unfolding lists_inv_def by blast+

lemma threads_invD:
  assumes "threads_inv s T Q"
  shows "owns (T t) p A \<Longrightarrow> \<exists>b. Blocks s p = Some b \<and> Address b = A \<and>
        (p \<in> set (Q (hash A)) \<or> Previous b = NULL \<and> Events s (EventHandle b) = Some True)"
    "T t = Leaving p A STATUS_SUCCESS \<Longrightarrow> p \<notin> set (Q (hash A))"
    "owns (T t) p A \<Longrightarrow> owns (T u) p B \<Longrightarrow> t = u"
    "p \<in> set (Q k) \<Longrightarrow> \<exists>t A. owns (T t) p A"
  using assms unfolding threads_inv_def by blast+

lemma threads_invI:
  assumes "\<And>t p A. owns (T t) p A \<Longrightarrow> \<exists>b. Blocks s p = Some b \<and> Address b = A \<and>
        (p \<in> set (Q (hash A)) \<or> Previous b = NULL \<and> Events s (EventHandle b) = Some True)"
    "\<And>t p A. T t = Leaving p A STATUS_SUCCESS \<Longrightarrow> p \<notin> set (Q (hash A))"
    "\<And>t u p A B. owns (T t) p A \<Longrightarrow> owns (T u) p B \<Longrightarrow> t = u"
    "\<And>k p. p \<in> set (Q k) \<Longrightarrow> \<exists>t A. owns (T t) p A"
  shows "threads_inv s T Q"
  unfolding threads_inv_def using assms by blast

text \<open>The threads' part of the invariant after a thread has left and lists have shrunk.\<close>

lemma threads_drop:
  assumes ti: "threads_inv s T Q" and sub: "\<And>j. set (Q' j) \<subseteq> set (Q j)"
    and own: "\<And>u p A. u \<noteq> t \<Longrightarrow> owns (T u) p A \<Longrightarrow> \<exists>b. Blocks s' p = Some b \<and> Address b = A \<and>
        (p \<in> set (Q' (hash A)) \<or> Previous b = NULL \<and> Events s' (EventHandle b) = Some True)"
    and other: "\<And>j p A. p \<in> set (Q' j) \<Longrightarrow> \<not> owns (T t) p A"
  shows "threads_inv s' (T(t := Running)) Q'"
proof (rule threads_invI)
  fix u p A
  assume "owns ((T(t := Running)) u) p A"
  then show "\<exists>b. Blocks s' p = Some b \<and> Address b = A \<and>
        (p \<in> set (Q' (hash A)) \<or> Previous b = NULL \<and> Events s' (EventHandle b) = Some True)"
    using own by (cases "u = t") auto
next
  fix u p A
  assume "(T(t := Running)) u = Leaving p A STATUS_SUCCESS"
  then have "T u = Leaving p A STATUS_SUCCESS" by (cases "u = t") auto
  then show "p \<notin> set (Q' (hash A))" using threads_invD(2)[OF ti] sub by blast
next
  fix u v p A B
  assume "owns ((T(t := Running)) u) p A" "owns ((T(t := Running)) v) p B"
  then have "owns (T u) p A" "owns (T v) p B" by (cases "u = t"; cases "v = t"; simp)+
  then show "u = v" by (rule threads_invD(3)[OF ti])
next
  fix k p
  assume p: "p \<in> set (Q' k)"
  then obtain u A where u: "owns (T u) p A" using threads_invD(4)[OF ti] sub by blast
  then have "u \<noteq> t" using other[OF p] by blast
  then show "\<exists>u A. owns ((T(t := Running)) u) p A" using u by (intro exI[of _ u] exI[of _ A]) simp
qed

lemma lists_disjoint:
  assumes "lists_inv s Q" "p \<in> set (Q k)" "p \<in> set (Q j)"
  shows "k = j"
  using lists_invD(3)[OF assms(1,2)] lists_invD(3)[OF assms(1,3)] lists_invD(5)[OF assms(1,2)] by blast

lemma bucket_ok_inv: "lists_inv s Q \<Longrightarrow> bucket_ok s k (Q k)"
  unfolding bucket_ok_def lists_inv_def by (metis option.distinct(1))

section \<open>Preservation\<close>

text \<open>Waking some blocks of one list.\<close>

lemma woke_lists:
  assumes li: "lists_inv s Q" and ei: "events_inv s" and w: "woke k (Q k) W s s'"
  shows "lists_inv s' (Q(k := filter (\<lambda>p. p \<notin> W) (Q k)))"
proof -
  let ?Q = "Q(k := filter (\<lambda>p. p \<notin> W) (Q k))"
  have rl: "relinked (set (Q k)) (Blocks s) (Blocks s')" and W: "W \<subseteq> set (Q k)" using w by (auto simp: woke_def)
  have "ring (Blocks s') (?Q j) \<and> WaitBlocks s' j = head (?Q j)" for j
  proof (cases "j = k")
    case False
    have "\<forall>p \<in> set (Q j). Blocks s p = Blocks s' p"
      using rl lists_disjoint[OF li, of _ j k] False unfolding relinked_def by metis
    then show ?thesis using li False w ring_cong[of "Q j"] by (auto simp: lists_inv_def woke_def)
  qed (use w in \<open>auto simp: woke_def\<close>)
  moreover have "hash (Address b') = j \<and> Events s' (EventHandle b') = Some False"
    if pq: "p \<in> set (?Q j)" and pb: "Blocks s' p = Some b'" for j p b'
  proof -
    obtain b where b: "Blocks s p = Some b" "EventHandle b = EventHandle b'" "Address b = Address b'"
      using relinked_event[OF rl pb] by blast
    have p: "p \<in> set (Q j)" "p \<notin> W"
      using pq W lists_disjoint[OF li] by (auto split: if_splits)
    then have "\<not> (\<exists>q c. q \<in> W \<and> Blocks s q = Some c \<and> EventHandle c = EventHandle b')"
      using ei b p(2) unfolding events_inv_def by metis
    then have "Events s' (EventHandle b') = Events s (EventHandle b')" using w by (auto simp: woke_def)
    then show ?thesis using lists_invD(3,4)[OF li p(1) b(1)] b by simp
  qed
  ultimately show ?thesis unfolding lists_inv_def by blast
qed

lemma woke_events:
  assumes "events_inv s" "woke k xs W s s'"
  shows "events_inv s'"
proof -
  have rl: "relinked (set xs) (Blocks s) (Blocks s')" using assms(2) by (simp add: woke_def)
  have "Events s' h \<noteq> None" if "Events s h \<noteq> None" for h using that assms(2) by (auto simp: woke_def)
  then show ?thesis
    using assms(1) relinked_event[OF rl] unfolding events_inv_def by metis
qed

lemma woke_threads:
  assumes li: "lists_inv s Q" and ti: "threads_inv s T Q" and w: "woke k (Q k) W s s'"
  shows "threads_inv s' T (Q(k := filter (\<lambda>p. p \<notin> W) (Q k)))"
proof -
  let ?Q = "Q(k := filter (\<lambda>p. p \<notin> W) (Q k))"
  have rl: "relinked (set (Q k)) (Blocks s) (Blocks s')" and W: "W \<subseteq> set (Q k)" using w by (auto simp: woke_def)
  have "\<exists>b. Blocks s' p = Some b \<and> Address b = A \<and>
      (p \<in> set (?Q (hash A)) \<or> Previous b = NULL \<and> Events s' (EventHandle b) = Some True)"
    if own: "owns (T t) p A" for t p A
  proof -
    obtain b where b: "Blocks s p = Some b" "Address b = A"
      "p \<in> set (Q (hash A)) \<or> Previous b = NULL \<and> Events s (EventHandle b) = Some True"
      using threads_invD(1)[OF ti own] by blast
    obtain b' where b': "Blocks s' p = Some b'" "EventHandle b' = EventHandle b" "Address b' = A"
      using relinked_event[OF relinked_sym[OF rl] b(1)] b(2) by blast
    show ?thesis
    proof (cases "p \<in> W")
      case True
      then show ?thesis using w b b' unfolding woke_def by fastforce
    next
      case False
      show ?thesis
      proof (cases "p \<in> set (Q (hash A))")
        case True
        then show ?thesis using b' False by auto
      next
        case out: False
        then have prev: "Previous b = NULL" "Events s (EventHandle b) = Some True" using b(3) by auto
        have "p \<notin> set (Q k)"
          using prev ring_Previous[OF lists_invD(1)[OF li, of k], of p b] b(1) by blast
        then have "b' = b" using rl b(1) b'(1) by (simp add: relinked_def)
        then show ?thesis using b' b prev w by (auto simp: woke_def)
      qed
    qed
  qed
  moreover have "set (?Q j) \<subseteq> set (Q j)" for j by auto
  ultimately show ?thesis using ti unfolding threads_inv_def by blast
qed

text \<open>A thread that leaves: its block is unlinked if it is still in its list, then freed.\<close>

lemma relinked_events_inv:
  assumes "events_inv s" "relinked S (Blocks s) (Blocks s')" "Events s' = Events s"
  shows "events_inv s'"
  using assms(1,3) relinked_event[OF assms(2)] unfolding events_inv_def by metis

lemma remove_inv:
  assumes li: "lists_inv s Q" and ti: "threads_inv s T Q" and t: "owns (T t) p A" and p: "p \<in> set (Q (hash A))"
  shows "\<exists>s'. KexRtlpRemoveWoaWaitBlock s (hash A) p = Some s' \<and> Events s' = Events s \<and> Blocks s' p = Blocks s p \<and>
    lists_inv s' (Q(hash A := remove1 p (Q (hash A)))) \<and>
    threads_inv s' (T(t := Running)) (Q(hash A := remove1 p (Q (hash A)))) \<and>
    relinked (set (Q (hash A))) (Blocks s) (Blocks s')"
proof -
  let ?k = "hash A"
  let ?Q = "Q(?k := remove1 p (Q ?k))"
  from KexRtlpRemoveWoaWaitBlock_ring[OF lists_invD(1,2)[OF li] p] obtain s' where
    s': "KexRtlpRemoveWoaWaitBlock s ?k p = Some s'" "ring (Blocks s') (remove1 p (Q ?k))"
      "WaitBlocks s' = (WaitBlocks s)(?k := head (remove1 p (Q ?k)))" "Events s' = Events s"
      and rl: "relinked (set (Q ?k) - {p}) (Blocks s) (Blocks s')" by blast
  have d: "distinct (Q ?k)" using lists_invD(1)[OF li, of ?k] by (simp add: ring_def)
  have sub: "set (?Q j) \<subseteq> set (Q j)" "p \<notin> set (?Q j)" for j
    using d lists_disjoint[OF li p, of j] by (auto simp: set_remove1_eq)
  have other: "Blocks s' q = Blocks s q" if "q \<notin> set (Q ?k)" for q using rl that by (simp add: relinked_def)
  have "ring (Blocks s') (?Q j) \<and> WaitBlocks s' j = head (?Q j)" for j
  proof (cases "j = ?k")
    case False
    have "\<forall>q \<in> set (Q j). Blocks s q = Blocks s' q" using other lists_disjoint[OF li, of _ j ?k] False by metis
    then show ?thesis using lists_invD(1,2)[OF li, of j] False s'(3) ring_cong[of "Q j"] by auto
  qed (use s' in auto)
  moreover have "hash (Address b') = j \<and> Events s' (EventHandle b') = Some False"
    if "q \<in> set (?Q j)" "Blocks s' q = Some b'" for j q b'
    using relinked_event[OF rl that(2)] lists_invD(3,4)[OF li] sub(1)[of j] that(1) s'(4) by (metis subsetD)
  ultimately have li': "lists_inv s' ?Q" unfolding lists_inv_def by blast
  have own: "\<exists>b. Blocks s' q = Some b \<and> Address b = B \<and>
      (q \<in> set (?Q (hash B)) \<or> Previous b = NULL \<and> Events s' (EventHandle b) = Some True)"
    if ut: "u \<noteq> t" and o: "owns (T u) q B" for u q B
  proof -
    obtain b where b: "Blocks s q = Some b" "Address b = B"
      "q \<in> set (Q (hash B)) \<or> Previous b = NULL \<and> Events s (EventHandle b) = Some True"
      using threads_invD(1)[OF ti o] by blast
    have qp: "q \<noteq> p" using threads_invD(3)[OF ti o] t ut by blast
    obtain b' where b': "Blocks s' q = Some b'" "EventHandle b' = EventHandle b" "Address b' = B"
      using relinked_event[OF relinked_sym[OF rl] b(1)] b(2) by blast
    show ?thesis
    proof (cases "q \<in> set (Q (hash B))")
      case True
      then show ?thesis using b' qp by (auto simp: in_set_remove1)
    next
      case False
      then have "q \<notin> set (Q ?k)" using b ring_Previous[OF lists_invD(1)[OF li, of ?k], of q b] by auto
      then show ?thesis using False b b' other s'(4) by auto
    qed
  qed
  have no: "\<not> owns (T t) q B" if "q \<in> set (?Q j)" for j q B
    using that sub(2)[of j] t by (cases "T t") auto
  have "threads_inv s' (T(t := Running)) ?Q"
    by (rule threads_drop[where Q' = ?Q, OF ti]) (fact sub(1), fact own, fact no)
  moreover have "relinked (set (Q ?k)) (Blocks s) (Blocks s')" "Blocks s' p = Blocks s p"
    using rl by (auto simp: relinked_def)
  ultimately show ?thesis using s' li' by blast
qed

lemma free_inv:
  assumes li: "lists_inv s Q" and ei: "events_inv s" and ti: "threads_inv s (T(t := Running)) Q"
    and b: "Blocks s p = Some b" and out: "\<And>k. p \<notin> set (Q k)" and sole: "\<And>u A. u \<noteq> t \<Longrightarrow> \<not> owns (T u) p A"
  defines "s' \<equiv> s\<lparr>Events := (Events s)(EventHandle b := None), Blocks := (Blocks s)(p := None)\<rparr>"
  shows "lists_inv s' Q \<and> events_inv s' \<and> threads_inv s' (T(t := Running)) Q"
proof -
  have B: "Blocks s' q = (if q = p then None else Blocks s q)" "WaitBlocks s' = WaitBlocks s" for q
    by (simp_all add: s'_def)
  have E: "Events s' (EventHandle c) = Events s (EventHandle c)" if "Blocks s q = Some c" "q \<noteq> p" for q c
    using ei b that by (auto simp: s'_def events_inv_def)
  have "ring (Blocks s') (Q k)" for k
    using lists_invD(1)[OF li, of k] out[of k] ring_cong[of "Q k" "Blocks s" "Blocks s'"] B(1) by auto
  moreover have "hash (Address c) = k \<and> Events s' (EventHandle c) = Some False"
    if "q \<in> set (Q k)" "Blocks s' q = Some c" for k q c
  proof -
    have q: "q \<noteq> p" "Blocks s q = Some c" using that out B(1) by (auto split: if_splits)
    show ?thesis using lists_invD(3,4)[OF li that(1) q(2)] E[OF q(2,1)] by simp
  qed
  ultimately have "lists_inv s' Q" using lists_invD(2)[OF li] unfolding lists_inv_def B(2) by blast
  moreover have "events_inv s'" using ei E unfolding events_inv_def B(1) by (simp split: if_splits)
  moreover have "threads_inv s' (T(t := Running)) Q"
  proof (rule threads_invI)
    fix u q A
    assume o: "owns ((T(t := Running)) u) q A"
    then have "q \<noteq> p" using sole[of u A] by (cases "u = t") auto
    then show "\<exists>c. Blocks s' q = Some c \<and> Address c = A \<and>
        (q \<in> set (Q (hash A)) \<or> Previous c = NULL \<and> Events s' (EventHandle c) = Some True)"
      using threads_invD(1)[OF ti o] E B(1) by auto
  qed (use threads_invD(2-4)[OF ti] in blast)+
  ultimately show ?thesis by blast
qed

lemma leave_inv:
  assumes inv: "sys_inv x Q" and pc: "threads x t = Leaving p A st"
    and st: "st = STATUS_SUCCESS \<or> st = STATUS_TIMEOUT \<or> \<not> NT_SUCCESS st"
  shows "\<exists>s' Q'. RtlWaitOnAddress_exit p A st (shared x) = Some (st, s') \<and>
    sys_inv (x\<lparr>shared := s', threads := (threads x)(t := Running)\<rparr>) Q'"
proof -
  let ?s = "shared x" and ?T = "threads x" and ?fails = "st = STATUS_TIMEOUT \<or> \<not> NT_SUCCESS st"
  have li: "lists_inv ?s Q" and ei: "events_inv ?s" and ti: "threads_inv ?s ?T Q"
    using inv by (auto simp: sys_inv_def)
  have own: "owns (?T t) p A" using pc by simp
  obtain b where b: "Blocks ?s p = Some b" "Address b = A"
    "p \<in> set (Q (hash A)) \<or> Previous b = NULL \<and> Events ?s (EventHandle b) = Some True"
    using threads_invD(1)[OF ti own] by blast
  have sole: "\<not> owns (?T u) p B" if "u \<noteq> t" for u B using threads_invD(3)[OF ti own] that by blast
  have "\<exists>s1 Q'. (if ?fails then KexRtlpRemoveWoaWaitBlock ?s (hash A) p else Some ?s) = Some s1 \<and>
      lists_inv s1 Q' \<and> events_inv s1 \<and> threads_inv s1 (?T(t := Running)) Q' \<and> Blocks s1 p = Some b \<and>
      (\<forall>k. p \<notin> set (Q' k))"
  proof (cases "p \<in> set (Q (hash A))")
    case True
    then have fails: "?fails" using st threads_invD(2)[OF ti] pc by blast
    from remove_inv[OF li ti own True] obtain s1 where
      s1: "KexRtlpRemoveWoaWaitBlock ?s (hash A) p = Some s1" "Events s1 = Events ?s" "Blocks s1 p = Some b"
        "lists_inv s1 (Q(hash A := remove1 p (Q (hash A))))"
        "threads_inv s1 (?T(t := Running)) (Q(hash A := remove1 p (Q (hash A))))"
        "relinked (set (Q (hash A))) (Blocks ?s) (Blocks s1)" using b(1) by auto
    have "distinct (Q (hash A))" using lists_invD(1)[OF li, of "hash A"] by (simp add: ring_def)
    then have "p \<notin> set ((Q(hash A := remove1 p (Q (hash A)))) k)" for k
      using lists_disjoint[OF li True, of k] by auto
    then show ?thesis using s1 fails relinked_events_inv[OF ei s1(6,2)] by auto
  next
    case False
    have out: "p \<notin> set (Q k)" for k using False lists_invD(3)[OF li _ b(1), of k] b(2) by auto
    have "threads_inv ?s (?T(t := Running)) Q"
      using out pc threads_invD(1)[OF ti] by (intro threads_drop[OF ti]) auto
    moreover have "KexRtlpRemoveWoaWaitBlock ?s (hash A) p = Some ?s"
      using False b by (simp add: KexRtlpRemoveWoaWaitBlock_def)
    ultimately show ?thesis using li ei b(1) out by auto
  qed
  then obtain s1 Q' where s1: "(if ?fails then KexRtlpRemoveWoaWaitBlock ?s (hash A) p else Some ?s) = Some s1"
    "lists_inv s1 Q'" "events_inv s1" "threads_inv s1 (?T(t := Running)) Q'" "Blocks s1 p = Some b"
    "\<forall>k. p \<notin> set (Q' k)" by blast
  show ?thesis
    using s1(1,5) free_inv[OF s1(2-5)] s1(6) sole
    unfolding RtlWaitOnAddress_exit_def sys_inv_def s1(1) by fastforce
qed

text \<open>A thread that enters: a new block with a new event at the end of its list.\<close>

lemma append_inv:
  fixes A :: "32 word"
  assumes li: "lists_inv s Q" and ei: "events_inv s" and ti: "threads_inv s T Q"
    and t: "T t = Running" and p: "Blocks s p = None" "p \<noteq> NULL" and h: "Events s h = None"
  defines "Q' \<equiv> Q(hash A := Q (hash A) @ [p])"
  shows "\<exists>s'. append_block (s\<lparr>Events := (Events s)(h \<mapsto> False)\<rparr>) (hash A) p A h = Some s' \<and>
    lists_inv s' Q' \<and> events_inv s' \<and> threads_inv s' (T(t := Blocked p A)) Q'"
proof -
  let ?k = "hash A" and ?s = "s\<lparr>Events := (Events s)(h \<mapsto> False)\<rparr>"
  have "ring (Blocks ?s) (Q ?k)" "WaitBlocks ?s ?k = head (Q ?k)" "Blocks ?s p = None"
    using lists_invD(1,2)[OF li, of ?k] p by auto
  from append_block_ring[OF this p(2), of A h] obtain s' b where
    s': "append_block ?s ?k p A h = Some s'" "ring (Blocks s') (Q ?k @ [p])"
      "WaitBlocks s' = (WaitBlocks s)(?k := head (Q ?k @ [p]))" "Events s' = (Events s)(h \<mapsto> False)"
      "Blocks s' p = Some b" "Address b = A" "EventHandle b = h"
      and rl: "relinked (set (Q ?k)) (Blocks s) ((Blocks s')(p := None))" by auto
  have new: "p \<notin> set (Q j)" for j using p(1) lists_invD(5)[OF li, of p j] by auto
  have old: "\<exists>d. Blocks s q = Some d \<and> EventHandle d = EventHandle c \<and> Address d = Address c"
    if "Blocks s' q = Some c" "q \<noteq> p" for q c using relinked_event[OF rl] that by simp
  have same: "Blocks s' q = Blocks s q" if "q \<notin> set (Q ?k)" "q \<noteq> p" for q
    using rl that by (auto simp: relinked_def split: if_splits)
  have E: "Events s' (EventHandle c) = Events s (EventHandle c)" if "Blocks s q = Some c" for q c
  proof -
    have "EventHandle c \<noteq> h" using ei h that unfolding events_inv_def by metis
    then show ?thesis using s'(4) by simp
  qed
  have "ring (Blocks s') (Q' j) \<and> WaitBlocks s' j = head (Q' j)" for j
  proof (cases "j = ?k")
    case False
    have "\<forall>q \<in> set (Q j). Blocks s q = Blocks s' q"
      using same new lists_disjoint[OF li, of _ j ?k] False by metis
    then show ?thesis
      using lists_invD(1,2)[OF li, of j] False s'(3) ring_cong[of "Q j"] by (auto simp: Q'_def)
  qed (use s' in \<open>auto simp: Q'_def\<close>)
  moreover have "hash (Address c) = j \<and> Events s' (EventHandle c) = Some False"
    if q: "q \<in> set (Q' j)" "Blocks s' q = Some c" for j q c
  proof (cases "q = p")
    case True
    then show ?thesis using q s' new by (auto simp: Q'_def split: if_splits)
  next
    case False
    then have "q \<in> set (Q j)" using q(1) by (auto simp: Q'_def split: if_splits)
    then show ?thesis using old[OF q(2) False] lists_invD(3,4)[OF li] E by metis
  qed
  ultimately have "lists_inv s' Q'" unfolding lists_inv_def by blast
  moreover have "events_inv s'"
  proof -
    have nh: "EventHandle c \<noteq> h" if "Blocks s' q = Some c" "q \<noteq> p" for q c
      using old[OF that] ei h unfolding events_inv_def by metis
    have "Events s' (EventHandle c) \<noteq> None" if qc: "Blocks s' q = Some c" for q c
    proof (cases "q = p")
      case True
      then show ?thesis using qc s'(4,5,7) by simp
    next
      case False
      then obtain d where "Blocks s q = Some d" "EventHandle d = EventHandle c" using old[OF qc] by blast
      then show ?thesis using E[of q d] ei unfolding events_inv_def by metis
    qed
    moreover have "q = r" if qr: "Blocks s' q = Some c" "Blocks s' r = Some d" "EventHandle c = EventHandle d" for q r c d
    proof (cases "q = p \<or> r = p")
      case True
      then show ?thesis using qr nh s'(5,7) by (metis option.inject)
    next
      case False
      then obtain c' d' where "Blocks s q = Some c'" "Blocks s r = Some d'" "EventHandle c' = EventHandle d'"
        using old qr by metis
      then show ?thesis using ei unfolding events_inv_def by blast
    qed
    ultimately show ?thesis unfolding events_inv_def by blast
  qed
  moreover have "threads_inv s' (T(t := Blocked p A)) Q'"
  proof (rule threads_invI)
    fix u q B
    assume o: "owns ((T(t := Blocked p A)) u) q B"
    show "\<exists>c. Blocks s' q = Some c \<and> Address c = B \<and>
        (q \<in> set (Q' (hash B)) \<or> Previous c = NULL \<and> Events s' (EventHandle c) = Some True)"
    proof (cases "u = t")
      case True
      then show ?thesis using o s' by (simp add: Q'_def)
    next
      case False
      then have o': "owns (T u) q B" using o by simp
      obtain c where c: "Blocks s q = Some c" "Address c = B"
        "q \<in> set (Q (hash B)) \<or> Previous c = NULL \<and> Events s (EventHandle c) = Some True"
        using threads_invD(1)[OF ti o'] by blast
      have qp: "q \<noteq> p" using c(1) p(1) by auto
      show ?thesis
      proof (cases "q \<in> set (Q (hash B))")
        case True
        obtain c' where "Blocks s' q = Some c'" "Address c' = B"
          using relinked_event[OF relinked_sym[OF rl] c(1)] qp c(2) by auto
        then show ?thesis using True by (auto simp: Q'_def)
      next
        case False
        then have "q \<notin> set (Q ?k)" using c ring_Previous[OF lists_invD(1)[OF li, of ?k], of q c] by auto
        then show ?thesis using False c same qp E[OF c(1)] by auto
      qed
    qed
  next
    fix u q B
    assume "(T(t := Blocked p A)) u = Leaving q B STATUS_SUCCESS"
    then have u: "T u = Leaving q B STATUS_SUCCESS" by (auto split: if_splits)
    then have "q \<noteq> p" using threads_invD(1)[OF ti, of u q B] p(1) by auto
    then show "q \<notin> set (Q' (hash B))" using threads_invD(2)[OF ti u] by (auto simp: Q'_def)
  next
    fix u v q B C
    assume o: "owns ((T(t := Blocked p A)) u) q B" "owns ((T(t := Blocked p A)) v) q C"
    have "\<not> owns (T w) p D" for w D using threads_invD(1)[OF ti, of w p D] p(1) by auto
    then show "u = v" using o threads_invD(3)[OF ti] by (auto split: if_splits)
  next
    fix k q
    assume "q \<in> set (Q' k)"
    then show "\<exists>u B. owns ((T(t := Blocked p A)) u) q B"
      using threads_invD(4)[OF ti] t by (auto simp: Q'_def split: if_splits) (metis owns.simps(1))+
  qed
  ultimately show ?thesis using s'(1) by blast
qed

section \<open>The invariant holds\<close>

lemma enter_total:
  assumes inv: "sys_inv x Q" and t: "threads x t = Running"
    and p: "Blocks (shared x) p = None" "p \<noteq> NULL" and h: "Events (shared x) h = None"
  shows "\<exists>r s' Q'. RtlWaitOnAddress_enter mem (st, h) p A C n (shared x) = Some (r, s') \<and>
    (case r of Inl _ \<Rightarrow> s' = shared x
     | Inr _ \<Rightarrow> sys_inv (x\<lparr>shared := s', threads := (threads x)(t := Blocked p A)\<rparr>) Q')"
proof -
  have "\<exists>s'. append_block (shared x\<lparr>Events := (Events (shared x))(h \<mapsto> False)\<rparr>) (hash A) p A h = Some s' \<and>
     sys_inv (x\<lparr>shared := s', threads := (threads x)(t := Blocked p A)\<rparr>) (Q(hash A := Q (hash A) @ [p]))"
    using append_inv[of "shared x" Q "threads x" t p h A] inv t p h by (auto simp: sys_inv_def)
  then show ?thesis
    unfolding RtlWaitOnAddress_enter_def Let_def by auto
qed

lemma wake_total:
  assumes inv: "sys_inv x Q"
  shows "\<exists>s' W. RtlpWakeByAddress A all (shared x) = Some s' \<and> woke (hash A) (Q (hash A)) W (shared x) s' \<and>
    W = (if all then woken_by_all (Blocks (shared x)) A (Q (hash A))
         else set_option (find (waits_on (Blocks (shared x)) A) (Q (hash A))))"
proof -
  have "bucket_ok (shared x) (hash A) (Q (hash A))" using inv bucket_ok_inv by (simp add: sys_inv_def)
  from RtlWakeAddressSingle_bucket[OF this] RtlWakeAddressAll_bucket[OF this] show ?thesis
    by (cases all) (auto simp: RtlWakeAddressSingle_def RtlWakeAddressAll_def)
qed

lemma woke_inv:
  "sys_inv x Q \<Longrightarrow> woke k (Q k) W (shared x) s' \<Longrightarrow> sys_inv (x\<lparr>shared := s'\<rparr>) (Q(k := filter (\<lambda>p. p \<notin> W) (Q k)))"
  using woke_lists woke_events woke_threads by (auto simp: sys_inv_def)

text \<open>Returning from the kernel wait only changes the thread's program counter.\<close>

lemma threads_leaving:
  assumes ti: "threads_inv s T Q" and t: "T t = Blocked p A"
    and st: "st = STATUS_SUCCESS \<Longrightarrow> p \<notin> set (Q (hash A))"
  shows "threads_inv s (T(t := Leaving p A st)) Q"
proof -
  have o: "owns ((T(t := Leaving p A st)) u) = owns (T u)" for u using t by (auto simp: fun_eq_iff)
  show ?thesis
  proof (rule threads_invI)
    fix u q B
    assume "(T(t := Leaving p A st)) u = Leaving q B STATUS_SUCCESS"
    then show "q \<notin> set (Q (hash B))" using threads_invD(2)[OF ti] st by (auto split: if_splits)
  qed (use threads_invD[OF ti] in \<open>unfold o, blast\<close>)+
qed

lemma statuses: "reachable x \<Longrightarrow> threads x t = Leaving p A st \<Longrightarrow>
  st = STATUS_SUCCESS \<or> st = STATUS_TIMEOUT \<or> \<not> NT_SUCCESS st"
proof (induction arbitrary: t p A st rule: reachable.induct)
  case init
  then show ?case by (simp add: sys_init_def)
next
  case (step x y)
  from step.hyps(2) show ?case
    by cases (use step.IH step.prems in \<open>auto split: if_splits\<close>)
qed

lemma reachable_inv: "reachable x \<Longrightarrow> \<exists>Q. sys_inv x Q"
proof (induction rule: reachable.induct)
  case init
  then show ?case using sys_inv_init by blast
next
  case (step x y)
  then obtain Q where Q: "sys_inv x Q" by blast
  from step.hyps(2) show ?case
  proof cases
    case (enter_return t mem st h p A C n st' s')
    then have "s' = shared x"
      by (auto simp: RtlWaitOnAddress_enter_def Let_def split: if_splits Option.bind_splits)
    then show ?thesis using Q enter_return by auto
  next
    case (enter_block t p h mem st A C n u s')
    then show ?thesis using enter_total[OF Q enter_block(2-5), of mem st A C n] by auto
  next
    case (wait_woken t p A b)
    have "p \<notin> set (Q (hash A))"
      using Q wait_woken lists_invD(4)[of "shared x" Q p] by (fastforce simp: sys_inv_def)
    then show ?thesis using Q wait_woken threads_leaving[of "shared x" "threads x" Q t p A] by (auto simp: sys_inv_def)
  next
    case (wait_failed t p A st)
    then have "st \<noteq> STATUS_SUCCESS" by (auto simp: NT_SUCCESS_def)
    then show ?thesis using Q wait_failed threads_leaving[of "shared x" "threads x" Q t p A] by (auto simp: sys_inv_def)
  next
    case (leave t p A st st' s')
    then show ?thesis using leave_inv[OF Q leave(2) statuses[OF step.hyps(1) leave(2)]] by auto
  next
    case (wake t A all s')
    then show ?thesis using wake_total[OF Q, of A all] woke_inv[OF Q] by auto
  qed
qed

section \<open>Properties\<close>



text \<open>C12: no waiter is lost: a thread blocked in the wait is linked into the list of its bucket, with its
  event unset, or its event has been set and its block marked as removed.\<close>

theorem woa_no_lost_waiter:
  assumes "reachable x" "threads x t = Blocked p A"
  shows "\<exists>b xs. Blocks (shared x) p = Some b \<and> Address b = A \<and> bucket_ok (shared x) (KexRtlpGetWoaHashBucket A) xs \<and>
    (if p \<in> set xs then Events (shared x) (EventHandle b) = Some False
     else Events (shared x) (EventHandle b) = Some True \<and> Previous b = NULL)"
proof -
  obtain Q where Q: "lists_inv (shared x) Q" "threads_inv (shared x) (threads x) Q"
    using reachable_inv[OF assms(1)] by (auto simp: sys_inv_def)
  have "owns (threads x t) p A" using assms(2) by simp
  from threads_invD(1)[OF Q(2) this] show ?thesis
    using bucket_ok_inv[OF Q(1), of "hash A"] lists_invD(4)[OF Q(1), of p "hash A"] by auto
qed

text \<open>A run for the instances: thread 0 enters with its block at 16, event 1.\<close>

definition one_waiter :: woa where
  "one_waiter = \<lparr>Blocks = [16 \<mapsto> \<lparr>Address = 0x1000, EventHandle = 1, Next = 16, Previous = 16\<rparr>],
     WaitBlocks = (\<lambda>_. 0)(0 := 16), Events = [1 \<mapsto> False]\<rparr>"

lemma enter_one:
  "RtlWaitOnAddress_enter (\<lambda>_. 0) (0, 1) 16 0x1000 0x2000 1 (shared sys_init) = Some (Inr (), one_waiter)"
  by (simp add: RtlWaitOnAddress_enter_def KexRtlpEqualVolatileMemory_def KexRtlpGetWoaHashBucket_def NT_SUCCESS_def
      append_block_def sys_init_def woa_init_def one_waiter_def Let_def)

lemma reachable_one: "reachable (sys_init\<lparr>shared := one_waiter, threads := (threads sys_init)(0 := Blocked 16 0x1000)\<rparr>)"
  by (rule reachable.step[OF reachable.init], rule step.enter_block[OF _ _ _ _ enter_one])
    (simp_all add: sys_init_def woa_init_def)

theorem woa_no_lost_waiter_witness:
  "\<exists>b xs. Blocks one_waiter 16 = Some b \<and> Address b = 0x1000 \<and> bucket_ok one_waiter (KexRtlpGetWoaHashBucket 0x1000) xs \<and>
    (if 16 \<in> set xs then Events one_waiter (EventHandle b) = Some False
     else Events one_waiter (EventHandle b) = Some True \<and> Previous b = NULL)"
  using woa_no_lost_waiter[OF reachable_one, of 0 16 "0x1000"]
  by (simp cong: if_cong)


lemma one_waiter_ok: "bucket_ok one_waiter (KexRtlpGetWoaHashBucket 0x1000) [16]"
  by (auto simp: bucket_ok_def ring_def one_waiter_def KexRtlpGetWoaHashBucket_def)


text \<open>C21: what \<open>RtlWakeAddressAll\<close> wakes: when the oldest waiter of the bucket waits on another address,
  every waiter on the address is woken; when it waits on the address itself, it alone is woken and
  all others stay asleep, because removing it moves the head of the list, at which the loop stops.\<close>

theorem RtlWakeAddressAll_exact:
  assumes "bucket_ok s (KexRtlpGetWoaHashBucket A) xs"
  shows "\<exists>s'. RtlWakeAddressAll A s = Some s' \<and> woke (KexRtlpGetWoaHashBucket A) xs
    (if xs \<noteq> [] \<and> waits_on (Blocks s) A (hd xs) then {hd xs} else {p \<in> set xs. waits_on (Blocks s) A p}) s s'"
  using RtlWakeAddressAll_bucket[OF assms] unfolding woken_by_all_def .

definition two_waiters :: woa where
  "two_waiters = \<lparr>Blocks = [16 \<mapsto> \<lparr>Address = 0x1000, EventHandle = 1, Next = 32, Previous = 32\<rparr>,
       32 \<mapsto> \<lparr>Address = 0x1000, EventHandle = 2, Next = 16, Previous = 16\<rparr>],
     WaitBlocks = (\<lambda>_. 0)(0 := 16), Events = [1 \<mapsto> False, 2 \<mapsto> False]\<rparr>"

lemma two_waiters_ok: "bucket_ok two_waiters (KexRtlpGetWoaHashBucket 0x1000) [16, 32]"
  by (auto simp: bucket_ok_def ring_def two_waiters_def KexRtlpGetWoaHashBucket_def)

theorem RtlWakeAddressAll_exact_witness:
  "waits_on (Blocks two_waiters) 0x1000 16 \<and> waits_on (Blocks two_waiters) 0x1000 32 \<and>
   (\<exists>s'. RtlWakeAddressAll 0x1000 two_waiters = Some s' \<and> Events s' 1 = Some True \<and> Events s' 2 = Some False \<and>
     WaitBlocks s' 0 = 32)"
proof -
  have "waits_on (Blocks two_waiters) 0x1000 16" "waits_on (Blocks two_waiters) 0x1000 32"
    by (auto simp: waits_on_def two_waiters_def)
  then show ?thesis
    using RtlWakeAddressAll_exact[OF two_waiters_ok]
    by (auto simp: woke_def two_waiters_def KexRtlpGetWoaHashBucket_def)
qed

text \<open>entering the wait: bad arguments are refused, differing values return at once with
  \<open>STATUS_SUCCESS\<close>, a failing \<open>NtCreateEvent\<close> returns its status, all without any change; otherwise the
  thread's block becomes the last one of its bucket's list.\<close>

lemma RtlWaitOnAddress_enter_cases:
  assumes "bucket_ok s (KexRtlpGetWoaHashBucket A) xs" "Blocks s p = None" "p \<noteq> NULL"
  shows "\<exists>r s'. RtlWaitOnAddress_enter mem (st, h) p A C n s = Some (r, s') \<and>
    (if A = 0 \<or> C = 0 \<or> n \<notin> {1, 2, 4, 8} then r = Inl STATUS_INVALID_PARAMETER \<and> s' = s
     else if \<not> KexRtlpEqualVolatileMemory mem A C n then r = Inl STATUS_SUCCESS \<and> s' = s
     else if \<not> NT_SUCCESS st then r = Inl st \<and> s' = s
     else r = Inr () \<and> ring (Blocks s') (xs @ [p]) \<and>
       WaitBlocks s' (KexRtlpGetWoaHashBucket A) = head (xs @ [p]) \<and> Events s' h = Some False)"
proof -
  let ?s = "s\<lparr>Events := (Events s)(h \<mapsto> False)\<rparr>"
  have "ring (Blocks ?s) xs" "WaitBlocks ?s (hash A) = head xs" "Blocks ?s p = None"
    using assms by (auto simp: bucket_ok_def)
  from append_block_ring[OF this assms(3), of A h] obtain s' where
    "append_block ?s (hash A) p A h = Some s'" "ring (Blocks s') (xs @ [p])"
    "WaitBlocks s' (hash A) = head (xs @ [p])" "Events s' h = Some False" by auto
  then show ?thesis unfolding RtlWaitOnAddress_enter_def Let_def by auto
qed

lemma RtlWaitOnAddress_enter_cases_example:
  "\<exists>s'. RtlWaitOnAddress_enter (\<lambda>_. 0) (0, 2) 32 0x1000 0x2000 1 one_waiter = Some (Inr (), s') \<and>
    ring (Blocks s') [16, 32]"
proof -
  have "KexRtlpEqualVolatileMemory (\<lambda>_. 0) 0x1000 0x2000 1" by (simp add: KexRtlpEqualVolatileMemory_def)
  moreover have "Blocks one_waiter 32 = None" by (simp add: one_waiter_def)
  ultimately show ?thesis
    using RtlWaitOnAddress_enter_cases[OF one_waiter_ok, of 32 "\<lambda>_. 0" 0 2 "0x2000" 1]
    by (auto simp: NT_SUCCESS_def)
qed

end
