(* ===== verification/RunOnce.thy ===== *)
theory RunOnce
  imports Prelude
begin

text \<open>One-time initialisation of the native extension library, \<open>oca/extensions/ntext/rtl/synch.c\<close>
  (\<open>RtlRunOnceBeginInitialize\<close>, \<open>RtlRunOnceComplete\<close>, \<open>RtlRunOnceExecuteOnce\<close>).

  The low two bits of \<open>once->Ptr\<close> are the state: 0 not started, 1 in progress, 2 done, 3 in progress
  asynchronously. In state 1 the upper bits point to the \<open>next\<close> variable in the stack frame of the
  thread that started to wait last; these variables form a chain that ends with 0. In state 2 they
  are the context.

  The loop bodies are functions of the value read from \<open>Ptr\<close>; the steps below interleave threads at
  every access to shared memory.\<close>

section \<open>Flags and states\<close>

abbreviation (input) "RTL_RUN_ONCE_CHECK_ONLY \<equiv> (1 :: 32 word)"
abbreviation (input) "RTL_RUN_ONCE_ASYNC \<equiv> (2 :: 32 word)"
abbreviation (input) "RTL_RUN_ONCE_INIT_FAILED \<equiv> (4 :: 32 word)"
abbreviation (input) "STATUS_PENDING \<equiv> (0x103 :: NTSTATUS)"
abbreviation (input) "STATUS_UNSUCCESSFUL \<equiv> (0xC0000001 :: NTSTATUS)"

definition flag :: "32 word \<Rightarrow> 32 word \<Rightarrow> bool" where
  "flag flags f \<longleftrightarrow> flags AND f \<noteq> 0"

section \<open>RtlRunOnceInitialize and RtlRunOnceBeginInitialize\<close>

definition RtlRunOnceInitialize :: "32 word" where
  "RtlRunOnceInitialize = 0"

text \<open>The check before the loop: \<open>Some (status, context)\<close> when the routine returns from it.\<close>

definition begin_check :: "32 word \<Rightarrow> 32 word \<Rightarrow> (NTSTATUS \<times> 32 word option) option" where
  "begin_check flags val =
     (if flag flags RTL_RUN_ONCE_CHECK_ONLY then
        (if flag flags RTL_RUN_ONCE_ASYNC then Some (STATUS_INVALID_PARAMETER, None)
         else if val AND 3 \<noteq> 2 then Some (STATUS_UNSUCCESSFUL, None)
         else Some (STATUS_SUCCESS, Some (val AND NOT 3)))
      else None)"

text \<open>What the body of the loop does with the value it has read: return; claim the initialisation
  with a compare-and-swap of 0; or set \<open>next\<close> and enqueue with a compare-and-swap of the value.\<close>

datatype begin_act =
  BReturn NTSTATUS "32 word option"
| BClaim "32 word"
| BEnqueue "32 word" "32 word"

definition begin_body :: "32 word \<Rightarrow> 32 word \<Rightarrow> 32 word \<Rightarrow> begin_act" where
  "begin_body flags next_addr val =
     (if val AND 3 = 0 then BClaim (if flag flags RTL_RUN_ONCE_ASYNC then 3 else 1)
      else if val AND 3 = 1 then
        (if flag flags RTL_RUN_ONCE_ASYNC then BReturn STATUS_INVALID_PARAMETER None
         else BEnqueue (val AND NOT 3) (next_addr OR 1))
      else if val AND 3 = 2 then BReturn STATUS_SUCCESS (Some (val AND NOT 3))
      else if \<not> flag flags RTL_RUN_ONCE_ASYNC then BReturn STATUS_INVALID_PARAMETER None
      else BReturn STATUS_PENDING None)"

section \<open>RtlRunOnceComplete\<close>

text \<open>The argument checks: an error, or the value to be stored.\<close>

definition complete_check :: "32 word \<Rightarrow> 32 word \<Rightarrow> NTSTATUS + 32 word" where
  "complete_check flags context =
     (if context AND 3 \<noteq> 0 then Inl STATUS_INVALID_PARAMETER
      else if flag flags RTL_RUN_ONCE_INIT_FAILED then
        (if context \<noteq> 0 then Inl STATUS_INVALID_PARAMETER
         else if flag flags RTL_RUN_ONCE_ASYNC then Inl STATUS_INVALID_PARAMETER
         else Inr context)
      else Inr (context OR 2))"

text \<open>The body of the loop: store with a compare-and-swap, then release the chain of waiters
  (\<open>CStore True\<close>) or not (\<open>CStore False\<close>); or return.\<close>

datatype complete_act = CReturn NTSTATUS | CStore bool

definition complete_body :: "32 word \<Rightarrow> 32 word \<Rightarrow> complete_act" where
  "complete_body flags val =
     (if val AND 3 = 1 then CStore True
      else if val AND 3 = 3 then
        (if \<not> flag flags RTL_RUN_ONCE_ASYNC then CReturn STATUS_INVALID_PARAMETER else CStore False)
      else CReturn STATUS_UNSUCCESSFUL)"

section \<open>Threads in RtlRunOnceExecuteOnce\<close>

text \<open>The program points of \<open>RtlRunOnceExecuteOnce\<close>, with the routines it calls inlined. \<open>ARel v\<close> and
  \<open>ARelease v n\<close> are the loop that releases the waiters, before and after reading \<open>*val\<close>. The last
  argument of the completing points is the status \<open>RtlRunOnceExecuteOnce\<close> returns after a successful
  store: \<open>STATUS_UNSUCCESSFUL\<close> when the initialisation function failed.\<close>

datatype ro_pc =
  AIdle
| ABegin
| ASwitch "32 word"
| AWait
| AInit
| AComplete "32 word" NTSTATUS
| ACSwitch "32 word" "32 word" NTSTATUS
| ARel "32 word" NTSTATUS
| ARelease "32 word" "32 word" NTSTATUS
| ADone NTSTATUS "32 word option"

text \<open>\<open>cells\<close> holds the live \<open>next\<close> variables by address; \<open>addr t\<close> is the address of the one in the
  frame of thread \<open>t\<close>.\<close>

record ro =
  Ptr :: "32 word"
  cells :: "32 word \<rightharpoonup> 32 word"
  pcs :: "nat \<Rightarrow> ro_pc"

abbreviation set_pc :: "nat \<Rightarrow> ro_pc \<Rightarrow> ro \<Rightarrow> ro" where
  "set_pc t p s \<equiv> s\<lparr>pcs := (pcs s)(t := p)\<rparr>"

text \<open>The compare-and-swap steps.\<close>

definition begin_step :: "32 word \<Rightarrow> nat \<Rightarrow> 32 word \<Rightarrow> ro \<Rightarrow> ro" where
  "begin_step a t val s = (case begin_body 0 a val of
     BReturn st c \<Rightarrow> (set_pc t (ADone st c) s)\<lparr>cells := (cells s)(a := None)\<rparr>
   | BClaim new \<Rightarrow>
       if Ptr s = 0 then (set_pc t AInit s)\<lparr>Ptr := new, cells := (cells s)(a := None)\<rparr>
       else set_pc t ABegin s
   | BEnqueue next new \<Rightarrow>
       if Ptr s = val then (set_pc t AWait s)\<lparr>Ptr := new, cells := (cells s)(a \<mapsto> next)\<rparr>
       else (set_pc t ABegin s)\<lparr>cells := (cells s)(a \<mapsto> next)\<rparr>)"

definition init_step :: "nat \<Rightarrow> 32 word option \<Rightarrow> ro \<Rightarrow> ro" where
  "init_step t result s =
     (let (flags, context, ret) = (case result of None \<Rightarrow> (RTL_RUN_ONCE_INIT_FAILED, 0, STATUS_UNSUCCESSFUL)
        | Some c \<Rightarrow> (0, c, STATUS_SUCCESS)) in
      case complete_check flags context of
        Inl st \<Rightarrow> set_pc t (ADone (if result = None then STATUS_UNSUCCESSFUL else st) None) s
      | Inr w \<Rightarrow> set_pc t (AComplete w ret) s)"

definition complete_step :: "nat \<Rightarrow> 32 word \<Rightarrow> 32 word \<Rightarrow> NTSTATUS \<Rightarrow> ro \<Rightarrow> ro" where
  "complete_step t w val ret s = (case complete_body 0 val of
     CReturn st \<Rightarrow> set_pc t (ADone (if ret = STATUS_SUCCESS then st else ret) None) s
   | CStore rel \<Rightarrow>
       if Ptr s = val
       then (set_pc t (if rel then ARel (val AND NOT 3) ret else ADone ret None) s)\<lparr>Ptr := w\<rparr>
       else set_pc t (AComplete w ret) s)"

text \<open>The steps. The initialisation function is the caller's: it may return \<open>FALSE\<close> or any context.
  The frame of a thread that calls is new memory, aligned to four bytes. \<open>NtReleaseKeyedEvent\<close> and \<open>NtWaitForKeyedEvent\<close> meet at a key: both threads go on together.\<close>

inductive ro_step :: "(nat \<Rightarrow> 32 word) \<Rightarrow> ro \<Rightarrow> ro \<Rightarrow> bool" for addr where
  call: "pcs s t = AIdle \<Longrightarrow> addr t \<noteq> 0 \<Longrightarrow> addr t AND 3 = 0 \<Longrightarrow> cells s (addr t) = None \<Longrightarrow>
    ro_step addr s ((set_pc t ABegin s)\<lparr>cells := (cells s)(addr t \<mapsto> c)\<rparr>)"
| read_begin: "pcs s t = ABegin \<Longrightarrow> ro_step addr s (set_pc t (ASwitch (Ptr s)) s)"
| begin_cas: "pcs s t = ASwitch val \<Longrightarrow> ro_step addr s (begin_step (addr t) t val s)"
| init_fn: "pcs s t = AInit \<Longrightarrow> ro_step addr s (init_step t result s)"
| read_complete: "pcs s t = AComplete w ret \<Longrightarrow> ro_step addr s (set_pc t (ACSwitch w (Ptr s) ret) s)"
| complete_cas: "pcs s t = ACSwitch w val ret \<Longrightarrow> ro_step addr s (complete_step t w val ret s)"
| rel_end: "pcs s t = ARel 0 ret \<Longrightarrow> ro_step addr s (set_pc t (ADone ret None) s)"
| rel_read: "pcs s t = ARel v ret \<Longrightarrow> v \<noteq> 0 \<Longrightarrow> cells s v = Some n \<Longrightarrow> ro_step addr s (set_pc t (ARelease v n ret) s)"
| keyed_event: "pcs s t = ARelease v n ret \<Longrightarrow> pcs s u = AWait \<Longrightarrow> addr u = v \<Longrightarrow>
    ro_step addr s (set_pc u ABegin (set_pc t (ARel n ret) s))"

definition ro_init :: ro where
  "ro_init = \<lparr>Ptr = RtlRunOnceInitialize, cells = Map.empty, pcs = (\<lambda>_. AIdle)\<rparr>"

inductive ro_reach :: "(nat \<Rightarrow> 32 word) \<Rightarrow> ro \<Rightarrow> bool" for addr where
  init: "ro_reach addr ro_init"
| step: "ro_reach addr s \<Longrightarrow> ro_step addr s s' \<Longrightarrow> ro_reach addr s'"

end
