(* ===== verification/RunOnce_Inv.thy ===== *)
theory RunOnce_Inv
  imports RunOnce
begin

text \<open>The invariant of threads in \<open>RtlRunOnceExecuteOnce\<close> and the properties of the component.\<close>

section \<open>The low bits\<close>

lemma bit_3: "bit (3 :: 32 word) n \<longleftrightarrow> n < 2"
proof -
  have "(3 :: 32 word) = mask 2" by (simp add: mask_eq_exp_minus_1)
  show ?thesis unfolding \<open>(3 :: 32 word) = mask 2\<close> bit_mask_iff by auto
qed

lemma bit_low:
  assumes "(a :: 32 word) AND 3 = 0" "n < 2"
  shows "\<not> bit a n"
proof
  assume "bit a n"
  then have "bit (a AND 3) n" using assms(2) by (simp only: bit_and_iff bit_3)
  then show False using assms(1) by simp
qed

lemma low_or1:
  assumes a: "(a :: 32 word) AND 3 = 0"
  shows "(a OR 1) AND 3 = 1" "(a OR 1) AND NOT 3 = a"
proof -
  show "(a OR 1) AND 3 = 1"
  proof (rule bit_eqI)
    fix n
    assume "possible_bit TYPE(32 word) n"
    show "bit ((a OR 1) AND 3) n = bit (1 :: 32 word) n"
      unfolding bit_and_iff bit_or_iff bit_3 bit_1_iff using bit_low[OF a, of n] by auto
  qed
  show "(a OR 1) AND NOT 3 = a"
  proof (rule bit_eqI)
    fix n
    assume "possible_bit TYPE(32 word) n"
    then show "bit ((a OR 1) AND NOT 3) n = bit a n"
      unfolding bit_and_iff bit_or_iff bit_not_iff bit_3 bit_1_iff using bit_low[OF a, of n] by auto
  qed
qed

lemma low_or2:
  assumes a: "(a :: 32 word) AND 3 = 0"
  shows "(a OR 2) AND 3 = 2" "(a OR 2) AND NOT 3 = a"
proof -
  have 2: "bit (2 :: 32 word) n \<longleftrightarrow> n = 1" for n
    using bit_exp_iff[of 1 n, where 'a = "32 word"] by (auto simp: possible_bit_def)
  show "(a OR 2) AND 3 = 2"
  proof (rule bit_eqI)
    fix n
    assume "possible_bit TYPE(32 word) n"
    show "bit ((a OR 2) AND 3) n = bit (2 :: 32 word) n"
      unfolding bit_and_iff bit_or_iff bit_3 2 using bit_low[OF a, of n] by auto
  qed
  show "(a OR 2) AND NOT 3 = a"
  proof (rule bit_eqI)
    fix n
    assume "possible_bit TYPE(32 word) n"
    then show "bit ((a OR 2) AND NOT 3) n = bit a n"
      unfolding bit_and_iff bit_or_iff bit_not_iff bit_3 2 using bit_low[OF a, of n] by auto
  qed
qed

section \<open>Invariant\<close>

fun live :: "ro_pc \<Rightarrow> bool" where
  "live ABegin = True" | "live (ASwitch v) = True" | "live AWait = True" | "live _ = False"

fun initing :: "ro_pc \<Rightarrow> bool" where
  "initing AInit = True" | "initing (AComplete w r) = True" | "initing (ACSwitch w v r) = True" | "initing _ = False"

text \<open>The chain of \<open>next\<close> variables from an address.\<close>

fun chain :: "(32 word \<rightharpoonup> 32 word) \<Rightarrow> 32 word \<Rightarrow> 32 word list \<Rightarrow> bool" where
  "chain c v [] = (v = 0)"
| "chain c v (x # xs) = (v = x \<and> x \<noteq> 0 \<and> (\<exists>n. c x = Some n \<and> chain c n xs))"

lemma chain_cong: "\<forall>a \<in> set xs. c a = c' a \<Longrightarrow> chain c v xs = chain c' v xs"
  by (induction xs arbitrary: v) auto

lemma chain_upd [simp]: "a \<notin> set xs \<Longrightarrow> chain (c(a := x)) v xs = chain c v xs"
  by (rule chain_cong) auto

lemma chain_live: "chain c v xs \<Longrightarrow> a \<in> set xs \<Longrightarrow> c a \<noteq> None"
  by (induction xs arbitrary: v) auto

lemma chain_unique: "chain c v xs \<Longrightarrow> chain c v ys \<Longrightarrow> xs = ys"
proof (induction xs arbitrary: v ys)
  case Nil
  then show ?case by (cases ys) auto
next
  case (Cons x xs)
  then show ?case by (cases ys) auto
qed

lemma chain_suffix: "chain c v (us @ x # vs) \<Longrightarrow> chain c x (x # vs)"
  by (induction us arbitrary: v) auto

lemma chain_hd_notin:
  assumes "chain c x (x # xs)"
  shows "x \<notin> set xs"
proof
  assume "x \<in> set xs"
  then obtain us vs where xs: "xs = us @ x # vs" by (auto simp: in_set_conv_decomp)
  then have "chain c x (x # vs)" using chain_suffix[of c x "x # us" x vs] assms by simp
  then show False using chain_unique[OF assms] xs by fastforce
qed

text \<open>Where chains start: the queue of \<open>Ptr\<close> (source \<open>None\<close>) and what each releasing thread still
  has to release.\<close>

fun rel_start :: "ro_pc \<Rightarrow> 32 word" where
  "rel_start (ARel v r) = v" | "rel_start (ARelease v n r) = v" | "rel_start _ = 0"

definition start :: "ro \<Rightarrow> nat option \<Rightarrow> 32 word" where
  "start s src = (case src of None \<Rightarrow> if Ptr s AND 3 = 1 then Ptr s AND NOT 3 else 0
     | Some t \<Rightarrow> rel_start (pcs s t))"

definition frames_inv :: "(nat \<Rightarrow> 32 word) \<Rightarrow> ro \<Rightarrow> bool" where
  "frames_inv addr s \<longleftrightarrow>
     (\<forall>t. live (pcs s t) \<longrightarrow> addr t \<noteq> 0 \<and> addr t AND 3 = 0 \<and> cells s (addr t) \<noteq> None) \<and>
     (\<forall>t u. live (pcs s t) \<longrightarrow> live (pcs s u) \<longrightarrow> addr t = addr u \<longrightarrow> t = u)"

definition chains_inv :: "(nat \<Rightarrow> 32 word) \<Rightarrow> ro \<Rightarrow> (nat option \<Rightarrow> 32 word list) \<Rightarrow> bool" where
  "chains_inv addr s G \<longleftrightarrow>
     (\<forall>src. chain (cells s) (start s src) (G src)) \<and>
     (\<forall>src src' a. a \<in> set (G src) \<longrightarrow> a \<in> set (G src') \<longrightarrow> src = src') \<and>
     (\<forall>src a. a \<in> set (G src) \<longrightarrow> (\<exists>t. pcs s t = AWait \<and> addr t = a)) \<and>
     (\<forall>t. pcs s t = AWait \<longrightarrow> (\<exists>src. addr t \<in> set (G src))) \<and>
     (\<forall>t v n r. pcs s t = ARelease v n r \<longrightarrow> v \<noteq> 0 \<and> cells s v = Some n)"

definition state_inv :: "ro \<Rightarrow> bool" where
  "state_inv s \<longleftrightarrow> Ptr s AND 3 \<noteq> 3 \<and> (Ptr s AND 3 = 0 \<longrightarrow> Ptr s = 0) \<and>
     (\<forall>t. initing (pcs s t) \<longrightarrow> Ptr s AND 3 = 1) \<and>
     (\<forall>t u. initing (pcs s t) \<longrightarrow> initing (pcs s u) \<longrightarrow> t = u) \<and>
     (\<forall>t w r. pcs s t = AComplete w r \<longrightarrow> w = 0 \<or> w AND 3 = 2) \<and>
     (\<forall>t w v r. pcs s t = ACSwitch w v r \<longrightarrow> w = 0 \<or> w AND 3 = 2)"

definition ro_inv :: "(nat \<Rightarrow> 32 word) \<Rightarrow> ro \<Rightarrow> (nat option \<Rightarrow> 32 word list) \<Rightarrow> bool" where
  "ro_inv addr s G \<longleftrightarrow> frames_inv addr s \<and> chains_inv addr s G \<and> state_inv s"

lemma frames_own: "frames_inv addr s \<Longrightarrow> live (pcs s t) \<Longrightarrow> addr t \<noteq> 0 \<and> addr t AND 3 = 0 \<and> cells s (addr t) \<noteq> None"
  unfolding frames_inv_def by blast

lemma frames_uniq: "frames_inv addr s \<Longrightarrow> live (pcs s t) \<Longrightarrow> live (pcs s u) \<Longrightarrow> addr t = addr u \<Longrightarrow> t = u"
  unfolding frames_inv_def by blast

lemma chains_uniq: "chains_inv addr s G \<Longrightarrow> a \<in> set (G src) \<Longrightarrow> a \<in> set (G src') \<Longrightarrow> src = src'"
  by (simp add: chains_inv_def)

lemma chains_chain: "chains_inv addr s G \<Longrightarrow> chain (cells s) (start s src) (G src)"
  by (simp add: chains_inv_def)

lemma chains_waiter: "chains_inv addr s G \<Longrightarrow> a \<in> set (G src) \<Longrightarrow> \<exists>t. pcs s t = AWait \<and> addr t = a"
  unfolding chains_inv_def by blast

lemma chains_queued: "chains_inv addr s G \<Longrightarrow> pcs s t = AWait \<Longrightarrow> \<exists>src. addr t \<in> set (G src)"
  unfolding chains_inv_def by blast

lemma chains_cell: "chains_inv addr s G \<Longrightarrow> pcs s t = ARelease v n r \<Longrightarrow> v \<noteq> 0 \<and> cells s v = Some n"
  unfolding chains_inv_def by blast

lemma chains_release:
  assumes "chains_inv addr s G" "pcs s t = ARelease v n r"
  obtains xs where "G (Some t) = v # xs" "cells s v = Some n" "chain (cells s) n xs" "v \<noteq> 0" "v \<notin> set xs"
proof -
  have c: "chain (cells s) v (G (Some t))" "v \<noteq> 0" "cells s v = Some n"
    using assms(2) chains_chain[OF assms(1), of "Some t"] chains_cell[OF assms] by (auto simp: start_def)
  then obtain xs where xs: "G (Some t) = v # xs" by (cases "G (Some t)") auto
  then show ?thesis using that c chain_hd_notin[of "cells s" v xs] by auto
qed

lemma state_word: "state_inv s \<Longrightarrow> pcs s t = ACSwitch w v r \<Longrightarrow> w = 0 \<or> w AND 3 = 2"
  "state_inv s \<Longrightarrow> pcs s t = AComplete w r \<Longrightarrow> w = 0 \<or> w AND 3 = 2"
  unfolding state_inv_def by blast+

lemma ro_inv_init: "ro_inv addr ro_init (\<lambda>_. [])"
  by (simp add: ro_inv_def frames_inv_def chains_inv_def state_inv_def ro_init_def RtlRunOnceInitialize_def
      start_def split: option.splits)

text \<open>A thread that is not waiting does not have its variable in a chain.\<close>

lemma not_in_chain:
  assumes "frames_inv addr s" "chains_inv addr s G" "pcs s t \<noteq> AWait" "live (pcs s t) \<or> cells s (addr t) = None"
  shows "addr t \<notin> set (G src)"
proof
  assume a: "addr t \<in> set (G src)"
  have "chain (cells s) (start s src) (G src)" using assms(2) by (simp add: chains_inv_def)
  then have "live (pcs s t)" using chain_live[of "cells s" "start s src" "G src" "addr t"] a assms(4) by auto
  moreover obtain u where "pcs s u = AWait" "addr u = addr t" using assms(2) a unfolding chains_inv_def by blast
  ultimately show False using assms(1,3) unfolding frames_inv_def by (metis live.simps(3))
qed

text \<open>Steps that leave the chains alone: the thread neither waits nor releases, before or after, and
  memory changes at most at its own variable.\<close>

definition quiet :: "ro_pc \<Rightarrow> bool" where
  "quiet p \<longleftrightarrow> p \<noteq> AWait \<and> rel_start p = 0 \<and> (\<forall>v n r. p \<noteq> ARelease v n r)"

lemma quiet_simps [simp]:
  "quiet AIdle" "quiet ABegin" "quiet (ASwitch v)" "quiet AInit" "quiet (AComplete w r)" "quiet (ACSwitch w v r)"
  "quiet (ADone st c)" "quiet (ARel 0 r)"
  by (simp_all add: quiet_def)

lemma chains_quiet:
  assumes fi: "frames_inv addr s" and ci: "chains_inv addr s G"
    and q: "quiet (pcs s t)" "quiet p" and pcs: "pcs s' = (pcs s)(t := p)"
    and ptr: "start s' None = start s None"
    and cells: "\<And>a. a \<noteq> addr t \<Longrightarrow> cells s' a = cells s a"
    and own: "cells s' = cells s \<or> live (pcs s t) \<or> cells s (addr t) = None"
  shows "chains_inv addr s' G"
proof -
  have same: "cells s' a = cells s a" if "a \<in> set (G src)" for src a
    using that cells own q(1) not_in_chain[OF fi ci, of t src] by (cases "a = addr t") (auto simp: quiet_def)
  have "start s' src = start s src" for src
    using ptr q pcs by (cases src) (auto simp: start_def quiet_def)
  then have "chain (cells s') (start s' src) (G src)" for src
    using ci chain_cong[of "G src" "cells s'" "cells s"] same by (auto simp: chains_inv_def)
  moreover have "v \<noteq> 0 \<and> cells s' v = Some n" if "pcs s' u = ARelease v n r" for u v n r
  proof -
    have u: "pcs s u = ARelease v n r" using that pcs q by (auto simp: quiet_def split: if_splits)
    from ci u show ?thesis by (rule chains_release) (use same[of v "Some u"] in auto)
  qed
  moreover have "pcs s' u = AWait \<longleftrightarrow> pcs s u = AWait" for u using pcs q by (auto simp: quiet_def)
  ultimately show ?thesis using ci unfolding chains_inv_def by auto
qed

lemma frames_upd:
  assumes fi: "frames_inv addr s" and pcs: "pcs s' = (pcs s)(t := p)"
    and lv: "live p \<Longrightarrow> live (pcs s t) \<and> cells s' (addr t) \<noteq> None"
    and cells: "\<And>a. a \<noteq> addr t \<Longrightarrow> cells s' a = cells s a"
    and own: "cells s' = cells s \<or> live (pcs s t)"
  shows "frames_inv addr s'"
proof -
  have "addr u \<noteq> 0 \<and> addr u AND 3 = 0 \<and> cells s' (addr u) \<noteq> None" if u: "live (pcs s' u)" for u
  proof (cases "u = t")
    case True
    then show ?thesis using u lv pcs fi by (auto simp: frames_inv_def)
  next
    case False
    then have l: "live (pcs s u)" using u pcs by simp
    then have "cells s' (addr u) = cells s (addr u)"
      using own cells[of "addr u"] fi False unfolding frames_inv_def by metis
    then show ?thesis using l fi by (simp add: frames_inv_def)
  qed
  moreover have "u = v" if "live (pcs s' u)" "live (pcs s' v)" "addr u = addr v" for u v
    using that fi pcs lv unfolding frames_inv_def by (auto split: if_splits)
  ultimately show ?thesis unfolding frames_inv_def by blast
qed

lemma state_upd:
  assumes si: "state_inv s" and pcs: "pcs s' = (pcs s)(t := p)" and ptr: "Ptr s' = Ptr s"
    and ini: "initing p \<Longrightarrow> initing (pcs s t)"
    and w: "\<And>w r. p = AComplete w r \<Longrightarrow> w = 0 \<or> w AND 3 = 2" "\<And>w v r. p = ACSwitch w v r \<Longrightarrow> w = 0 \<or> w AND 3 = 2"
  shows "state_inv s'"
  using si ini w unfolding state_inv_def ptr pcs by auto

section \<open>Preservation\<close>

lemma quiet_step:
  assumes inv: "ro_inv addr s G" and q: "quiet (pcs s t)" "quiet p" and pcs: "pcs s' = (pcs s)(t := p)"
    and ptr: "Ptr s' = Ptr s" and lv: "live p \<Longrightarrow> live (pcs s t) \<and> cells s' (addr t) \<noteq> None"
    and cells: "\<And>a. a \<noteq> addr t \<Longrightarrow> cells s' a = cells s a" and own: "cells s' = cells s \<or> live (pcs s t)"
    and ini: "initing p \<Longrightarrow> initing (pcs s t)"
    and w: "\<And>w r. p = AComplete w r \<Longrightarrow> w = 0 \<or> w AND 3 = 2" "\<And>w v r. p = ACSwitch w v r \<Longrightarrow> w = 0 \<or> w AND 3 = 2"
  shows "ro_inv addr s' G"
proof -
  have i: "frames_inv addr s" "chains_inv addr s G" "state_inv s" using inv by (auto simp: ro_inv_def)
  have "start s' None = start s None" using ptr by (simp add: start_def)
  then have "chains_inv addr s' G" using i q pcs cells own by (intro chains_quiet[of addr s G t p s']) auto
  moreover have "frames_inv addr s'" using i(1) pcs lv cells own by (rule frames_upd)
  moreover have "state_inv s'" using i(3) pcs ptr ini w by (rule state_upd)
  ultimately show ?thesis by (simp add: ro_inv_def)
qed

lemma call_inv:
  assumes inv: "ro_inv addr s G" and t: "pcs s t = AIdle" "addr t \<noteq> 0" "addr t AND 3 = 0" "cells s (addr t) = None"
  shows "ro_inv addr ((set_pc t ABegin s)\<lparr>cells := (cells s)(addr t \<mapsto> c)\<rparr>) G"
proof -
  let ?s = "(set_pc t ABegin s)\<lparr>cells := (cells s)(addr t \<mapsto> c)\<rparr>"
  have i: "frames_inv addr s" "chains_inv addr s G" "state_inv s" using inv by (auto simp: ro_inv_def)
  have "chains_inv addr ?s G"
    using t by (intro chains_quiet[OF i(1,2), of t ABegin]) (auto simp: start_def)
  moreover have "frames_inv addr ?s"
    using i(1) t by (auto simp: frames_inv_def)
  moreover have "state_inv ?s" using i(3) t by (intro state_upd[of s ?s t ABegin]) auto
  ultimately show ?thesis by (simp add: ro_inv_def)
qed

lemma enqueue_inv:
  assumes inv: "ro_inv addr s G" and t: "pcs s t = ASwitch val" and val: "Ptr s = val" "val AND 3 = 1"
  shows "ro_inv addr ((set_pc t AWait s)\<lparr>Ptr := addr t OR 1, cells := (cells s)(addr t \<mapsto> val AND NOT 3)\<rparr>)
    (G(None := addr t # G None))"
proof -
  let ?s = "(set_pc t AWait s)\<lparr>Ptr := addr t OR 1, cells := (cells s)(addr t \<mapsto> val AND NOT 3)\<rparr>"
  let ?G = "G(None := addr t # G None)"
  have i: "frames_inv addr s" "chains_inv addr s G" "state_inv s" using inv by (auto simp: ro_inv_def)
  have a: "addr t \<noteq> 0" "addr t AND 3 = 0" using i(1) t by (auto simp: frames_inv_def)
  have out: "addr t \<notin> set (G src)" for src using not_in_chain[OF i(1,2), of t src] t by simp
  have ch: "chain ((cells s)(addr t \<mapsto> val AND NOT 3)) (start s src) (G src)" for src
    using i(2) out[of src] by (simp add: chains_inv_def)
  have "chain (cells ?s) (start ?s src) (?G src)" for src
  proof (cases src)
    case None
    then show ?thesis using ch[of None] val a low_or1[OF a(2)] by (simp add: start_def)
  next
    case (Some u)
    then show ?thesis using ch[of src] t by (auto simp: start_def)
  qed
  moreover have "src = src'" if "b \<in> set (?G src)" "b \<in> set (?G src')" for b src src'
    using that chains_uniq[OF i(2)] out by (auto split: if_splits)
  moreover have "v \<noteq> 0 \<and> cells ?s v = Some n" if u: "pcs ?s u = ARelease v n r" for u v n r
  proof -
    have u': "pcs s u = ARelease v n r" using u by (auto split: if_splits)
    from i(2) u' show ?thesis by (rule chains_release) (use out[of "Some u"] in auto)
  qed
  moreover have "\<exists>x. pcs ?s x = AWait \<and> addr x = b" if b: "b \<in> set (?G src)" for b src
  proof (cases "b = addr t")
    case False
    then obtain x where "pcs s x = AWait" "addr x = b"
      using b chains_waiter[OF i(2), of b src] by (auto split: if_splits)
    then show ?thesis by (intro exI[of _ x]) auto
  qed auto
  moreover have "\<exists>src. addr x \<in> set (?G src)" if x: "pcs ?s x = AWait" for x
  proof (cases "x = t")
    case False
    then obtain src where "addr x \<in> set (G src)" using x chains_queued[OF i(2), of x] by auto
    then show ?thesis by (intro exI[of _ src]) auto
  qed (auto intro: exI[of _ None])
  ultimately have "chains_inv addr ?s ?G" unfolding chains_inv_def by blast
  moreover have "frames_inv addr ?s"
    using i(1) t by (intro frames_upd[of addr s ?s t AWait]) auto
  moreover have "state_inv ?s"
    using i(3) t val low_or1[OF a(2)] unfolding state_inv_def by auto
  ultimately show ?thesis by (simp add: ro_inv_def)
qed

lemma claim_inv:
  assumes inv: "ro_inv addr s G" and t: "pcs s t = ASwitch val" and ptr: "Ptr s = 0"
  shows "ro_inv addr ((set_pc t AInit s)\<lparr>Ptr := 1, cells := (cells s)(addr t := None)\<rparr>) G"
proof -
  let ?s = "(set_pc t AInit s)\<lparr>Ptr := 1, cells := (cells s)(addr t := None)\<rparr>"
  have i: "frames_inv addr s" "chains_inv addr s G" "state_inv s" using inv by (auto simp: ro_inv_def)
  have "chains_inv addr ?s G"
    using t ptr by (intro chains_quiet[OF i(1,2), of t AInit]) (auto simp: start_def)
  moreover have "frames_inv addr ?s"
    using i(1) t by (intro frames_upd[of addr s ?s t AInit]) auto
  moreover have "state_inv ?s"
    using i(3) t ptr unfolding state_inv_def by auto
  ultimately show ?thesis by (simp add: ro_inv_def)
qed

lemma store_inv:
  assumes inv: "ro_inv addr s G" and t: "pcs s t = ACSwitch w val ret" and val: "Ptr s = val" "val AND 3 = 1"
  shows "ro_inv addr ((set_pc t (ARel (val AND NOT 3) ret) s)\<lparr>Ptr := w\<rparr>) (G(None := [], Some t := G None))"
proof -
  let ?s = "(set_pc t (ARel (val AND NOT 3) ret) s)\<lparr>Ptr := w\<rparr>"
  let ?G = "G(None := [], Some t := G None)"
  have i: "frames_inv addr s" "chains_inv addr s G" "state_inv s" using inv by (auto simp: ro_inv_def)
  have w: "w = 0 \<or> w AND 3 = 2" using state_word(1)[OF i(3) t] .
  have nil: "G (Some t) = []"
  proof -
    have "chain (cells s) 0 (G (Some t))"
      using chains_chain[OF i(2), of "Some t"] t by (simp add: start_def)
    then show ?thesis by (cases "G (Some t)") auto
  qed
  have "chain (cells ?s) (start ?s src) (?G src)" for src
  proof (cases src)
    case None
    then show ?thesis using w by (auto simp: start_def)
  next
    case (Some u)
    have "chain (cells s) (start s None) (G None)" "chain (cells s) (start s (Some u)) (G (Some u))"
      using i(2) by (auto simp: chains_inv_def)
    then show ?thesis using Some val by (auto simp: start_def)
  qed
  moreover have "src = src'" if "b \<in> set (?G src)" "b \<in> set (?G src')" for b src src'
    using that nil chains_uniq[OF i(2), of b] by (auto split: if_splits)
  moreover have "\<exists>u. pcs ?s u = AWait \<and> addr u = b" if "b \<in> set (?G src)" for b src
  proof -
    have "\<exists>src'. b \<in> set (G src')" using that by (auto split: if_splits)
    then obtain u where "pcs s u = AWait" "addr u = b" using chains_waiter[OF i(2)] by blast
    then show ?thesis using t by (intro exI[of _ u]) auto
  qed
  moreover have "\<exists>src. addr u \<in> set (?G src)" if u: "pcs ?s u = AWait" for u
  proof -
    have "pcs s u = AWait" using u by (auto split: if_splits)
    then obtain src where src: "addr u \<in> set (G src)" using chains_queued[OF i(2)] by blast
    show ?thesis
    proof (cases "src = None")
      case True
      then show ?thesis using src by (intro exI[of _ "Some t"]) simp
    next
      case False
      then show ?thesis using src nil by (intro exI[of _ src]) auto
    qed
  qed
  moreover have "v \<noteq> 0 \<and> cells ?s v = Some n" if "pcs ?s u = ARelease v n r" for u v n r
    using that chains_cell[OF i(2), of u v n r] by (auto split: if_splits)
  ultimately have "chains_inv addr ?s ?G" unfolding chains_inv_def by blast
  moreover have "frames_inv addr ?s"
    using i(1) t by (intro frames_upd[of addr s ?s t "ARel (val AND NOT 3) ret"]) auto
  moreover have "state_inv ?s"
    using i(3) t w unfolding state_inv_def by (auto split: if_splits)
  ultimately show ?thesis by (simp add: ro_inv_def)
qed

lemma rel_read_inv:
  assumes inv: "ro_inv addr s G" and t: "pcs s t = ARel v ret" "v \<noteq> 0" "cells s v = Some n"
  shows "ro_inv addr (set_pc t (ARelease v n ret) s) G"
proof -
  let ?s = "set_pc t (ARelease v n ret) s"
  have i: "frames_inv addr s" "chains_inv addr s G" "state_inv s" using inv by (auto simp: ro_inv_def)
  have "start ?s src = start s src" for src using t by (cases src) (auto simp: start_def)
  then have "chain (cells ?s) (start ?s src) (G src)" for src using chains_chain[OF i(2), of src] by simp
  moreover have w: "pcs ?s x = AWait \<longleftrightarrow> pcs s x = AWait" for x using t by auto
  moreover have "v' \<noteq> 0 \<and> cells ?s v' = Some n'" if "pcs ?s x = ARelease v' n' r" for x v' n' r
    using that t chains_cell[OF i(2), of x v' n' r] by (auto split: if_splits)
  ultimately have "chains_inv addr ?s G"
    using chains_uniq[OF i(2)] chains_waiter[OF i(2)] chains_queued[OF i(2)] unfolding chains_inv_def w by blast
  moreover have "frames_inv addr ?s" using i(1) t by (intro frames_upd[of addr s ?s t "ARelease v n ret"]) auto
  moreover have "state_inv ?s" using i(3) t by (intro state_upd[of s ?s t "ARelease v n ret"]) auto
  ultimately show ?thesis by (simp add: ro_inv_def)
qed

lemma keyed_event_inv:
  assumes inv: "ro_inv addr s G" and t: "pcs s t = ARelease v n ret" and u: "pcs s u = AWait" "addr u = v"
  shows "ro_inv addr (set_pc u ABegin (set_pc t (ARel n ret) s)) (G(Some t := tl (G (Some t))))"
proof -
  let ?s = "set_pc u ABegin (set_pc t (ARel n ret) s)"
  let ?G = "G(Some t := tl (G (Some t)))"
  have i: "frames_inv addr s" "chains_inv addr s G" "state_inv s" using inv by (auto simp: ro_inv_def)
  have ut: "u \<noteq> t" using t u by auto
  obtain xs where xs: "G (Some t) = v # xs" "chain (cells s) n xs" "v \<notin> set xs"
    using chains_release[OF i(2) t] by blast
  have sub: "set (?G src) \<subseteq> set (G src)" for src using xs by auto
  have out: "v \<notin> set (?G src)" for src using xs chains_uniq[OF i(2), of v "Some t" src] by auto
  have "chain (cells ?s) (start ?s src) (?G src)" for src
    using chains_chain[OF i(2), of src] xs ut u by (cases src) (auto simp: start_def)
  moreover have "src = src'" if "b \<in> set (?G src)" "b \<in> set (?G src')" for b src src'
    using that sub chains_uniq[OF i(2), of b src src'] by blast
  moreover have "\<exists>x. pcs ?s x = AWait \<and> addr x = b" if b: "b \<in> set (?G src)" for b src
  proof -
    obtain x where x: "pcs s x = AWait" "addr x = b" using b sub[of src] chains_waiter[OF i(2), of b src] by blast
    then show ?thesis using b out[of src] u t by (intro exI[of _ x]) auto
  qed
  moreover have "\<exists>src. addr x \<in> set (?G src)" if x: "pcs ?s x = AWait" for x
  proof -
    have w: "pcs s x = AWait" "x \<noteq> u" using x by (auto split: if_splits)
    then obtain src where src: "addr x \<in> set (G src)" using chains_queued[OF i(2)] by blast
    have "addr x \<noteq> v" using frames_uniq[OF i(1), of x u] w u by auto
    then show ?thesis using src xs by (intro exI[of _ src]) auto
  qed
  moreover have "v' \<noteq> 0 \<and> cells ?s v' = Some n'" if "pcs ?s x = ARelease v' n' r" for x v' n' r
    using that chains_cell[OF i(2), of x v' n' r] by (auto split: if_splits)
  ultimately have "chains_inv addr ?s ?G" unfolding chains_inv_def by blast
  moreover have "frames_inv addr ?s" using i(1) t u ut unfolding frames_inv_def by auto
  moreover have "state_inv ?s" using i(3) t u ut unfolding state_inv_def by auto
  ultimately show ?thesis by (simp add: ro_inv_def)
qed

lemma begin_step_inv:
  assumes inv: "ro_inv addr s G" and t: "pcs s t = ASwitch val"
  shows "\<exists>G'. ro_inv addr (begin_step (addr t) t val s) G'"
proof -
  have fi: "frames_inv addr s" using inv by (simp add: ro_inv_def)
  have own: "cells s (addr t) \<noteq> None" using frames_own[OF fi, of t] t by simp
  consider "val AND 3 = 0" | "val AND 3 = 1" | "val AND 3 \<noteq> 0" "val AND 3 \<noteq> 1" by blast
  then show ?thesis
  proof cases
    case 1
    then show ?thesis
    proof (cases "Ptr s = 0")
      case True
      with 1 show ?thesis using claim_inv[OF inv t] by (auto simp: begin_step_def begin_body_def flag_def)
    next
      case False
      with 1 show ?thesis using t own
        by (intro exI[of _ G] quiet_step[OF inv, of t ABegin]) (auto simp: begin_step_def begin_body_def flag_def)
    qed
  next
    case 2
    then show ?thesis
    proof (cases "Ptr s = val")
      case True
      with 2 show ?thesis using enqueue_inv[OF inv t] by (auto simp: begin_step_def begin_body_def flag_def)
    next
      case False
      with 2 show ?thesis using t
        by (intro exI[of _ G] quiet_step[OF inv, of t ABegin]) (auto simp: begin_step_def begin_body_def flag_def)
    qed
  next
    case 3
    then obtain st c where "begin_body 0 (addr t) val = BReturn st c"
      by (cases "val AND 3 = 2") (simp_all add: begin_body_def flag_def)
    then show ?thesis using t
      by (intro exI[of _ G] quiet_step[OF inv, of t "ADone st c"]) (auto simp: begin_step_def)
  qed
qed

lemma complete_check_word:
  assumes "complete_check flags ctx = Inr w"
  shows "w AND 3 = (if flag flags RTL_RUN_ONCE_INIT_FAILED then 0 else 2)" "w AND NOT 3 = ctx"
    "ctx AND 3 = 0" "flag flags RTL_RUN_ONCE_INIT_FAILED \<Longrightarrow> w = 0 \<and> \<not> flag flags RTL_RUN_ONCE_ASYNC"
  using assms low_or2[of ctx] by (auto simp: complete_check_def split: if_splits)

lemma init_step_inv:
  assumes inv: "ro_inv addr s G" and t: "pcs s t = AInit"
  shows "ro_inv addr (init_step t result s) G"
proof -
  obtain p where p: "init_step t result s = set_pc t p s"
    "(\<exists>st. p = ADone st None) \<or> (\<exists>w r. p = AComplete w r \<and> (w = 0 \<or> w AND 3 = 2))"
  proof (cases result)
    case None
    then show ?thesis using that by (auto simp: init_step_def complete_check_def flag_def)
  next
    case (Some c)
    show ?thesis
    proof (cases "complete_check 0 c")
      case (Inl st)
      then show ?thesis using that Some by (auto simp: init_step_def)
    next
      case (Inr w)
      then show ?thesis using that Some complete_check_word(1)[OF Inr] by (auto simp: init_step_def flag_def)
    qed
  qed
  show ?thesis unfolding p(1) using p(2) t by (intro quiet_step[OF inv, of t p]) auto
qed

lemma complete_step_inv:
  assumes inv: "ro_inv addr s G" and t: "pcs s t = ACSwitch w val ret"
  shows "\<exists>G'. ro_inv addr (complete_step t w val ret s) G'"
proof -
  have w: "w = 0 \<or> w AND 3 = 2" using inv state_word(1)[OF _ t] by (simp add: ro_inv_def)
  show ?thesis
  proof (cases "complete_body 0 val")
    case (CReturn st)
    then show ?thesis using t
      by (intro exI[of _ G] quiet_step[OF inv, of t "ADone (if ret = STATUS_SUCCESS then st else ret) None"])
        (auto simp: complete_step_def)
  next
    case (CStore rel)
    then have val: "val AND 3 = 1" "rel" by (auto simp: complete_body_def flag_def split: if_splits)
    show ?thesis
    proof (cases "Ptr s = val")
      case True
      then show ?thesis using CStore val store_inv[OF inv t] by (auto simp: complete_step_def)
    next
      case False
      then show ?thesis using CStore t w
        by (intro exI[of _ G] quiet_step[OF inv, of t "AComplete w ret"]) (auto simp: complete_step_def)
    qed
  qed
qed

lemma ro_step_inv: "ro_step addr s s' \<Longrightarrow> ro_inv addr s G \<Longrightarrow> \<exists>G'. ro_inv addr s' G'"
proof (induction rule: ro_step.induct)
  case (call s t c)
  show ?case by (rule exI, rule call_inv[OF call.prems call.hyps])
next
  case (read_begin s t)
  have "live (pcs s t)" using read_begin.hyps by simp
  then have "cells s (addr t) \<noteq> None" using frames_own read_begin.prems unfolding ro_inv_def by blast
  then have "ro_inv addr (set_pc t (ASwitch (Ptr s)) s) G" using read_begin.hyps
    by (intro quiet_step[OF read_begin.prems, of t "ASwitch (Ptr s)"]) auto
  then show ?case by blast
next
  case (begin_cas s t val)
  show ?case by (rule begin_step_inv[OF begin_cas.prems begin_cas.hyps])
next
  case (init_fn s t result)
  show ?case by (rule exI, rule init_step_inv[OF init_fn.prems init_fn.hyps])
next
  case (read_complete s t w ret)
  then have "w = 0 \<or> w AND 3 = 2" using state_word(2)[of s t w ret] by (simp add: ro_inv_def)
  then have "ro_inv addr (set_pc t (ACSwitch w (Ptr s) ret) s) G" using read_complete.hyps
    by (intro quiet_step[OF read_complete.prems, of t "ACSwitch w (Ptr s) ret"]) auto
  then show ?case by blast
next
  case (complete_cas s t w val ret)
  show ?case by (rule complete_step_inv[OF complete_cas.prems complete_cas.hyps])
next
  case (rel_end s t ret)
  then have "ro_inv addr (set_pc t (ADone ret None) s) G"
    by (intro quiet_step[OF rel_end.prems, of t "ADone ret None"]) auto
  then show ?case by blast
next
  case (rel_read s t v ret n)
  show ?case by (rule exI, rule rel_read_inv[OF rel_read.prems rel_read.hyps])
next
  case (keyed_event s t v n ret u)
  show ?case by (rule exI, rule keyed_event_inv[OF keyed_event.prems keyed_event.hyps])
qed

lemma ro_reach_inv: "ro_reach addr s \<Longrightarrow> \<exists>G. ro_inv addr s G"
proof (induction rule: ro_reach.induct)
  case init
  then show ?case using ro_inv_init by blast
next
  case (step s s')
  then show ?case using ro_step_inv by blast
qed

end
