(* ===== verification/RunOnce_Props.thy ===== *)
theory RunOnce_Props
  imports RunOnce_Inv
begin

text \<open>What the one-time initialisation of \<open>oca/extensions/ntext/rtl/synch.c\<close> promises: one thread at a
  time initialises, the result is final and everyone gets it, and no thread that waits is forgotten.\<close>

section \<open>The result is final\<close>









section \<open>Releasing\<close>



section \<open>A run\<close>

text \<open>Thread 0 claims the initialisation, thread 1 waits, thread 0 completes with the context 0x10 and
  is about to release thread 1.\<close>

definition demo_addr :: "nat \<Rightarrow> 32 word" where
  "demo_addr t = 4 * (of_nat t + 1)"

definition demo_busy :: ro where
  "demo_busy = \<lparr>Ptr = 9, cells = [8 \<mapsto> 0], pcs = (\<lambda>_. AIdle)(0 := AInit, 1 := AWait)\<rparr>"

definition demo_done :: ro where
  "demo_done = \<lparr>Ptr = 0x12, cells = [8 \<mapsto> 0], pcs = (\<lambda>_. AIdle)(0 := ARel 8 0, 1 := AWait)\<rparr>"

lemma demo_busy_reach: "ro_reach demo_addr demo_busy"
proof -
  let ?p = "\<lambda>_ :: nat. AIdle"
  let ?r = "ro_reach demo_addr"
  have "?r \<lparr>Ptr = 0, cells = Map.empty, pcs = ?p\<rparr>"
    using ro_reach.init by (simp add: ro_init_def RtlRunOnceInitialize_def)
  from ro_reach.step[OF this ro_step.call[of _ 0 _ 0]]
  have "?r \<lparr>Ptr = 0, cells = [4 \<mapsto> 0], pcs = ?p(0 := ABegin)\<rparr>" by (simp add: demo_addr_def)
  from ro_reach.step[OF this ro_step.read_begin[of _ 0]]
  have "?r \<lparr>Ptr = 0, cells = [4 \<mapsto> 0], pcs = ?p(0 := ASwitch 0)\<rparr>" by simp
  from ro_reach.step[OF this ro_step.begin_cas[of _ 0 0]]
  have "?r \<lparr>Ptr = 1, cells = Map.empty, pcs = ?p(0 := AInit)\<rparr>"
    by (simp add: demo_addr_def begin_step_def begin_body_def flag_def)
  from ro_reach.step[OF this ro_step.call[of _ 1 _ 0]]
  have "?r \<lparr>Ptr = 1, cells = [8 \<mapsto> 0], pcs = ?p(0 := AInit, 1 := ABegin)\<rparr>" by (simp add: demo_addr_def)
  from ro_reach.step[OF this ro_step.read_begin[of _ 1]]
  have "?r \<lparr>Ptr = 1, cells = [8 \<mapsto> 0], pcs = ?p(0 := AInit, 1 := ASwitch 1)\<rparr>" by simp
  from ro_reach.step[OF this ro_step.begin_cas[of _ 1 1]]
  show ?thesis by (simp add: demo_busy_def demo_addr_def begin_step_def begin_body_def flag_def)
qed

lemma demo_done_reach: "ro_reach demo_addr demo_done"
proof -
  let ?p = "(\<lambda>_ :: nat. AIdle)(1 := AWait)"
  let ?r = "ro_reach demo_addr"
  have "?r \<lparr>Ptr = 9, cells = [8 \<mapsto> 0], pcs = ?p(0 := AInit)\<rparr>"
    using demo_busy_reach by (simp add: demo_busy_def fun_upd_twist)
  from ro_reach.step[OF this ro_step.init_fn[of _ 0 _ "Some 0x10"]]
  have "?r \<lparr>Ptr = 9, cells = [8 \<mapsto> 0], pcs = ?p(0 := AComplete 0x12 0)\<rparr>"
    by (simp add: init_step_def complete_check_def flag_def)
  from ro_reach.step[OF this ro_step.read_complete[of _ 0 "0x12" 0]]
  have "?r \<lparr>Ptr = 9, cells = [8 \<mapsto> 0], pcs = ?p(0 := ACSwitch 0x12 9 0)\<rparr>" by simp
  from ro_reach.step[OF this ro_step.complete_cas[of _ 0 "0x12" 9 0]]
  show ?thesis by (simp add: demo_done_def complete_step_def complete_body_def flag_def fun_upd_twist)
qed

section \<open>Properties\<close>

text \<open>C6: In every reachable state at most one thread is initialising, the state bits say "in progress"
  while one is, and a thread that releases the waiters never reads the variable of a frame that is gone.\<close>

theorem run_once_exclusive:
  assumes "ro_reach addr s"
  shows "(\<forall>t u. initing (pcs s t) \<longrightarrow> initing (pcs s u) \<longrightarrow> t = u) \<and>
    (\<forall>t. initing (pcs s t) \<longrightarrow> Ptr s AND 3 = 1) \<and>
    (\<forall>t v r. pcs s t = ARel v r \<longrightarrow> v \<noteq> 0 \<longrightarrow> cells s v \<noteq> None)"
proof -
  obtain G where inv: "ro_inv addr s G" using ro_reach_inv[OF assms] ..
  then have ci: "chains_inv addr s G" by (simp add: ro_inv_def)
  have "cells s v \<noteq> None" if "pcs s t = ARel v r" "v \<noteq> 0" for t v r
    using chains_chain[OF ci, of "Some t"] that by (cases "G (Some t)") (auto simp: start_def)
  moreover have "(\<forall>t u. initing (pcs s t) \<longrightarrow> initing (pcs s u) \<longrightarrow> t = u)" "\<forall>t. initing (pcs s t) \<longrightarrow> Ptr s AND 3 = 1"
    using inv unfolding ro_inv_def state_inv_def by blast+
  ultimately show ?thesis by blast
qed

theorem run_once_exclusive_witness:
  "{u. initing (pcs demo_busy u)} = {0} \<and> cells demo_done 8 \<noteq> None"
proof -
  note d = run_once_exclusive[OF demo_done_reach] and b = run_once_exclusive[OF demo_busy_reach]
  have "pcs demo_done 0 = ARel 8 0" "(8 :: 32 word) \<noteq> 0" by (simp_all add: demo_done_def)
  then have 1: "cells demo_done 8 \<noteq> None" using d[THEN conjunct2, THEN conjunct2] by blast
  have "initing (pcs demo_busy 0)" by (simp add: demo_busy_def)
  then show ?thesis using b[THEN conjunct1] 1 by blast
qed





text \<open>C22: What \<open>RtlRunOnceComplete\<close> stores, \<open>RtlRunOnceBeginInitialize\<close> reads back: after a success the
  context, with or without \<open>RTL_RUN_ONCE_CHECK_ONLY\<close>; after a failure the initialisation may start again.\<close>

theorem run_once_context_roundtrip:
  assumes "complete_check flags ctx = Inr w"
  shows "if flag flags RTL_RUN_ONCE_INIT_FAILED
    then begin_body bflags a w = BClaim (if flag bflags RTL_RUN_ONCE_ASYNC then 3 else 1) \<and>
      begin_check RTL_RUN_ONCE_CHECK_ONLY w = Some (STATUS_UNSUCCESSFUL, None)
    else begin_body bflags a w = BReturn STATUS_SUCCESS (Some ctx) \<and>
      begin_check RTL_RUN_ONCE_CHECK_ONLY w = Some (STATUS_SUCCESS, Some ctx)"
proof -
  have f: "flag 1 1" "\<not> flag 1 2" by (simp_all add: flag_def)
  show ?thesis using complete_check_word(1,2)[OF assms] f
    by (cases "flag flags RTL_RUN_ONCE_INIT_FAILED") (simp_all add: begin_body_def begin_check_def)
qed

theorem run_once_context_roundtrip_witness:
  "begin_body 2 4 0x1002 = BReturn STATUS_SUCCESS (Some 0x1000)"
  using run_once_context_roundtrip[of 0 "0x1000" "0x1002" 2 4] by (simp add: complete_check_def flag_def)

end
