(* ===== verification/RtlMisc.thy ===== *)
theory RtlMisc
  imports Prelude
begin

text \<open>Small pure routines of the run-time library: the CRC of \<open>crc32.c\<close>, the generators of \<open>random.c\<close>, the
  string scrambling of \<open>encode.c\<close>, access masks (\<open>access.c\<close>) and identifiers (\<open>luid.c\<close>), all under
  \<open>sdk/lib/rtl\<close>.\<close>

section \<open>RtlComputeCrc32\<close>

definition CrcTable :: "32 word list" where
  "CrcTable =
    [
     0x00000000, 0x77073096, 0xee0e612c, 0x990951ba, 0x076dc419, 0x706af48f, 0xe963a535, 0x9e6495a3,
     0x0edb8832, 0x79dcb8a4, 0xe0d5e91e, 0x97d2d988, 0x09b64c2b, 0x7eb17cbd, 0xe7b82d07, 0x90bf1d91,
     0x1db71064, 0x6ab020f2, 0xf3b97148, 0x84be41de, 0x1adad47d, 0x6ddde4eb, 0xf4d4b551, 0x83d385c7,
     0x136c9856, 0x646ba8c0, 0xfd62f97a, 0x8a65c9ec, 0x14015c4f, 0x63066cd9, 0xfa0f3d63, 0x8d080df5,
     0x3b6e20c8, 0x4c69105e, 0xd56041e4, 0xa2677172, 0x3c03e4d1, 0x4b04d447, 0xd20d85fd, 0xa50ab56b,
     0x35b5a8fa, 0x42b2986c, 0xdbbbc9d6, 0xacbcf940, 0x32d86ce3, 0x45df5c75, 0xdcd60dcf, 0xabd13d59,
     0x26d930ac, 0x51de003a, 0xc8d75180, 0xbfd06116, 0x21b4f4b5, 0x56b3c423, 0xcfba9599, 0xb8bda50f,
     0x2802b89e, 0x5f058808, 0xc60cd9b2, 0xb10be924, 0x2f6f7c87, 0x58684c11, 0xc1611dab, 0xb6662d3d,
     0x76dc4190, 0x01db7106, 0x98d220bc, 0xefd5102a, 0x71b18589, 0x06b6b51f, 0x9fbfe4a5, 0xe8b8d433,
     0x7807c9a2, 0x0f00f934, 0x9609a88e, 0xe10e9818, 0x7f6a0dbb, 0x086d3d2d, 0x91646c97, 0xe6635c01,
     0x6b6b51f4, 0x1c6c6162, 0x856530d8, 0xf262004e, 0x6c0695ed, 0x1b01a57b, 0x8208f4c1, 0xf50fc457,
     0x65b0d9c6, 0x12b7e950, 0x8bbeb8ea, 0xfcb9887c, 0x62dd1ddf, 0x15da2d49, 0x8cd37cf3, 0xfbd44c65,
     0x4db26158, 0x3ab551ce, 0xa3bc0074, 0xd4bb30e2, 0x4adfa541, 0x3dd895d7, 0xa4d1c46d, 0xd3d6f4fb,
     0x4369e96a, 0x346ed9fc, 0xad678846, 0xda60b8d0, 0x44042d73, 0x33031de5, 0xaa0a4c5f, 0xdd0d7cc9,
     0x5005713c, 0x270241aa, 0xbe0b1010, 0xc90c2086, 0x5768b525, 0x206f85b3, 0xb966d409, 0xce61e49f,
     0x5edef90e, 0x29d9c998, 0xb0d09822, 0xc7d7a8b4, 0x59b33d17, 0x2eb40d81, 0xb7bd5c3b, 0xc0ba6cad,
     0xedb88320, 0x9abfb3b6, 0x03b6e20c, 0x74b1d29a, 0xead54739, 0x9dd277af, 0x04db2615, 0x73dc1683,
     0xe3630b12, 0x94643b84, 0x0d6d6a3e, 0x7a6a5aa8, 0xe40ecf0b, 0x9309ff9d, 0x0a00ae27, 0x7d079eb1,
     0xf00f9344, 0x8708a3d2, 0x1e01f268, 0x6906c2fe, 0xf762575d, 0x806567cb, 0x196c3671, 0x6e6b06e7,
     0xfed41b76, 0x89d32be0, 0x10da7a5a, 0x67dd4acc, 0xf9b9df6f, 0x8ebeeff9, 0x17b7be43, 0x60b08ed5,
     0xd6d6a3e8, 0xa1d1937e, 0x38d8c2c4, 0x4fdff252, 0xd1bb67f1, 0xa6bc5767, 0x3fb506dd, 0x48b2364b,
     0xd80d2bda, 0xaf0a1b4c, 0x36034af6, 0x41047a60, 0xdf60efc3, 0xa867df55, 0x316e8eef, 0x4669be79,
     0xcb61b38c, 0xbc66831a, 0x256fd2a0, 0x5268e236, 0xcc0c7795, 0xbb0b4703, 0x220216b9, 0x5505262f,
     0xc5ba3bbe, 0xb2bd0b28, 0x2bb45a92, 0x5cb36a04, 0xc2d7ffa7, 0xb5d0cf31, 0x2cd99e8b, 0x5bdeae1d,
     0x9b64c2b0, 0xec63f226, 0x756aa39c, 0x026d930a, 0x9c0906a9, 0xeb0e363f, 0x72076785, 0x05005713,
     0x95bf4a82, 0xe2b87a14, 0x7bb12bae, 0x0cb61b38, 0x92d28e9b, 0xe5d5be0d, 0x7cdcefb7, 0x0bdbdf21,
     0x86d3d2d4, 0xf1d4e242, 0x68ddb3f8, 0x1fda836e, 0x81be16cd, 0xf6b9265b, 0x6fb077e1, 0x18b74777,
     0x88085ae6, 0xff0f6a70, 0x66063bca, 0x11010b5c, 0x8f659eff, 0xf862ae69, 0x616bffd3, 0x166ccf45,
     0xa00ae278, 0xd70dd2ee, 0x4e048354, 0x3903b3c2, 0xa7672661, 0xd06016f7, 0x4969474d, 0x3e6e77db,
     0xaed16a4a, 0xd9d65adc, 0x40df0b66, 0x37d83bf0, 0xa9bcae53, 0xdebb9ec5, 0x47b2cf7f, 0x30b5ffe9,
     0xbdbdf21c, 0xcabac28a, 0x53b39330, 0x24b4a3a6, 0xbad03605, 0xcdd70693, 0x54de5729, 0x23d967bf,
     0xb3667a2e, 0xc4614ab8, 0x5d681b02, 0x2a6f2b94, 0xb40bbe37, 0xc30c8ea1, 0x5a05df1b, 0x2d02ef8d]"

text \<open>The loop, over the bytes at \<open>Data\<close>; \<open>None\<close> when \<open>Length\<close> is more than the buffer holds.\<close>

fun crc_loop :: "32 word \<Rightarrow> 8 word list \<Rightarrow> nat \<Rightarrow> 32 word option" where
  "crc_loop CrcValue Data 0 = Some CrcValue"
| "crc_loop CrcValue [] (Suc Length) = None"
| "crc_loop CrcValue (b # Data) (Suc Length) = do {
     t \<leftarrow> rd CrcTable (unat ((CrcValue XOR ucast b) AND 0xff));
     crc_loop (t XOR drop_bit 8 CrcValue) Data Length }"

definition RtlComputeCrc32 :: "32 word \<Rightarrow> 8 word list \<Rightarrow> 32 word \<Rightarrow> 32 word option" where
  "RtlComputeCrc32 Initial Data Length = map_option (\<lambda>v. NOT v) (crc_loop (NOT Initial) Data (unat Length))"

section \<open>Random numbers\<close>

text \<open>The two vectors and the auxiliary variable are global state.\<close>

record random_state =
  RtlpRandomConstantVector :: "32 word list"
  RtlpRandomExConstantVector :: "32 word list"
  RtlpRandomExAuxVarY :: "32 word"

abbreviation (input) "MAXLONG \<equiv> (0x7fffffff :: 32 word)"

definition lcg :: "32 word \<Rightarrow> 32 word" where
  "lcg seed = (seed * 0x7fffffed + 0x7fffffc3) mod MAXLONG"

definition RtlUniform :: "32 word \<Rightarrow> 32 word \<times> 32 word" where
  "RtlUniform Seed = (let Result = lcg Seed in (Result, Result))"

text \<open>Each routine returns its result, the new seed and the new state.\<close>

definition RtlRandom :: "32 word \<Rightarrow> random_state \<Rightarrow> (32 word \<times> 32 word \<times> random_state) option" where
  "RtlRandom Seed s = (
     let Rand = lcg Seed; Seed' = lcg Rand; Pos = unat (Seed' AND 127) in do {
     Result \<leftarrow> rd (RtlpRandomConstantVector s) Pos;
     v \<leftarrow> wr (RtlpRandomConstantVector s) Pos Rand;
     Some (Result, Seed', s\<lparr>RtlpRandomConstantVector := v\<rparr>) })"

definition RtlRandomEx :: "32 word \<Rightarrow> random_state \<Rightarrow> (32 word \<times> 32 word \<times> random_state) option" where
  "RtlRandomEx Seed s = (
     let Pos = unat (RtlpRandomExAuxVarY s AND 127) in do {
     y \<leftarrow> rd (RtlpRandomExConstantVector s) Pos;
     let Rand = lcg Seed;
     v \<leftarrow> wr (RtlpRandomExConstantVector s) Pos Rand;
     Some (Rand, Rand, s\<lparr>RtlpRandomExAuxVarY := y, RtlpRandomExConstantVector := v\<rparr>) })"

definition random_vector :: "32 word list" where
  "random_vector =
    [
     0x4c8bc0aa, 0x4c022957, 0x2232827a, 0x2f1e7626, 0x7f8bdafb, 0x5c37d02a, 0x0ab48f72, 0x2f0c4ffa,
     0x290e1954, 0x6b635f23, 0x5d3885c0, 0x74b49ff8, 0x5155fa54, 0x6214ad3f, 0x111e9c29, 0x242a3a09,
     0x75932ae1, 0x40ac432e, 0x54f7ba7a, 0x585ccbd5, 0x6df5c727, 0x0374dad1, 0x7112b3f1, 0x735fc311,
     0x404331a9, 0x74d97781, 0x64495118, 0x323e04be, 0x5974b425, 0x4862e393, 0x62389c1d, 0x28a68b82,
     0x0f95da37, 0x7a50bbc6, 0x09b0091c, 0x22cdb7b4, 0x4faaed26, 0x66417ccd, 0x189e4bfa, 0x1ce4e8dd,
     0x5274c742, 0x3bdcf4dc, 0x2d94e907, 0x32eac016, 0x26d33ca3, 0x60415a8a, 0x31f57880, 0x68c8aa52,
     0x23eb16da, 0x6204f4a1, 0x373927c1, 0x0d24eb7c, 0x06dd7379, 0x2b3be507, 0x0f9c55b1, 0x2c7925eb,
     0x36d67c9a, 0x42f831d9, 0x5e3961cb, 0x65d637a8, 0x24bb3820, 0x4d08e33d, 0x2188754f, 0x147e409e,
     0x6a9620a0, 0x62e26657, 0x7bd8ce81, 0x11da0abb, 0x5f9e7b50, 0x23e444b6, 0x25920c78, 0x5fc894f0,
     0x5e338cbb, 0x404237fd, 0x1d60f80f, 0x320a1743, 0x76013d2b, 0x070294ee, 0x695e243b, 0x56b177fd,
     0x752492e1, 0x6decd52f, 0x125f5219, 0x139d2e78, 0x1898d11e, 0x2f7ee785, 0x4db405d8, 0x1a028a35,
     0x63f6f323, 0x1f6d0078, 0x307cfd67, 0x3f32a78a, 0x6980796c, 0x462b3d83, 0x34b639f2, 0x53fce379,
     0x74ba50f4, 0x1abc2c4b, 0x5eeaeb8d, 0x335a7a0d, 0x3973dd20, 0x0462d66b, 0x159813ff, 0x1e4643fd,
     0x06bc5c62, 0x3115e3fc, 0x09101613, 0x47af2515, 0x4f11ec54, 0x78b99911, 0x3db8dd44, 0x1ec10b9b,
     0x5b5506ca, 0x773ce092, 0x567be81a, 0x5475b975, 0x7a2cde1a, 0x494536f5, 0x34737bb4, 0x76d9750b,
     0x2a1f6232, 0x2e49644d, 0x7dddcbe7, 0x500cebdb, 0x619dab9e, 0x48c626fe, 0x1cda3193, 0x52dabe9d]"

definition random_ex_vector :: "32 word list" where
  "random_ex_vector =
    [
     0x4c8bc0aa, 0x51a0b326, 0x7112b3f1, 0x1b9ca4e1, 0x735fc311, 0x6fe48580, 0x320a1743, 0x494045ca,
     0x103ad1c5, 0x4ba26e25, 0x62f1d304, 0x280d5677, 0x070294ee, 0x7acef21a, 0x62a407d5, 0x2dd36af5,
     0x194f0f95, 0x1f21d7b4, 0x307cfd67, 0x66b9311e, 0x60415a8a, 0x5b264785, 0x3c28b0e4, 0x08faded7,
     0x556175ce, 0x29c44179, 0x666f23c9, 0x65c057d8, 0x72b97abc, 0x7c3be3d0, 0x478e1753, 0x3074449b,
     0x675ee842, 0x53f4c2de, 0x44d58949, 0x6426cf59, 0x111e9c29, 0x3aba68b9, 0x242a3a09, 0x50ddb118,
     0x7f8bdafb, 0x089ebf23, 0x5c37d02a, 0x27db8ca6, 0x0ab48f72, 0x34995a4e, 0x189e4bfa, 0x2c405c36,
     0x373927c1, 0x66c20c71, 0x5f991360, 0x67a38fa3, 0x4edc56aa, 0x25a59126, 0x34b639f2, 0x1679b2ce,
     0x54f7ba7a, 0x319d28b5, 0x5155fa54, 0x769e6b87, 0x323e04be, 0x4565a5aa, 0x5974b425, 0x5c56a104,
     0x25920c78, 0x362912dc, 0x7af3996f, 0x5feb9c87, 0x618361bf, 0x433fbe97, 0x0244da8e, 0x54e3c739,
     0x33183689, 0x3533f398, 0x0d24eb7c, 0x06428590, 0x09101613, 0x53ce5c5a, 0x47af2515, 0x2e003f35,
     0x15fb4ed5, 0x5e5925f4, 0x7f622ea7, 0x0bb6895f, 0x2173cdb6, 0x0467bb41, 0x2c4d19f1, 0x364712e1,
     0x78b99911, 0x0a39a380, 0x3db8dd44, 0x6b4793b8, 0x09b0091c, 0x47ef52b0, 0x293cdcb3, 0x707b9e7b,
     0x26d33ca3, 0x1e527faa, 0x3fe08625, 0x42560b04, 0x139d2e78, 0x0b558cdb, 0x28a68b82, 0x7ba3a51d,
     0x52dabe9d, 0x59c3da1d, 0x5676cf9c, 0x152e972f, 0x6d8ac746, 0x5eb33591, 0x78b30601, 0x0ab68db0,
     0x34737bb4, 0x1b6dd168, 0x76d9750b, 0x2ddc4ff2, 0x18a610cd, 0x2bacc08c, 0x422db55f, 0x169b89b6,
     0x5274c742, 0x615535dd, 0x46ad005d, 0x4128f8dd, 0x29f5875c, 0x62c6f3ef, 0x2b3be507, 0x4a8e003f]"

definition random_init :: random_state where
  "random_init = \<lparr>RtlpRandomConstantVector = random_vector, RtlpRandomExConstantVector = random_ex_vector,
     RtlpRandomExAuxVarY = 0x7775fb16\<rparr>"

section \<open>Scrambled strings\<close>

text \<open>The bytes of the buffer, of which the first \<open>Length\<close> belong to the string. The loop of the decoder
  runs down, that of the encoder up.\<close>

fun decode_loop :: "8 word \<Rightarrow> nat \<Rightarrow> 8 word list \<Rightarrow> 8 word list option" where
  "decode_loop Hash 0 ptr = Some ptr"
| "decode_loop Hash (Suc 0) ptr = Some ptr"
| "decode_loop Hash (Suc (Suc i)) ptr = do {
     a \<leftarrow> rd ptr (Suc i);
     b \<leftarrow> rd ptr i;
     ptr \<leftarrow> wr ptr (Suc i) (a XOR (b XOR Hash));
     decode_loop Hash (Suc i) ptr }"

definition RtlRunDecodeUnicodeString :: "8 word \<Rightarrow> 8 word list \<Rightarrow> 16 word \<Rightarrow> 8 word list option" where
  "RtlRunDecodeUnicodeString Hash ptr Length = do {
     ptr \<leftarrow> (if 1 < unat Length then decode_loop Hash (unat Length) ptr else Some ptr);
     if 1 \<le> unat Length then do {
       a \<leftarrow> rd ptr 0;
       wr ptr 0 (a XOR (Hash OR 0x43)) }
     else Some ptr }"

fun encode_loop :: "8 word \<Rightarrow> nat \<Rightarrow> nat \<Rightarrow> 8 word list \<Rightarrow> 8 word list option" where
  "encode_loop Hash i 0 ptr = Some ptr"
| "encode_loop Hash i (Suc n) ptr = do {
     a \<leftarrow> rd ptr i;
     b \<leftarrow> rd ptr (i - 1);
     ptr \<leftarrow> wr ptr i (a XOR (b XOR Hash));
     encode_loop Hash (Suc i) n ptr }"

text \<open>A zero hash is replaced by bytes of the system time, if it can be read, or by 1. \<open>now\<close> is the result
  of \<open>NtQuerySystemTime\<close>: the bytes of the time after the first.\<close>

fun hash_loop :: "8 word \<Rightarrow> 8 word list \<Rightarrow> 8 word" where
  "hash_loop Hash [] = Hash"
| "hash_loop Hash (b # bs) = (if Hash = 0 then hash_loop (Hash OR b) bs else Hash)"

definition encode_hash :: "8 word list option \<Rightarrow> 8 word \<Rightarrow> 8 word" where
  "encode_hash now Hash =
     (if Hash = 0 then
        (let h = (case now of None \<Rightarrow> Hash | Some bs \<Rightarrow> hash_loop Hash bs) in if h = 0 then 1 else h)
      else Hash)"

definition RtlRunEncodeUnicodeString ::
  "8 word list option \<Rightarrow> 8 word \<Rightarrow> 8 word list \<Rightarrow> 16 word \<Rightarrow> (8 word \<times> 8 word list) option" where
  "RtlRunEncodeUnicodeString now Hash ptr Length = (
     let Hash = encode_hash now Hash in
     if 1 \<le> unat Length then do {
       a \<leftarrow> rd ptr 0;
       ptr \<leftarrow> wr ptr 0 (a XOR (Hash OR 0x43));
       ptr \<leftarrow> (if 1 < unat Length then encode_loop Hash 1 (unat Length - 1) ptr else Some ptr);
       Some (Hash, ptr) }
     else Some (Hash, ptr))"

section \<open>Access masks and identifiers\<close>

definition RtlAreAllAccessesGranted :: "32 word \<Rightarrow> 32 word \<Rightarrow> bool" where
  "RtlAreAllAccessesGranted GrantedAccess DesiredAccess \<longleftrightarrow> NOT GrantedAccess AND DesiredAccess = 0"

definition RtlAreAnyAccessesGranted :: "32 word \<Rightarrow> 32 word \<Rightarrow> bool" where
  "RtlAreAnyAccessesGranted GrantedAccess DesiredAccess \<longleftrightarrow> GrantedAccess AND DesiredAccess \<noteq> 0"

record GENERIC_MAPPING =
  GenericRead :: "32 word"
  GenericWrite :: "32 word"
  GenericExecute :: "32 word"
  GenericAll :: "32 word"

abbreviation (input) "GENERIC_READ \<equiv> (0x80000000 :: 32 word)"
abbreviation (input) "GENERIC_WRITE \<equiv> (0x40000000 :: 32 word)"
abbreviation (input) "GENERIC_EXECUTE \<equiv> (0x20000000 :: 32 word)"
abbreviation (input) "GENERIC_ALL \<equiv> (0x10000000 :: 32 word)"

definition RtlMapGenericMask :: "32 word \<Rightarrow> GENERIC_MAPPING \<Rightarrow> 32 word" where
  "RtlMapGenericMask AccessMask GenericMapping =
     (let m = AccessMask;
          m = (if m AND GENERIC_READ \<noteq> 0 then m OR GenericRead GenericMapping else m);
          m = (if m AND GENERIC_WRITE \<noteq> 0 then m OR GenericWrite GenericMapping else m);
          m = (if m AND GENERIC_EXECUTE \<noteq> 0 then m OR GenericExecute GenericMapping else m);
          m = (if m AND GENERIC_ALL \<noteq> 0 then m OR GenericAll GenericMapping else m)
      in m AND NOT (GENERIC_READ OR GENERIC_WRITE OR GENERIC_EXECUTE OR GENERIC_ALL))"

record LUID =
  LowPart :: "32 word"
  HighPart :: "32 word"

definition RtlCopyLuid :: "LUID \<Rightarrow> LUID \<Rightarrow> LUID" where
  "RtlCopyLuid LuidDest LuidSrc = LuidDest\<lparr>LowPart := LowPart LuidSrc, HighPart := HighPart LuidSrc\<rparr>"

definition RtlEqualLuid :: "LUID \<Rightarrow> LUID \<Rightarrow> bool" where
  "RtlEqualLuid Luid1 Luid2 \<longleftrightarrow> LowPart Luid1 = LowPart Luid2 \<and> HighPart Luid1 = HighPart Luid2"

fun RtlCopyLuidAndAttributesArray :: "nat \<Rightarrow> nat \<Rightarrow> 'a list \<Rightarrow> 'a list \<Rightarrow> 'a list option" where
  "RtlCopyLuidAndAttributesArray i 0 Src Dest = Some Dest"
| "RtlCopyLuidAndAttributesArray i (Suc Count) Src Dest = do {
     v \<leftarrow> rd Src i;
     Dest \<leftarrow> wr Dest i v;
     RtlCopyLuidAndAttributesArray (Suc i) Count Src Dest }"

end
