(* ===== verification/Crc32_Correct.thy ===== *)
theory Crc32_Correct
  imports RtlMisc
begin

text \<open>The table-driven CRC of \<open>sdk/lib/rtl/crc32.c\<close> is the bitwise one, and it can be computed in pieces.\<close>

section \<open>The reference\<close>

text \<open>The reference: one bit at a time, with the reflected polynomial.\<close>

definition crc_bit :: "32 word \<Rightarrow> 32 word" where
  "crc_bit v = (if bit v 0 then drop_bit 1 v XOR 0xedb88320 else drop_bit 1 v)"

fun crc_ref :: "32 word \<Rightarrow> 8 word list \<Rightarrow> 32 word" where
  "crc_ref v [] = v"
| "crc_ref v (b # bs) = crc_ref ((crc_bit ^^ 8) (v XOR ucast b)) bs"

lemma crc_bit_xor: "crc_bit (x XOR y) = crc_bit x XOR crc_bit y"
  by (cases "bit x 0"; cases "bit y 0")
    (simp_all add: crc_bit_def bit_xor_iff drop_bit_xor xor.assoc xor.left_commute xor.commute)

lemma crc_bits_xor: "(crc_bit ^^ n) (x XOR y) = (crc_bit ^^ n) x XOR (crc_bit ^^ n) y"
  by (induction n) (simp_all add: crc_bit_xor)

lemma crc_bits_high: "(\<And>i. i < n \<Longrightarrow> \<not> bit x i) \<Longrightarrow> (crc_bit ^^ n) x = drop_bit n x"
proof (induction n)
  case (Suc n)
  have "(crc_bit ^^ n) x = drop_bit n x" using Suc by simp
  moreover have "\<not> bit (drop_bit n x) 0" using Suc.prems[of n] by (simp add: bit_drop_bit_eq)
  ultimately have "crc_bit ((crc_bit ^^ n) x) = drop_bit 1 (drop_bit n x)" unfolding crc_bit_def by simp
  then show ?case by (simp add: drop_bit_drop_bit)
qed simp

lemma crc8: "(crc_bit ^^ 8) x = crc_bit (crc_bit (crc_bit (crc_bit (crc_bit (crc_bit (crc_bit (crc_bit x)))))))"
  by (simp add: numeral_eq_Suc)

lemma crc_bit_numeral [simp]:
  "crc_bit 0 = 0" "crc_bit 1 = 0xedb88320"
  "crc_bit (numeral (num.Bit0 n)) = drop_bit 1 (numeral (num.Bit0 n))"
  "crc_bit (numeral (num.Bit1 n)) = drop_bit 1 (numeral (num.Bit1 n)) XOR 0xedb88320"
  by (simp_all add: crc_bit_def bit_0)

lemma CrcTable_bits: "map (\<lambda>i. (crc_bit ^^ 8) (word_of_nat i)) [0..<256] = CrcTable"
  unfolding crc8 by (simp add: CrcTable_def upt_rec)

lemma length_CrcTable: "length CrcTable = 256"
  using arg_cong[OF CrcTable_bits, of length] by simp

lemma CrcTable_nth: "i < 256 \<Longrightarrow> CrcTable ! i = (crc_bit ^^ 8) (word_of_nat i)"
  unfolding CrcTable_bits[symmetric] by simp

lemma and_ff: "(x :: 32 word) AND 0xff = take_bit 8 x"
  by (simp add: take_bit_eq_mask mask_eq_exp_minus_1)

lemma crc_step:
  "CrcTable ! unat ((v XOR ucast b) AND 0xff) XOR drop_bit 8 v = (crc_bit ^^ 8) (v XOR ucast (b :: 8 word))"
  "unat ((v XOR ucast b) AND 0xff) < 256"
proof -
  let ?x = "v XOR ucast b :: 32 word"
  let ?h = "push_bit 8 (drop_bit 8 ?x)"
  have low: "unat (take_bit 8 ?x) < 256"
    unfolding unsigned_take_bit_eq using take_bit_nat_less_exp[of 8 "unat ?x"] by simp
  then show "unat (?x AND 0xff) < 256" by (simp add: and_ff)
  have "?x = take_bit 8 ?x XOR ?h"
  proof (rule bit_eqI)
    show "bit ?x n = bit (take_bit 8 ?x XOR ?h) n" if "possible_bit TYPE(32 word) n" for n
      using that by (cases "n < 8") (simp_all add: bit_xor_iff bit_take_bit_iff bit_push_bit_iff bit_drop_bit_eq)
  qed
  then have "(crc_bit ^^ 8) ?x = (crc_bit ^^ 8) (take_bit 8 ?x) XOR (crc_bit ^^ 8) ?h"
    using crc_bits_xor by metis
  also have "(crc_bit ^^ 8) ?h = drop_bit 8 ?h" by (rule crc_bits_high) (simp add: bit_push_bit_iff del: drop_bit_xor push_bit_xor)
  also have "\<dots> = drop_bit 8 v"
    by (rule bit_eqI) (auto simp: bit_push_bit_iff bit_drop_bit_eq bit_xor_iff bit_ucast_iff dest: bit_imp_le_length)
  finally show "CrcTable ! unat (?x AND 0xff) XOR drop_bit 8 v = (crc_bit ^^ 8) ?x"
    using CrcTable_nth[OF low] by (simp add: and_ff)
qed

lemma crc_loop_ref: "n \<le> length d \<Longrightarrow> crc_loop v d n = Some (crc_ref v (take n d))"
proof (induction v d n rule: crc_loop.induct)
  case (3 v b d n)
  then show ?case using crc_step[of v b] length_CrcTable by (simp add: rd_def)
qed auto

lemma crc_ref_append: "crc_ref v (a @ b) = crc_ref (crc_ref v a) b"
  by (induction v a rule: crc_ref.induct) simp_all

lemma RtlComputeCrc32_take:
  "unat n \<le> length d \<Longrightarrow> RtlComputeCrc32 i d n = Some (NOT (crc_ref (NOT i) (take (unat n) d)))"
  by (simp add: RtlComputeCrc32_def crc_loop_ref)

section \<open>Property\<close>

text \<open>C26: \<open>RtlComputeCrc32\<close> computes the CRC with the reflected polynomial \<open>0xedb88320\<close>, one bit at a time
  by definition, and the CRC of a buffer is that of its second part started with that of its first.\<close>

theorem RtlComputeCrc32_bitwise:
  assumes "unat n \<le> length a" "unat k \<le> length b" "unat n + unat k < 2 ^ 32"
  shows "RtlComputeCrc32 Initial a n = Some (NOT (crc_ref (NOT Initial) (take (unat n) a))) \<and>
    do { c \<leftarrow> RtlComputeCrc32 Initial a n; RtlComputeCrc32 c b k } =
      RtlComputeCrc32 Initial (take (unat n) a @ take (unat k) b) (n + k)"
proof -
  have 1: "RtlComputeCrc32 Initial a n = Some (NOT (crc_ref (NOT Initial) (take (unat n) a)))"
    using assms(1) by (rule RtlComputeCrc32_take)
  have "unat (n + k) = unat n + unat k" using assms(3) by (intro unat_add_fits) simp
  then show ?thesis
    using assms by (simp add: 1 RtlComputeCrc32_take crc_ref_append)
qed

theorem RtlComputeCrc32_bitwise_witness:
  "do { c \<leftarrow> RtlComputeCrc32 0 [0x31, 0x32] 2; RtlComputeCrc32 c [0x33] 1 } = RtlComputeCrc32 0 [0x31, 0x32, 0x33] 3"
  using RtlComputeCrc32_bitwise[of 2 "[0x31, 0x32]" 1 "[0x33]" 0, THEN conjunct2] by simp

end
