(* ===== verification/RtlMisc_Correct.thy ===== *)
theory RtlMisc_Correct
  imports RtlMisc
begin

text \<open>Correctness of the small routines: the random generators stay within their range, scrambled strings
  can be read back, and generic rights are mapped.\<close>

section \<open>Random numbers\<close>

definition random_ok :: "random_state \<Rightarrow> bool" where
  "random_ok s \<longleftrightarrow> length (RtlpRandomConstantVector s) = 128 \<and> length (RtlpRandomExConstantVector s) = 128 \<and>
     list_all (\<lambda>v. v < MAXLONG) (RtlpRandomConstantVector s) \<and>
     list_all (\<lambda>v. v < MAXLONG) (RtlpRandomExConstantVector s)"

lemma random_init_ok: "random_ok random_init"
  by (simp add: random_ok_def random_init_def random_vector_def random_ex_vector_def)

lemma lcg_less: "lcg s < MAXLONG"
  by (simp add: lcg_def word_less_nat_alt unat_mod)

lemma pos_less: "unat (x AND 127 :: 32 word) < 128"
proof -
  have "x AND 127 = take_bit 7 x" by (simp add: take_bit_eq_mask mask_eq_exp_minus_1)
  then show ?thesis using take_bit_nat_less_exp[of 7 "unat x"] by (simp add: unsigned_take_bit_eq)
qed

lemma list_all_update: "list_all P xs \<Longrightarrow> P v \<Longrightarrow> list_all P (xs[i := v])"
  by (auto simp: list_all_iff dest: set_update_subset_insert[THEN subsetD])

section \<open>Scrambled strings\<close>

text \<open>The encoder leaves \<open>e\<^sub>i = d\<^sub>i XOR (e\<^sub>i\<^sub>-\<^sub>1 XOR h)\<close>.\<close>

lemma encode_loop_spec:
  assumes "0 < i" "i + n \<le> length d"
  shows "\<exists>e. encode_loop h i n d = Some e \<and> length e = length d \<and>
    (\<forall>j. j < i \<or> i + n \<le> j \<longrightarrow> e ! j = d ! j) \<and>
    (\<forall>j. i \<le> j \<and> j < i + n \<longrightarrow> e ! j = d ! j XOR (e ! (j - 1) XOR h))"
  using assms
proof (induction h i n d rule: encode_loop.induct)
  case (2 h i n d)
  let ?d = "d[i := d ! i XOR (d ! (i - 1) XOR h)]"
  have "rd d i = Some (d ! i)" "rd d (i - 1) = Some (d ! (i - 1))" "wr d i v = Some (d[i := v])" for v
    using 2 by (auto simp: rd_def wr_def)
  moreover from 2 this obtain e where e: "encode_loop h (Suc i) n ?d = Some e" "length e = length d"
    "\<And>j. j < Suc i \<or> Suc i + n \<le> j \<Longrightarrow> e ! j = ?d ! j"
    "\<And>j. Suc i \<le> j \<Longrightarrow> j < Suc i + n \<Longrightarrow> e ! j = ?d ! j XOR (e ! (j - 1) XOR h)"
    by fastforce
  moreover have "e ! j = d ! j XOR (e ! (j - 1) XOR h)" if "i \<le> j" "j < i + Suc n" for j
  proof (cases "j = i")
    case True
    moreover have "e ! (i - 1) = d ! (i - 1)" using 2(2) e(3)[of "i - 1"] by (simp add: less_imp_diff_less)
    ultimately show ?thesis using 2(2,3) e(3)[of i] by simp
  next
    case False
    then show ?thesis using that e(4)[of j] by simp
  qed
  ultimately show ?case using e(3) by auto
qed auto

lemma decode_loop_spec:
  assumes "n \<le> length e"
  shows "\<exists>d. decode_loop h n e = Some d \<and> length d = length e \<and>
    (\<forall>j. j = 0 \<or> n \<le> j \<longrightarrow> d ! j = e ! j) \<and>
    (\<forall>j. 0 < j \<and> j < n \<longrightarrow> d ! j = e ! j XOR (e ! (j - 1) XOR h))"
  using assms
proof (induction h n e rule: decode_loop.induct)
  case (3 h i e)
  let ?e = "e[Suc i := e ! Suc i XOR (e ! i XOR h)]"
  have "rd e (Suc i) = Some (e ! Suc i)" "rd e i = Some (e ! i)" "wr e (Suc i) v = Some (e[Suc i := v])" for v
    using 3 by (auto simp: rd_def wr_def)
  moreover from 3 this obtain d where d: "decode_loop h (Suc i) ?e = Some d" "length d = length e"
    "\<And>j. j = 0 \<or> Suc i \<le> j \<Longrightarrow> d ! j = ?e ! j"
    "\<And>j. 0 < j \<Longrightarrow> j < Suc i \<Longrightarrow> d ! j = ?e ! j XOR (?e ! (j - 1) XOR h)"
    by fastforce
  moreover have "d ! j = e ! j XOR (e ! (j - 1) XOR h)" if "0 < j" "j < Suc (Suc i)" for j
  proof (cases "j = Suc i")
    case True
    then show ?thesis using d(3)[of j] 3 by simp
  next
    case False
    then show ?thesis using d(4)[of j] that by simp
  qed
  ultimately show ?case using d(3) by auto
qed auto

lemma xor_cancel: "((a :: 8 word) XOR b) XOR b = a"
  by (simp add: xor.assoc)

lemma encode_unfold:
  assumes "0 < length d" "unat n = Suc m"
  shows "RtlRunEncodeUnicodeString now h d n = do {
    e \<leftarrow> encode_loop (encode_hash now h) 1 m (d[0 := d ! 0 XOR (encode_hash now h OR 0x43)]);
    Some (encode_hash now h, e) }"
  using assms
  by (cases m) (simp_all add: RtlRunEncodeUnicodeString_def Let_def mem_simps del: encode_loop.simps(2))

lemma bind_pair: "do { e \<leftarrow> x; Some (h, e) } = Some (h', e') \<Longrightarrow> h = h' \<and> x = Some e'"
  by (cases x) auto

lemma decode_encode:
  assumes len: "unat n \<le> length d" and enc: "RtlRunEncodeUnicodeString now h d n = Some (h', e)"
  shows "RtlRunDecodeUnicodeString h' e n = Some d"
proof (cases "unat n")
  case 0
  then show ?thesis using enc by (simp add: RtlRunEncodeUnicodeString_def RtlRunDecodeUnicodeString_def Let_def)
next
  case (Suc m)
  define d0 where "d0 = d[0 := d ! 0 XOR (h' OR 0x43)]"
  have "0 < length d" using len Suc by linarith
  have loop: "encode_loop h' 1 m d0 = Some e"
  proof -
    have "do { e \<leftarrow> encode_loop (encode_hash now h) 1 m (d[0 := d ! 0 XOR (encode_hash now h OR 0x43)]);
        Some (encode_hash now h, e) } = Some (h', e)"
      using enc unfolding encode_unfold[OF \<open>0 < length d\<close> Suc] .
    note b = bind_pair[OF this, THEN conjunct1] bind_pair[OF this, THEN conjunct2]
    show ?thesis unfolding d0_def using b(2) unfolding b(1) .
  qed
  have "1 + m \<le> length d0" "Suc m \<le> length d0" using len Suc by (simp_all add: d0_def)
  obtain e' where e': "encode_loop h' 1 m d0 = Some e'" "length e' = length d0"
    "\<forall>j. j < 1 \<or> 1 + m \<le> j \<longrightarrow> e' ! j = d0 ! j"
    "\<forall>j. 1 \<le> j \<and> j < 1 + m \<longrightarrow> e' ! j = d0 ! j XOR (e' ! (j - 1) XOR h')"
    using encode_loop_spec[OF zero_less_one \<open>1 + m \<le> length d0\<close>] by blast
  have e: "e' = e" "length e = length d" using e'(1,2) loop by (auto simp: d0_def)
  then have "Suc m \<le> length e" using \<open>Suc m \<le> length d0\<close> e'(2) by simp
  obtain d1 where d1: "decode_loop h' (Suc m) e = Some d1" "length d1 = length e"
    "\<forall>j. j = 0 \<or> Suc m \<le> j \<longrightarrow> d1 ! j = e ! j"
    "\<forall>j. 0 < j \<and> j < Suc m \<longrightarrow> d1 ! j = e ! j XOR (e ! (j - 1) XOR h')"
    using decode_loop_spec[OF \<open>Suc m \<le> length e\<close>] by blast
  have "d1 ! j = d0 ! j" for j
  proof (cases "j = 0 \<or> Suc m \<le> j")
    case True
    then show ?thesis using e'(3)[rule_format, of j] d1(3)[rule_format, of j] e(1) by auto
  next
    case False
    then have "d1 ! j = e ! j XOR (e ! (j - 1) XOR h')" "e ! j = d0 ! j XOR (e ! (j - 1) XOR h')"
      using e'(4)[rule_format, of j] d1(4)[rule_format, of j] unfolding e(1) by simp_all
    then show ?thesis using xor_cancel[of "d0 ! j" "e ! (j - 1) XOR h'"] by metis
  qed
  then have "d1 = d0" using d1(2) e(2) by (intro nth_equalityI) (simp_all add: d0_def)
  moreover have "d0[0 := d0 ! 0 XOR (h' OR 0x43)] = d"
    using \<open>0 < length d\<close> xor_cancel[of "d ! 0" "h' OR 0x43"] by (simp add: d0_def)
  moreover have "0 < length d0" using \<open>0 < length d\<close> by (simp add: d0_def)
  ultimately show ?thesis using d1(1) Suc
    by (cases m) (simp_all add: RtlRunDecodeUnicodeString_def mem_simps del: decode_loop.simps(3))
qed

lemma encode_total:
  assumes "unat n \<le> length d"
  shows "\<exists>e. RtlRunEncodeUnicodeString now h d n = Some (encode_hash now h, e) \<and> length e = length d"
proof (cases "unat n")
  case 0
  then show ?thesis by (simp add: RtlRunEncodeUnicodeString_def Let_def)
next
  case (Suc m)
  let ?d = "d[0 := d ! 0 XOR (encode_hash now h OR 0x43)]"
  have "0 < length d" using assms Suc by linarith
  moreover obtain e where "encode_loop (encode_hash now h) 1 m ?d = Some e" "length e = length ?d"
    using encode_loop_spec[of 1 m ?d "encode_hash now h"] assms Suc by auto
  ultimately show ?thesis using encode_unfold[OF _ Suc, of d now h] by auto
qed

lemma encode_hash_nonzero: "encode_hash now h \<noteq> 0"
  by (simp add: encode_hash_def Let_def)

section \<open>Properties\<close>

text \<open>C27: A string scrambled by \<open>RtlRunEncodeUnicodeString\<close> is read back by \<open>RtlRunDecodeUnicodeString\<close> with the
  hash the encoder returns, which is never zero; neither routine leaves the buffer.\<close>

theorem encode_decode_roundtrip:
  assumes "unat n \<le> length d"
  shows "\<exists>h' e. RtlRunEncodeUnicodeString now h d n = Some (h', e) \<and> h' \<noteq> 0 \<and> length e = length d \<and>
    RtlRunDecodeUnicodeString h' e n = Some d"
proof -
  obtain e where e: "RtlRunEncodeUnicodeString now h d n = Some (encode_hash now h, e)" "length e = length d"
    using encode_total[OF assms] by blast
  then show ?thesis using decode_encode[OF assms e(1)] encode_hash_nonzero by blast
qed

theorem encode_decode_roundtrip_witness:
  "\<exists>h' e. RtlRunEncodeUnicodeString None 0 [0x41, 0, 0x42, 0] 4 = Some (h', e) \<and> h' \<noteq> 0 \<and> length e = Suc (Suc (Suc (Suc 0))) \<and>
    RtlRunDecodeUnicodeString h' e 4 = Some [0x41, 0, 0x42, 0]"
  using encode_decode_roundtrip[of 4 "[0x41, 0, 0x42, 0]" None 0] by simp

text \<open>In a state whose vectors have 128 numbers below \<open>MAXLONG\<close>, as the initial one, \<open>RtlRandom\<close> and
  \<open>RtlRandomEx\<close> return numbers and seeds below \<open>MAXLONG\<close> whatever the seed, without leaving the vectors, and
  the new state has the same property.\<close>

lemma random_bounds:
  assumes "random_ok s"
  shows "(\<exists>r seed' s'. RtlRandom seed s = Some (r, seed', s') \<and> r < MAXLONG \<and> seed' < MAXLONG \<and> random_ok s') \<and>
    (\<exists>r s'. RtlRandomEx seed s = Some (r, r, s') \<and> r < MAXLONG \<and> random_ok s') \<and>
    fst (RtlUniform seed) < MAXLONG"
proof -
  let ?p = "unat (lcg (lcg seed) AND 127)" and ?q = "unat (RtlpRandomExAuxVarY s AND 127)"
  have l: "length (RtlpRandomConstantVector s) = 128" "length (RtlpRandomExConstantVector s) = 128"
    and a: "list_all (\<lambda>v. v < MAXLONG) (RtlpRandomConstantVector s)" "list_all (\<lambda>v. v < MAXLONG) (RtlpRandomExConstantVector s)"
    using assms by (auto simp: random_ok_def)
  have "RtlpRandomConstantVector s ! ?p < MAXLONG" using a(1) l(1) pos_less by (simp add: list_all_length)
  then have "\<exists>r seed' s'. RtlRandom seed s = Some (r, seed', s') \<and> r < MAXLONG \<and> seed' < MAXLONG \<and> random_ok s'"
    using l a pos_less[of "lcg (lcg seed)"] lcg_less list_all_update[OF a(1) lcg_less]
    by (simp add: RtlRandom_def Let_def mem_simps random_ok_def)
  moreover have "\<exists>r s'. RtlRandomEx seed s = Some (r, r, s') \<and> r < MAXLONG \<and> random_ok s'"
    using l a pos_less[of "RtlpRandomExAuxVarY s"] lcg_less list_all_update[OF a(2) lcg_less]
    by (simp add: RtlRandomEx_def Let_def mem_simps random_ok_def)
  ultimately show ?thesis using lcg_less by (simp add: RtlUniform_def Let_def)
qed

lemma random_bounds_example: "\<exists>r s'. RtlRandomEx 1 random_init = Some (r, r, s') \<and> r < MAXLONG"
  using random_bounds[OF random_init_ok, of 1] by blast

end
