(* ===== verification/RangeList.thy ===== *)
theory RangeList
  imports Prelude
begin

text \<open>Range lists, \<open>sdk/lib/rtl/rangelist.c\<close>: the resource ranges a bus or a driver has handed out.

  The doubly linked list is the list of its entries from front to back. Entries come from a pool;
  \<open>pool\<close> is the number of entries it can still provide, so that running out of memory can happen at
  every allocation. \<open>None\<close> is an access to an entry that has been freed, or through \<open>NULL\<close>.\<close>

section \<open>Data\<close>

record RTL_RANGE =
  Start :: "64 word"
  End :: "64 word"
  UserData :: "32 word"
  Owner :: "32 word"
  Attributes :: "8 word"
  RangeFlags :: "8 word"

record RTL_RANGE_LIST =
  entries :: "RTL_RANGE list"
  ListFlags :: "32 word"
  Count :: "32 word"
  Stamp :: "32 word"

text \<open>The iterator: the position of the current entry (\<open>NULL\<close> for an empty list) and the stamp of the list
  when the iteration began.\<close>

record RTL_RANGE_LIST_ITERATOR =
  Current :: "nat option"
  IterStamp :: "32 word"

abbreviation (input) "RTL_RANGE_LIST_ADD_SHARED \<equiv> (2 :: 32 word)"
abbreviation (input) "RTL_RANGE_SHARED \<equiv> (1 :: 8 word)"

definition RtlInitializeRangeList :: RTL_RANGE_LIST where
  "RtlInitializeRangeList = \<lparr>entries = [], ListFlags = 0, Count = 0, Stamp = 0\<rparr>"

section \<open>Adding and copying\<close>

fun insert_before :: "RTL_RANGE \<Rightarrow> RTL_RANGE list \<Rightarrow> RTL_RANGE list" where
  "insert_before RangeEntry [] = [RangeEntry]"
| "insert_before RangeEntry (c # cs) =
     (if Start c > End RangeEntry then RangeEntry # c # cs else c # insert_before RangeEntry cs)"

definition new_range :: "64 word \<Rightarrow> 64 word \<Rightarrow> 8 word \<Rightarrow> 32 word \<Rightarrow> 32 word \<Rightarrow> 32 word \<Rightarrow> RTL_RANGE" where
  "new_range s e Attr Flags User Own =
     \<lparr>Start = s, End = e, UserData = User, Owner = Own, Attributes = Attr,
      RangeFlags = (if Flags AND RTL_RANGE_LIST_ADD_SHARED \<noteq> 0 then 0 OR RTL_RANGE_SHARED else 0)\<rparr>"

definition RtlAddRange ::
  "RTL_RANGE_LIST \<Rightarrow> 64 word \<Rightarrow> 64 word \<Rightarrow> 8 word \<Rightarrow> 32 word \<Rightarrow> 32 word \<Rightarrow> 32 word \<Rightarrow> nat \<Rightarrow>
   NTSTATUS \<times> RTL_RANGE_LIST \<times> nat" where
  "RtlAddRange rl s e Attr Flags User Own pool =
     (if s > e then (STATUS_INVALID_PARAMETER, rl, pool)
      else if pool = 0 then (STATUS_INSUFFICIENT_RESOURCES, rl, pool)
      else
        let RangeEntry = new_range s e Attr Flags User Own;
            es = (if Count rl = 0 then entries rl @ [RangeEntry] else insert_before RangeEntry (entries rl))
        in (STATUS_SUCCESS, rl\<lparr>entries := es, Count := Count rl + 1, Stamp := Stamp rl + 1\<rparr>, pool - 1))"

fun copy_loop :: "RTL_RANGE list \<Rightarrow> RTL_RANGE_LIST \<Rightarrow> nat \<Rightarrow> NTSTATUS \<times> RTL_RANGE_LIST \<times> nat" where
  "copy_loop [] cl pool = (STATUS_SUCCESS, cl, pool)"
| "copy_loop (c # cs) cl pool =
     (if pool = 0 then (STATUS_INSUFFICIENT_RESOURCES, cl, pool)
      else copy_loop cs (cl\<lparr>entries := entries cl @ [c], Count := Count cl + 1\<rparr>) (pool - 1))"

definition RtlCopyRangeList :: "RTL_RANGE_LIST \<Rightarrow> RTL_RANGE_LIST \<Rightarrow> nat \<Rightarrow> NTSTATUS \<times> RTL_RANGE_LIST \<times> nat" where
  "RtlCopyRangeList cl rl pool =
     (case copy_loop (entries rl) (cl\<lparr>ListFlags := ListFlags rl\<rparr>) pool of
        (st, cl', pool') \<Rightarrow>
          if st = STATUS_SUCCESS then (st, cl'\<lparr>Stamp := Stamp cl' + 1\<rparr>, pool') else (st, cl', pool'))"

section \<open>Deleting\<close>

text \<open>After freeing the entry the loop of \<open>RtlDeleteOwnersRanges\<close> reads its \<open>Flink\<close>.\<close>

fun delete_owner_loop :: "RTL_RANGE list \<Rightarrow> 32 word \<Rightarrow> RTL_RANGE list option" where
  "delete_owner_loop [] Own = Some []"
| "delete_owner_loop (c # cs) Own =
     (if Owner c = Own then None else map_option (Cons c) (delete_owner_loop cs Own))"

definition RtlDeleteOwnersRanges :: "RTL_RANGE_LIST \<Rightarrow> 32 word \<Rightarrow> (NTSTATUS \<times> RTL_RANGE_LIST) option" where
  "RtlDeleteOwnersRanges rl Own = do {
     es \<leftarrow> delete_owner_loop (entries rl) Own;
     Some (STATUS_SUCCESS, rl\<lparr>entries := es\<rparr>) }"

fun delete_loop :: "RTL_RANGE list \<Rightarrow> 64 word \<Rightarrow> 64 word \<Rightarrow> 32 word \<Rightarrow> RTL_RANGE list option" where
  "delete_loop [] s e Own = None"
| "delete_loop (c # cs) s e Own =
     (if Start c = s \<and> End c = e \<and> Owner c = Own then Some cs
      else map_option (Cons c) (delete_loop cs s e Own))"

definition RtlDeleteRange ::
  "RTL_RANGE_LIST \<Rightarrow> 64 word \<Rightarrow> 64 word \<Rightarrow> 32 word \<Rightarrow> nat \<Rightarrow> NTSTATUS \<times> RTL_RANGE_LIST \<times> nat" where
  "RtlDeleteRange rl s e Own pool =
     (case delete_loop (entries rl) s e Own of
        Some es \<Rightarrow> (STATUS_SUCCESS, rl\<lparr>entries := es, Count := Count rl - 1, Stamp := Stamp rl + 1\<rparr>, pool + 1)
      | None \<Rightarrow> (STATUS_RANGE_NOT_FOUND, rl, pool))"

fun free_loop :: "RTL_RANGE list \<Rightarrow> nat \<Rightarrow> nat" where
  "free_loop [] pool = pool"
| "free_loop (c # cs) pool = free_loop cs (pool + 1)"

definition RtlFreeRangeList :: "RTL_RANGE_LIST \<Rightarrow> nat \<Rightarrow> RTL_RANGE_LIST \<times> nat" where
  "RtlFreeRangeList rl pool = (rl\<lparr>entries := [], ListFlags := 0, Count := 0\<rparr>, free_loop (entries rl) pool)"

section \<open>Searching\<close>

text \<open>\<open>ROUND_DOWN\<close> (\<open>rtlp.h\<close>) casts to \<open>ULONG_PTR\<close>, 32 bits wide.\<close>

definition ROUND_DOWN :: "64 word \<Rightarrow> 32 word \<Rightarrow> 64 word" where
  "ROUND_DOWN n align = ucast ((ucast n :: 32 word) AND NOT (align - 1))"

text \<open>One gap: the upper end and the position found there, unless the search is over.\<close>

definition gap :: "64 word \<Rightarrow> 64 word \<Rightarrow> 32 word \<Rightarrow> 32 word \<Rightarrow> 64 word option" where
  "gap Minimum RangeMax Length Alignment =
     (let len = ucast (Length - 1) :: 64 word; RangeMin = ROUND_DOWN (RangeMax - len) Alignment in
      if RangeMax + len < Minimum then None
      else if RangeMin < Minimum \<or> RangeMax - RangeMin < len then None
      else Some RangeMin)"

definition range_max :: "RTL_RANGE option \<Rightarrow> 64 word \<Rightarrow> 64 word" where
  "range_max NextEntry Maximum = (case NextEntry of Some n \<Rightarrow> Start n - 1 | None \<Rightarrow> Maximum)"

text \<open>The loop, over the entries from back to front, and the code after it.\<close>

fun find_loop ::
  "RTL_RANGE list \<Rightarrow> RTL_RANGE option \<Rightarrow> 64 word \<Rightarrow> 64 word \<Rightarrow> 32 word \<Rightarrow> 32 word \<Rightarrow> NTSTATUS \<times> 64 word option" where
  "find_loop [] NextEntry Minimum Maximum Length Alignment =
     (case gap Minimum (range_max NextEntry Maximum) Length Alignment of
        None \<Rightarrow> (STATUS_RANGE_NOT_FOUND, None)
      | Some RangeMin \<Rightarrow> (STATUS_SUCCESS, Some RangeMin))"
| "find_loop (c # cs) NextEntry Minimum Maximum Length Alignment =
     (case gap Minimum (range_max NextEntry Maximum) Length Alignment of
        None \<Rightarrow> (STATUS_RANGE_NOT_FOUND, None)
      | Some RangeMin \<Rightarrow>
          if RangeMin > End c then (STATUS_SUCCESS, Some RangeMin)
          else find_loop cs (Some c) Minimum Maximum Length Alignment)"

definition RtlFindRange ::
  "RTL_RANGE_LIST \<Rightarrow> 64 word \<Rightarrow> 64 word \<Rightarrow> 32 word \<Rightarrow> 32 word \<Rightarrow> NTSTATUS \<times> 64 word option" where
  "RtlFindRange rl Minimum Maximum Length Alignment =
     (if Alignment = 0 \<or> Length = 0 then (STATUS_INVALID_PARAMETER, None)
      else if entries rl = [] then (STATUS_SUCCESS, Some (ROUND_DOWN (Maximum - ucast (Length - 1)) Alignment))
      else find_loop (rev (entries rl)) None Minimum Maximum Length Alignment)"

text \<open>The callback of \<open>RtlIsRangeAvailable\<close>, if there is one, decides on a conflict.\<close>

definition no_conflict :: "RTL_RANGE \<Rightarrow> 64 word \<Rightarrow> 64 word \<Rightarrow> 32 word \<Rightarrow> bool" where
  "no_conflict c s e Flags \<longleftrightarrow>
     (Start c \<ge> e \<and> End c > e) \<or>
     (Start c \<le> s \<and> End c < s \<and> (Flags AND 1 = 0 \<or> RangeFlags c AND RTL_RANGE_SHARED = 0))"

fun available_loop ::
  "RTL_RANGE list \<Rightarrow> 64 word \<Rightarrow> 64 word \<Rightarrow> 32 word \<Rightarrow> (RTL_RANGE \<Rightarrow> bool) option \<Rightarrow> bool \<Rightarrow> bool" where
  "available_loop [] s e Flags Callback Available = Available"
| "available_loop (c # cs) s e Flags Callback Available =
     available_loop cs s e Flags Callback
       (if \<not> no_conflict c s e Flags then (case Callback of Some f \<Rightarrow> f c | None \<Rightarrow> False) else Available)"

definition RtlIsRangeAvailable ::
  "RTL_RANGE_LIST \<Rightarrow> 64 word \<Rightarrow> 64 word \<Rightarrow> 32 word \<Rightarrow> (RTL_RANGE \<Rightarrow> bool) option \<Rightarrow> NTSTATUS \<times> bool" where
  "RtlIsRangeAvailable rl s e Flags Callback =
     (STATUS_SUCCESS, available_loop (entries rl) s e Flags Callback True)"

section \<open>Iterating\<close>

definition RtlGetFirstRange :: "RTL_RANGE_LIST \<Rightarrow> NTSTATUS \<times> RTL_RANGE_LIST_ITERATOR \<times> RTL_RANGE option" where
  "RtlGetFirstRange rl =
     (case entries rl of
        [] \<Rightarrow> (STATUS_NO_MORE_ENTRIES, \<lparr>Current = None, IterStamp = Stamp rl\<rparr>, None)
      | c # cs \<Rightarrow> (STATUS_SUCCESS, \<lparr>Current = Some 0, IterStamp = Stamp rl\<rparr>, Some c))"

text \<open>The range is left alone (\<open>None\<close> in the result) unless the status is \<open>STATUS_SUCCESS\<close>.\<close>

definition RtlGetNextRange ::
  "RTL_RANGE_LIST \<Rightarrow> RTL_RANGE_LIST_ITERATOR \<Rightarrow> bool \<Rightarrow>
   (NTSTATUS \<times> RTL_RANGE_LIST_ITERATOR \<times> RTL_RANGE option) option" where
  "RtlGetNextRange rl it MoveForwards =
     (if IterStamp it \<noteq> Stamp rl then Some (STATUS_INVALID_PARAMETER, it, None)
      else do {
        i \<leftarrow> Current it;
        c \<leftarrow> rd (entries rl) i;
        if (if MoveForwards then i + 1 = length (entries rl) else i = 0) then Some (STATUS_NO_MORE_ENTRIES, it, None)
        else do {
          let j = (if MoveForwards then i + 1 else i - 1);
          r \<leftarrow> rd (entries rl) j;
          Some (STATUS_SUCCESS, it\<lparr>Current := Some j\<rparr>, Some r) } })"

section \<open>Inverting and merging\<close>

fun invert_loop ::
  "RTL_RANGE list \<Rightarrow> RTL_RANGE option \<Rightarrow> RTL_RANGE_LIST \<Rightarrow> nat \<Rightarrow> NTSTATUS \<times> RTL_RANGE_LIST \<times> nat" where
  "invert_loop [] Previous il pool =
     (case Previous of
        None \<Rightarrow> (STATUS_SUCCESS, il, pool)
      | Some p \<Rightarrow>
          if End p + 1 \<noteq> - 1 then
            (case RtlAddRange il (End p + 1) (- 1) 0 0 0 0 pool of (st, il', pool') \<Rightarrow>
              if \<not> NT_SUCCESS st then (st, il', pool') else (STATUS_SUCCESS, il', pool'))
          else (STATUS_SUCCESS, il, pool))"
| "invert_loop (c # cs) Previous il pool =
     (let lo = (case Previous of None \<Rightarrow> 0 | Some p \<Rightarrow> End p + 1) in
      if lo \<noteq> Start c then
        (case RtlAddRange il lo (Start c - 1) 0 0 0 0 pool of (st, il', pool') \<Rightarrow>
          if \<not> NT_SUCCESS st then (st, il', pool') else invert_loop cs (Some c) il' pool')
      else invert_loop cs (Some c) il pool)"

definition RtlInvertRangeList :: "RTL_RANGE_LIST \<Rightarrow> RTL_RANGE_LIST \<Rightarrow> nat \<Rightarrow> NTSTATUS \<times> RTL_RANGE_LIST \<times> nat" where
  "RtlInvertRangeList il rl pool = invert_loop (entries rl) None il pool"

text \<open>The loop of \<open>RtlMergeRangeLists\<close>: add the current range, then go to the next one. Its measure is the
  number of entries after the current one.\<close>

function merge_loop ::
  "RTL_RANGE_LIST \<Rightarrow> RTL_RANGE_LIST_ITERATOR \<Rightarrow> RTL_RANGE \<Rightarrow> 32 word \<Rightarrow> RTL_RANGE_LIST \<Rightarrow> nat \<Rightarrow>
   (NTSTATUS \<times> RTL_RANGE_LIST \<times> nat) option" where
  "merge_loop rl it rg Flags ml pool =
     (case RtlAddRange ml (Start rg) (End rg) (Attributes rg) (ucast (RangeFlags rg) OR Flags)
        (UserData rg) (Owner rg) pool of (st, ml', pool') \<Rightarrow>
      if \<not> NT_SUCCESS st then Some (if st = STATUS_NO_MORE_ENTRIES then STATUS_SUCCESS else st, ml', pool')
      else (case RtlGetNextRange rl it True of
          None \<Rightarrow> None
        | Some (st, it', nx) \<Rightarrow>
            if \<not> NT_SUCCESS st then Some (if st = STATUS_NO_MORE_ENTRIES then STATUS_SUCCESS else st, ml', pool')
            else (case nx of None \<Rightarrow> None | Some rg' \<Rightarrow> merge_loop rl it' rg' Flags ml' pool')))"
  by pat_completeness auto
termination
  by (relation "measure (\<lambda>(rl, it, _). length (entries rl) - (case Current it of Some i \<Rightarrow> i | None \<Rightarrow> 0))")
    (auto simp: RtlGetNextRange_def Let_def rd_def split: if_splits bind_splits)

definition RtlMergeRangeLists ::
  "RTL_RANGE_LIST \<Rightarrow> RTL_RANGE_LIST \<Rightarrow> RTL_RANGE_LIST \<Rightarrow> 32 word \<Rightarrow> nat \<Rightarrow> (NTSTATUS \<times> RTL_RANGE_LIST \<times> nat) option" where
  "RtlMergeRangeLists ml rl1 rl2 Flags pool =
     (case RtlCopyRangeList ml rl1 pool of (st, ml', pool') \<Rightarrow>
      if \<not> NT_SUCCESS st then Some (st, ml', pool')
      else (case RtlGetFirstRange rl2 of (st, it, r) \<Rightarrow>
        if \<not> NT_SUCCESS st then Some (if st = STATUS_NO_MORE_ENTRIES then STATUS_SUCCESS else st, ml', pool')
        else (case r of None \<Rightarrow> None | Some rg \<Rightarrow> merge_loop rl2 it rg Flags ml' pool')))"

end
