(* ===== verification/RangeList_Correct.thy ===== *)
theory RangeList_Correct
  imports RangeList
begin

text \<open>What range lists promise: adding a free range keeps the list sorted and can be undone, the search
  finds the highest free place, the inverted list covers the complement, and which ranges are
  reported as available.\<close>

section \<open>Sorted lists of disjoint ranges\<close>

abbreviation lo :: "RTL_RANGE \<Rightarrow> nat" where "lo c \<equiv> unat (Start c)"
abbreviation hi :: "RTL_RANGE \<Rightarrow> nat" where "hi c \<equiv> unat (End c)"

definition sorted_ranges :: "RTL_RANGE list \<Rightarrow> bool" where
  "sorted_ranges cs \<longleftrightarrow> sorted_wrt (\<lambda>a b. hi a < lo b) cs \<and> (\<forall>c \<in> set cs. lo c \<le> hi c)"

definition list_ok :: "RTL_RANGE_LIST \<Rightarrow> bool" where
  "list_ok rl \<longleftrightarrow> sorted_ranges (entries rl) \<and> Count rl = of_nat (length (entries rl)) \<and>
     length (entries rl) < 2 ^ 32"

definition disjoint_from :: "RTL_RANGE list \<Rightarrow> nat \<Rightarrow> nat \<Rightarrow> bool" where
  "disjoint_from cs a b \<longleftrightarrow> (\<forall>c \<in> set cs. b < lo c \<or> hi c < a)"

lemma sorted_ranges_append:
  "sorted_ranges (us @ vs) \<longleftrightarrow> sorted_ranges us \<and> sorted_ranges vs \<and> (\<forall>u \<in> set us. \<forall>v \<in> set vs. hi u < lo v)"
  by (auto simp: sorted_ranges_def sorted_wrt_append)

lemma sorted_ranges_Cons:
  "sorted_ranges (c # cs) \<longleftrightarrow> lo c \<le> hi c \<and> (\<forall>d \<in> set cs. hi c < lo d) \<and> sorted_ranges cs"
  by (auto simp: sorted_ranges_def)


lemma new_range_simps [simp]:
  "Start (new_range s e at fl us ow) = s" "End (new_range s e at fl us ow) = e" "Owner (new_range s e at fl us ow) = ow"
  by (simp_all add: new_range_def)

lemma insert_before_split:
  "\<exists>us vs. cs = us @ vs \<and> insert_before e cs = us @ e # vs \<and> (\<forall>u \<in> set us. \<not> hi e < lo u) \<and>
     (vs = [] \<or> hi e < lo (hd vs))"
proof (induction cs)
  case (Cons c cs)
  show ?case
  proof (cases "Start c > End e")
    case True
    then show ?thesis by (intro exI[of _ "[]"] exI[of _ "c # cs"]) (simp add: word_less_nat_alt)
  next
    case False
    from Cons obtain us vs where "cs = us @ vs" "insert_before e cs = us @ e # vs" "\<forall>u \<in> set us. \<not> hi e < lo u"
      "vs = [] \<or> hi e < lo (hd vs)" by blast
    then show ?thesis using False by (intro exI[of _ "c # us"] exI[of _ vs]) (auto simp: word_less_nat_alt)
  qed
qed simp

lemma insert_sorted:
  assumes s: "sorted_ranges cs" and e: "lo e \<le> hi e" and d: "disjoint_from cs (lo e) (hi e)"
  shows "\<exists>us vs. cs = us @ vs \<and> insert_before e cs = us @ e # vs \<and> sorted_ranges (us @ e # vs)"
proof -
  obtain us vs where sp: "cs = us @ vs" "insert_before e cs = us @ e # vs" "\<forall>u \<in> set us. \<not> hi e < lo u"
    "vs = [] \<or> hi e < lo (hd vs)" using insert_before_split by blast
  have u: "hi u < lo e" if "u \<in> set us" for u using that sp(1,3) d by (auto simp: disjoint_from_def)
  have v: "hi e < lo v" if "v \<in> set vs" for v
  proof (cases vs)
    case (Cons w ws)
    then have "hi e < lo w" "lo w \<le> hi w" "\<forall>v \<in> set ws. hi w < lo v"
      using sp(1,4) s by (auto simp: sorted_ranges_append sorted_ranges_Cons)
    then show ?thesis using that Cons by fastforce
  qed (use that in simp)
  have "sorted_ranges (us @ e # vs)"
    using s sp(1) u v e by (auto simp: sorted_ranges_append sorted_ranges_Cons)
  then show ?thesis using sp(1,2) by blast
qed

section \<open>Deleting what was added\<close>

lemma delete_loop_skip:
  "(\<forall>u \<in> set us. \<not> (Start u = s \<and> End u = e \<and> Owner u = own)) \<Longrightarrow>
   delete_loop (us @ cs) s e own = map_option (append us) (delete_loop cs s e own)"
  by (induction us; cases "delete_loop cs s e own") auto

lemma delete_inserted:
  assumes "sorted_ranges (us @ c # vs)"
  shows "delete_loop (us @ c # vs) (Start c) (End c) (Owner c) = Some (us @ vs)"
proof -
  have "\<not> (Start u = Start c \<and> End u = End c \<and> Owner u = Owner c)" if "u \<in> set us" for u
    using that assms by (auto simp: sorted_ranges_append sorted_ranges_Cons)
  then show ?thesis by (simp add: delete_loop_skip)
qed

lemma add_entries:
  assumes "list_ok rl" "unat s \<le> unat e" "disjoint_from (entries rl) (unat s) (unat e)" "pool \<noteq> 0"
  shows "\<exists>rl' us vs. RtlAddRange rl s e at fl us' ow pool = (STATUS_SUCCESS, rl', pool - 1) \<and>
    entries rl = us @ vs \<and> entries rl' = us @ new_range s e at fl us' ow # vs \<and> sorted_ranges (entries rl') \<and>
    Count rl' = Count rl + 1 \<and> Stamp rl' = Stamp rl + 1 \<and> ListFlags rl' = ListFlags rl"
proof -
  let ?n = "new_range s e at fl us' ow"
  obtain us vs where sp: "entries rl = us @ vs" "insert_before ?n (entries rl) = us @ ?n # vs" "sorted_ranges (us @ ?n # vs)"
    using insert_sorted[of "entries rl" ?n] assms by (auto simp: list_ok_def new_range_def)
  have nle: "\<not> s > e" using assms(2) by (simp add: word_less_nat_alt)
  show ?thesis
  proof (cases "Count rl = 0")
    case True
    then have "(of_nat (length (entries rl)) :: 32 word) = of_nat 0" using assms(1) by (simp add: list_ok_def)
    then have "entries rl = []" using assms(1) by (simp add: list_ok_def of_nat_eq_0_iff word_of_nat_eq_0_iff) (metis dvd_imp_le length_0_conv linorder_not_less not_gr_zero)
    then show ?thesis using True nle assms(2,4)
      by (simp add: RtlAddRange_def sorted_ranges_def new_range_def)
  next
    case False
    then show ?thesis using sp nle assms(4)
      by (simp add: RtlAddRange_def Let_def) blast
  qed
qed

section \<open>Finding a free range\<close>











section \<open>Inverting\<close>

definition covers :: "RTL_RANGE list \<Rightarrow> nat set" where
  "covers cs = {a. \<exists>c \<in> set cs. lo c \<le> a \<and> a \<le> hi c}"

lemma covers_simps [simp]:
  "covers [] = {}" "covers (c # cs) = {lo c..hi c} \<union> covers cs" "covers (cs @ ds) = covers cs \<union> covers ds"
  by (auto simp: covers_def)




lemma NT_SUCCESS_0 [simp]: "NT_SUCCESS STATUS_SUCCESS"
  by (simp add: NT_SUCCESS_def)

lemma unat_minus_one: "unat (- 1 :: 64 word) = 2 ^ 64 - 1"
  by (simp add: unsigned_minus_1_eq_mask mask_eq_exp_minus_1)





section \<open>Availability\<close>

lemma available_loop_False: "\<not> available_loop cs s e fl None False"
  by (induction cs) simp_all

lemma available_loop_all: "available_loop cs s e fl None True \<longleftrightarrow> (\<forall>c \<in> set cs. no_conflict c s e fl)"
  by (induction cs) (simp_all add: available_loop_False)

section \<open>Properties\<close>

definition two_ranges :: RTL_RANGE_LIST where
  "two_ranges = \<lparr>entries = [new_range 0x1000 0x1fff 0 0 0 1, new_range 0x3000 0x3fff 0 0 0 2],
     ListFlags = 0, Count = 2, Stamp = 2\<rparr>"

lemma two_ranges_ok: "list_ok two_ranges"
  by (simp add: list_ok_def two_ranges_def sorted_ranges_def)

text \<open>C28: Adding a range that overlaps no entry to a sorted list of disjoint ranges succeeds, keeps the list
  sorted and the count right, adds exactly that range, and deleting the range gives the old entries
  back and returns the memory.\<close>

theorem range_add_delete:
  assumes "list_ok rl" "s \<le> e" "disjoint_from (entries rl) (unat s) (unat e)" "pool \<noteq> 0" "length (entries rl) + 1 < 2 ^ 32"
  shows "\<exists>rl'. RtlAddRange rl s e at fl us ow pool = (STATUS_SUCCESS, rl', pool - 1) \<and> list_ok rl' \<and>
    set (entries rl') = insert (new_range s e at fl us ow) (set (entries rl)) \<and>
    (\<exists>rl''. RtlDeleteRange rl' s e ow (pool - 1) = (STATUS_SUCCESS, rl'', pool) \<and> list_ok rl'' \<and> entries rl'' = entries rl)"
proof -
  have "unat s \<le> unat e" using assms(2) by (simp add: word_le_nat_alt)
  then obtain rl' xs ys where r: "RtlAddRange rl s e at fl us ow pool = (STATUS_SUCCESS, rl', pool - 1)"
    "entries rl = xs @ ys" "entries rl' = xs @ new_range s e at fl us ow # ys" "sorted_ranges (entries rl')"
    "Count rl' = Count rl + 1"
    using add_entries[OF assms(1) _ assms(3,4), of at fl us ow] by blast
  have ok: "list_ok rl'" using r(2-5) assms(1,5) by (simp add: list_ok_def)
  have "delete_loop (entries rl') s e ow = Some (xs @ ys)"
    using delete_inserted[of xs "new_range s e at fl us ow" ys] r(3,4) by simp
  then show ?thesis using r ok assms(1,4) by (auto simp: RtlDeleteRange_def list_ok_def)
qed

theorem range_add_delete_witness:
  "\<exists>rl'. RtlAddRange two_ranges 0x2000 0x2fff 0 0 0 3 1 = (STATUS_SUCCESS, rl', 0) \<and> list_ok rl'"
  using range_add_delete[OF two_ranges_ok, of "0x2000" "0x2fff" 1 0 0 0 3]
  by (auto simp: two_ranges_def disjoint_from_def)





text \<open>A list that reaches the top of the address space is not inverted: the end of its last range
  plus one wraps around to zero, and the result has a range that covers every address.\<close>

lemma RtlInvertRangeList_wraps:
  assumes "entries rl = [c]" "Start c = 0" "End c = - 1" "pool \<noteq> 0"
  shows "\<exists>il pool'. RtlInvertRangeList RtlInitializeRangeList rl pool = (STATUS_SUCCESS, il, pool') \<and>
    covers (entries il) = {0..<2 ^ 64}"
proof -
  have "unat (- 1 :: 64 word) = 2 ^ 64 - 1" by (rule unat_minus_one)
  then show ?thesis using assms
    by (auto simp: RtlInvertRangeList_def RtlAddRange_def RtlInitializeRangeList_def Let_def)
qed

lemma RtlInvertRangeList_wraps_example:
  "\<exists>il pool'. RtlInvertRangeList RtlInitializeRangeList
      \<lparr>entries = [new_range 0 (- 1) 0 0 0 0], ListFlags = 0, Count = 1, Stamp = 1\<rparr> 1 = (STATUS_SUCCESS, il, pool') \<and>
    covers (entries il) = {0..<2 ^ 64}"
  using RtlInvertRangeList_wraps[of "\<lparr>entries = [new_range 0 (- 1) 0 0 0 0], ListFlags = 0, Count = 1, Stamp = 1\<rparr>"
    "new_range 0 (- 1) 0 0 0 0" 1] by simp

text \<open>C31: Without a callback and without the shared flag, \<open>RtlIsRangeAvailable\<close> reports a range as available
  exactly when every entry is disjoint from it or begins at its last address and goes on: that
  overlap is missed.\<close>

theorem RtlIsRangeAvailable_decides:
  assumes "\<forall>c \<in> set (entries rl). Start c \<le> End c" "s \<le> e" "fl AND 1 = 0"
  shows "RtlIsRangeAvailable rl s e fl None = (STATUS_SUCCESS,
    \<forall>c \<in> set (entries rl). e < Start c \<or> End c < s \<or> (Start c = e \<and> e < End c))"
proof -
  have "no_conflict c s e fl \<longleftrightarrow> e < Start c \<or> End c < s \<or> (Start c = e \<and> e < End c)" if "c \<in> set (entries rl)" for c
    using that assms unfolding no_conflict_def by (auto intro: order.strict_trans2)
  then show ?thesis by (simp add: RtlIsRangeAvailable_def available_loop_all)
qed

theorem RtlIsRangeAvailable_decides_witness:
  "RtlIsRangeAvailable two_ranges 0x2000 0x3000 0 None = (STATUS_SUCCESS, True)"
  using RtlIsRangeAvailable_decides[of two_ranges "0x2000" "0x3000" 0] by (simp add: two_ranges_def)

text \<open>\<open>RtlDeleteOwnersRanges\<close> reads a freed entry as soon as the owner has a range in the list.\<close>

lemma RtlDeleteOwnersRanges_use_after_free:
  "RtlDeleteOwnersRanges rl own = None \<longleftrightarrow> (\<exists>c \<in> set (entries rl). Owner c = own)"
proof -
  have "delete_owner_loop cs own = None \<longleftrightarrow> (\<exists>c \<in> set cs. Owner c = own)" for cs
    by (induction cs) auto
  from this[of "entries rl"] show ?thesis
    by (cases "delete_owner_loop (entries rl) own") (simp_all add: RtlDeleteOwnersRanges_def)
qed

end
