(* ===== verification/Bytes.thy ===== *)
theory Bytes
  imports Prelude
begin

text \<open>Buffers of bytes: little-endian fields, blocks and moves. A pointer into a buffer is its offset; an
  access that is not inside the buffer is \<open>None\<close>. \<open>RtlCopyMemory\<close> and \<open>RtlMoveMemory\<close> are the same routine
  in this build (\<open>sdk/lib/crt/mem/i386/memmove_asm.s\<close>), which handles blocks that overlap.\<close>

type_synonym bytes = "8 word list"

definition rdn :: "bytes \<Rightarrow> nat \<Rightarrow> nat \<Rightarrow> bytes option" where
  "rdn b off n = (if off + n \<le> length b then Some (take n (drop off b)) else None)"

definition wrn :: "bytes \<Rightarrow> nat \<Rightarrow> bytes \<Rightarrow> bytes option" where
  "wrn b off d = (if off + length d \<le> length b then Some (take off b @ d @ drop (off + length d) b) else None)"

definition le16 :: "16 word \<Rightarrow> bytes" where
  "le16 v = [ucast v, ucast (drop_bit 8 v)]"

definition le32 :: "32 word \<Rightarrow> bytes" where
  "le32 v = [ucast v, ucast (drop_bit 8 v), ucast (drop_bit 16 v), ucast (drop_bit 24 v)]"

definition rd16 :: "bytes \<Rightarrow> nat \<Rightarrow> 16 word option" where
  "rd16 b off = do { x \<leftarrow> rd b off; y \<leftarrow> rd b (off + 1); Some (ucast x OR push_bit 8 (ucast y)) }"

definition rd32 :: "bytes \<Rightarrow> nat \<Rightarrow> 32 word option" where
  "rd32 b off = do {
     x \<leftarrow> rd b off; y \<leftarrow> rd b (off + 1); z \<leftarrow> rd b (off + 2); w \<leftarrow> rd b (off + 3);
     Some (ucast x OR push_bit 8 (ucast y) OR push_bit 16 (ucast z) OR push_bit 24 (ucast w)) }"

definition wr16 :: "bytes \<Rightarrow> nat \<Rightarrow> 16 word \<Rightarrow> bytes option" where
  "wr16 b off v = wrn b off (le16 v)"

definition wr32 :: "bytes \<Rightarrow> nat \<Rightarrow> 32 word \<Rightarrow> bytes option" where
  "wr32 b off v = wrn b off (le32 v)"

text \<open>A move inside one buffer.\<close>

definition RtlMoveMemory :: "bytes \<Rightarrow> nat \<Rightarrow> nat \<Rightarrow> nat \<Rightarrow> bytes option" where
  "RtlMoveMemory b dst src n = do { d \<leftarrow> rdn b src n; wrn b dst d }"

section \<open>Reading and writing in a concatenation\<close>

lemma length_le16 [simp]: "length (le16 v) = 2"
  by (simp add: le16_def)

lemma length_le32 [simp]: "length (le32 v) = 4"
  by (simp add: le32_def)

lemma rdn_append [mem_simps]: "length p = off \<Longrightarrow> length d = n \<Longrightarrow> rdn (p @ d @ q) off n = Some d"
  by (auto simp: rdn_def)

lemma wrn_append [mem_simps]:
  "length p = off \<Longrightarrow> length d = length e \<Longrightarrow> wrn (p @ d @ q) off e = Some (p @ e @ q)"
  by (auto simp: wrn_def)

lemma rd_append [mem_simps]: "rd (p @ b) off = (if off < length p then Some (p ! off) else rd b (off - length p))"
  by (auto simp: rd_def nth_append)

lemma wrn_length: "wrn b off d = Some b' \<Longrightarrow> length b' = length b"
  by (auto simp: wrn_def split: if_splits)

lemma wr_wrn: "wr b off v = wrn b off [v]"
  by (auto simp: wr_def wrn_def upd_conv_take_nth_drop)

lemma rd16_append: "length p \<le> off \<Longrightarrow> rd16 (p @ b) off = rd16 b (off - length p)"
  by (simp add: rd16_def mem_simps Suc_diff_le)

lemma rd16_prefix: "off + 2 \<le> length p \<Longrightarrow> rd16 (p @ b) off = rd16 p off"
  by (simp add: rd16_def rd_def nth_append)

lemma bit_le16: "ucast (ucast v :: 8 word) OR push_bit 8 (ucast (ucast (drop_bit 8 v) :: 8 word)) = (v :: 16 word)"
proof (rule bit_eqI)
  show "bit (ucast (ucast v :: 8 word) OR push_bit 8 (ucast (ucast (drop_bit 8 v) :: 8 word)) :: 16 word) n = bit v n"
    if "possible_bit TYPE(16 word) n" for n
    using that by (cases "n < 8") (auto simp: bit_or_iff bit_push_bit_iff bit_ucast_iff bit_drop_bit_eq)
qed

lemma rd16_le16 [mem_simps]: "length p = off \<Longrightarrow> rd16 (p @ le16 v @ q) off = Some v"
  by (simp add: rd16_def rd_def nth_append le16_def bit_le16)

end
