(* ===== verification/Sid.thy ===== *)
theory Sid
  imports Bytes
begin

text \<open>Security identifiers, \<open>sdk/lib/rtl/sid.c\<close>. A SID is the memory at its address: revision, count, six
  bytes of authority and the subauthorities.\<close>

abbreviation (input) "SID_REVISION \<equiv> (1 :: 8 word)"
abbreviation (input) "SID_MAX_SUB_AUTHORITIES \<equiv> (15 :: nat)"

section \<open>Fields\<close>

text \<open>\<open>None\<close> is the null pointer; a fault inside the guarded block means "not valid".\<close>

definition RtlValidSid :: "bytes option \<Rightarrow> bool" where
  "RtlValidSid Sid = (case Sid of None \<Rightarrow> True
     | Some b \<Rightarrow> (case do { r \<leftarrow> rd b 0;
           if r AND 0xF \<noteq> SID_REVISION then Some False
           else do { c \<leftarrow> rd b 1; Some (\<not> unat c > SID_MAX_SUB_AUTHORITIES) } } of
         None \<Rightarrow> False | Some ok \<Rightarrow> ok))"

definition RtlLengthRequiredSid :: "32 word \<Rightarrow> 32 word" where
  "RtlLengthRequiredSid SubAuthorityCount = 8 + 4 * SubAuthorityCount"

definition RtlLengthSid :: "bytes \<Rightarrow> nat option" where
  "RtlLengthSid b = do { c \<leftarrow> rd b 1; Some (8 + 4 * unat c) }"

definition RtlInitializeSid :: "bytes \<Rightarrow> bytes \<Rightarrow> 8 word \<Rightarrow> (NTSTATUS \<times> bytes) option" where
  "RtlInitializeSid b IdentifierAuthority SubAuthorityCount = do {
     b \<leftarrow> wr b 0 SID_REVISION;
     b \<leftarrow> wr b 1 SubAuthorityCount;
     b \<leftarrow> wrn b 2 IdentifierAuthority;
     Some (STATUS_SUCCESS, b) }"

text \<open>The routines that return a pointer into the SID: its offset.\<close>

definition RtlSubAuthoritySid :: "nat \<Rightarrow> nat" where
  "RtlSubAuthoritySid SubAuthority = 8 + 4 * SubAuthority"

definition RtlSubAuthorityCountSid :: nat where
  "RtlSubAuthorityCountSid = 1"

definition RtlIdentifierAuthoritySid :: nat where
  "RtlIdentifierAuthoritySid = 2"

section \<open>Comparing and copying\<close>

definition RtlEqualSid :: "bytes \<Rightarrow> bytes \<Rightarrow> bool option" where
  "RtlEqualSid Sid1 Sid2 = do {
     x \<leftarrow> rd16 Sid1 0;
     y \<leftarrow> rd16 Sid2 0;
     if x \<noteq> y then Some False
     else do {
       n \<leftarrow> RtlLengthSid Sid1;
       a \<leftarrow> rdn Sid1 0 n;
       b \<leftarrow> rdn Sid2 0 n;
       Some (a = b) } }"

text \<open>The destination is the memory at \<open>off\<close> of a buffer.\<close>

definition RtlCopySid :: "nat \<Rightarrow> bytes \<Rightarrow> nat \<Rightarrow> bytes \<Rightarrow> (NTSTATUS \<times> bytes) option" where
  "RtlCopySid BufferLength Dest off Src = do {
     SidLength \<leftarrow> RtlLengthSid Src;
     if SidLength > BufferLength then Some (STATUS_BUFFER_TOO_SMALL, Dest)
     else do {
       d \<leftarrow> rdn Src 0 SidLength;
       Dest \<leftarrow> wrn Dest off d;
       Some (STATUS_SUCCESS, Dest) } }"

fun prefix_loop :: "bytes \<Rightarrow> bytes \<Rightarrow> nat \<Rightarrow> nat \<Rightarrow> bool option" where
  "prefix_loop Sid1 Sid2 i 0 = Some True"
| "prefix_loop Sid1 Sid2 i (Suc n) = do {
     x \<leftarrow> rd32 Sid1 (8 + 4 * i);
     y \<leftarrow> rd32 Sid2 (8 + 4 * i);
     if x \<noteq> y then Some False else prefix_loop Sid1 Sid2 (Suc i) n }"

definition RtlEqualPrefixSid :: "bytes \<Rightarrow> bytes \<Rightarrow> bool option" where
  "RtlEqualPrefixSid Sid1 Sid2 = do {
     r1 \<leftarrow> rd Sid1 0;
     r2 \<leftarrow> rd Sid2 0;
     if r1 \<noteq> r2 then Some False
     else do {
       a1 \<leftarrow> rdn Sid1 2 6;
       a2 \<leftarrow> rdn Sid2 2 6;
       if a1 = a2 then do {
         c1 \<leftarrow> rd Sid1 1;
         c2 \<leftarrow> rd Sid2 1;
         if c1 = c2 then
           (if c1 = 0 then Some True else prefix_loop Sid1 Sid2 0 (unat c1 - 1))
         else Some False }
       else Some False } }"

text \<open>The SIDs of an array are copied one after the other into the area; the result has the offset of each
  copy, the area, and what is left of it. \<open>Src\<close> has the SIDs with their attributes.\<close>

fun copy_sids :: "(bytes \<times> 32 word) list \<Rightarrow> nat \<Rightarrow> bytes \<Rightarrow> nat \<Rightarrow> (nat \<times> 32 word) list \<Rightarrow>
    (NTSTATUS \<times> (nat \<times> 32 word) list \<times> bytes \<times> nat \<times> nat) option" where
  "copy_sids [] SidAreaSize area off Dest = Some (STATUS_SUCCESS, Dest, area, off, SidAreaSize)"
| "copy_sids ((sid, attr) # Src) SidAreaSize area off Dest = do {
     SidLength \<leftarrow> RtlLengthSid sid;
     if SidLength > SidAreaSize then Some (STATUS_BUFFER_TOO_SMALL, Dest, area, off, SidAreaSize)
     else do {
       (st, area) \<leftarrow> RtlCopySid SidLength area off sid;
       copy_sids Src (SidAreaSize - SidLength) area (off + SidLength) (Dest @ [(off, attr)]) } }"

definition RtlCopySidAndAttributesArray ::
  "(bytes \<times> 32 word) list \<Rightarrow> nat \<Rightarrow> bytes \<Rightarrow> (NTSTATUS \<times> (nat \<times> 32 word) list \<times> bytes \<times> nat \<times> nat) option" where
  "RtlCopySidAndAttributesArray Src SidAreaSize area = copy_sids Src SidAreaSize area 0 []"

section \<open>Making a SID\<close>

text \<open>The cases of the switch fall through: subauthority \<open>n - 1\<close> first, then down to 0.\<close>

fun fill_subs :: "bytes \<Rightarrow> 32 word list \<Rightarrow> nat \<Rightarrow> bytes option" where
  "fill_subs b subs 0 = Some b"
| "fill_subs b subs (Suc n) = do { v \<leftarrow> rd subs n; b \<leftarrow> wr32 b (8 + 4 * n) v; fill_subs b subs n }"

text \<open>\<open>mem\<close> is the block the allocator returns, whose contents are arbitrary, or \<open>None\<close>.\<close>

definition RtlAllocateAndInitializeSid ::
  "bytes \<Rightarrow> 8 word \<Rightarrow> 32 word list \<Rightarrow> (nat \<Rightarrow> bytes option) \<Rightarrow> (NTSTATUS \<times> bytes option) option" where
  "RtlAllocateAndInitializeSid IdentifierAuthority SubAuthorityCount subs mem =
     (if unat SubAuthorityCount > 8 then Some (STATUS_INVALID_SID, None)
      else case mem (unat (RtlLengthRequiredSid (ucast SubAuthorityCount))) of
        None \<Rightarrow> Some (STATUS_NO_MEMORY, None)
      | Some b \<Rightarrow> do {
          (st, b) \<leftarrow> RtlInitializeSid b IdentifierAuthority SubAuthorityCount;
          b \<leftarrow> fill_subs b subs (unat SubAuthorityCount);
          Some (STATUS_SUCCESS, Some b) })"

section \<open>Printing\<close>

text \<open>What \<open>swprintf\<close> prints for \<open>%lu\<close> and \<open>%02hx\<close>.\<close>

definition digit :: "nat \<Rightarrow> char" where
  "digit d = char_of (if d < 10 then 48 + d else 87 + d)"

function dec :: "nat \<Rightarrow> string" where
  "dec n = (if n < 10 then [digit n] else dec (n div 10) @ [digit (n mod 10)])"
  by pat_completeness auto
termination by (relation "measure id") auto

declare dec.simps [simp del]

definition hex2 :: "8 word \<Rightarrow> string" where
  "hex2 v = [digit (unat v div 16), digit (unat v mod 16)]"

fun print_subs :: "bytes \<Rightarrow> nat \<Rightarrow> nat \<Rightarrow> string option" where
  "print_subs b i 0 = Some []"
| "print_subs b i (Suc n) = do {
     v \<leftarrow> rd32 b (8 + 4 * i);
     r \<leftarrow> print_subs b (Suc i) n;
     Some (CHR ''-'' # dec (unat v) @ r) }"

definition sid_text :: "bytes \<Rightarrow> string option" where
  "sid_text b = do {
     a \<leftarrow> rdn b 2 6;
     c \<leftarrow> rd b 1;
     r \<leftarrow> print_subs b 0 (unat c);
     Some (''S-1-'' @
       (if a ! 0 = 0 \<and> a ! 1 = 0
        then dec (unat ((push_bit 24 (ucast (a ! 2)) OR push_bit 16 (ucast (a ! 3)) OR push_bit 8 (ucast (a ! 4)) OR ucast (a ! 5)) :: 32 word))
        else ''0x'' @ hex2 (a ! 0) @ hex2 (a ! 1) @ hex2 (a ! 2) @ hex2 (a ! 3) @ hex2 (a ! 4) @ hex2 (a ! 5)) @ r) }"

text \<open>The text is built in \<open>WCHAR Buffer[256]\<close>, with its terminator; \<open>None\<close> when it does not fit there.
  The caller's string has room for \<open>MaximumLength\<close> bytes; the result is the text stored, and whether a
  final zero of two bytes is, which is written whenever one byte is left: \<open>None\<close> when it is the only one. \<open>alloc\<close> tells whether \<open>RtlCreateUnicodeString\<close> gets its memory.\<close>

definition RtlConvertSidToUnicodeString ::
  "16 word \<Rightarrow> bytes option \<Rightarrow> bool \<Rightarrow> bool \<Rightarrow> (NTSTATUS \<times> (string \<times> bool) option) option" where
  "RtlConvertSidToUnicodeString MaximumLength Sid AllocateBuffer alloc =
     (if \<not> RtlValidSid Sid then Some (STATUS_INVALID_SID, None)
      else do {
        b \<leftarrow> Sid;
        Buffer \<leftarrow> sid_text b;
        if length Buffer + 1 > 256 then None
        else if AllocateBuffer then
          (if \<not> alloc then Some (STATUS_NO_MEMORY, None) else Some (STATUS_SUCCESS, Some (Buffer, True)))
        else
          (let Length = length Buffer * 2 in
           if Length > unat MaximumLength then Some (STATUS_BUFFER_TOO_SMALL, None)
           else if Length < unat MaximumLength \<and> Length + 2 > unat MaximumLength then None
           else Some (STATUS_SUCCESS, Some (Buffer, Length < unat MaximumLength))) })"

end
