(* ===== verification/Acl.thy ===== *)
theory Acl
  imports Sid
begin

text \<open>Access control lists, \<open>sdk/lib/rtl/acl.c\<close>. An ACL is the memory from its address on: a header of eight bytes
  (revision at 0, size at 2, number of entries at 4) and the entries (ACEs), each with its type at 0, its
  flags at 1 and its size at 2. Pointers are offsets from the ACL; the memory of an ACL does not wrap
  around the address space, so that comparing addresses is comparing offsets.\<close>

abbreviation (input) "STATUS_REVISION_MISMATCH \<equiv> (0xC0000059 :: NTSTATUS)"
abbreviation (input) "STATUS_INVALID_ACL \<equiv> (0xC0000077 :: NTSTATUS)"
abbreviation (input) "STATUS_ALLOTTED_SPACE_EXCEEDED \<equiv> (0xC0000099 :: NTSTATUS)"
abbreviation (input) "STATUS_INVALID_INFO_CLASS \<equiv> (0xC0000003 :: NTSTATUS)"

abbreviation (input) "ACCESS_ALLOWED_ACE_TYPE \<equiv> (0 :: UCHAR)"
abbreviation (input) "ACCESS_DENIED_ACE_TYPE \<equiv> (1 :: UCHAR)"
abbreviation (input) "SYSTEM_AUDIT_ACE_TYPE \<equiv> (2 :: UCHAR)"
abbreviation (input) "ACCESS_MAX_MS_V2_ACE_TYPE \<equiv> (3 :: UCHAR)"
abbreviation (input) "ACCESS_ALLOWED_COMPOUND_ACE_TYPE \<equiv> (4 :: UCHAR)"
abbreviation (input) "ACCESS_MAX_MS_V3_ACE_TYPE \<equiv> (4 :: UCHAR)"
abbreviation (input) "ACCESS_ALLOWED_OBJECT_ACE_TYPE \<equiv> (5 :: UCHAR)"
abbreviation (input) "ACCESS_DENIED_OBJECT_ACE_TYPE \<equiv> (6 :: UCHAR)"
abbreviation (input) "SYSTEM_AUDIT_OBJECT_ACE_TYPE \<equiv> (7 :: UCHAR)"
abbreviation (input) "ACCESS_MAX_MS_ACE_TYPE \<equiv> (8 :: UCHAR)"
abbreviation (input) "SYSTEM_AUDIT_CALLBACK_OBJECT_ACE_TYPE \<equiv> (15 :: UCHAR)"

abbreviation (input) "VALID_INHERIT_FLAGS \<equiv> (0x1F :: ULONG)"
abbreviation (input) "SUCCESSFUL_ACCESS_ACE_FLAG \<equiv> (0x40 :: ULONG)"
abbreviation (input) "FAILED_ACCESS_ACE_FLAG \<equiv> (0x80 :: ULONG)"
abbreviation (input) "ACE_OBJECT_TYPE_PRESENT \<equiv> (1 :: ULONG)"
abbreviation (input) "ACE_INHERITED_OBJECT_TYPE_PRESENT \<equiv> (2 :: ULONG)"

section \<open>The end of the entries\<close>

text \<open>\<open>Some None\<close>: an entry is beyond the ACL, the loop returns \<open>FALSE\<close>.\<close>

fun first_free_loop :: "bytes \<Rightarrow> nat \<Rightarrow> nat \<Rightarrow> nat \<Rightarrow> nat option option" where
  "first_free_loop b AclEnd Current 0 = Some (Some Current)"
| "first_free_loop b AclEnd Current (Suc n) =
     (if Current \<ge> AclEnd then Some None
      else do { sz \<leftarrow> rd16 b (Current + 2); first_free_loop b AclEnd (Current + unat sz) n })"

definition RtlFirstFreeAce :: "bytes \<Rightarrow> (bool \<times> nat option) option" where
  "RtlFirstFreeAce b = do {
     AclSize \<leftarrow> rd16 b 2;
     AceCount \<leftarrow> rd16 b 4;
     r \<leftarrow> first_free_loop b (unat AclSize) 8 (unat AceCount);
     Some (case r of None \<Rightarrow> (False, None)
       | Some Current \<Rightarrow> (True, if Current \<le> unat AclSize then Some Current else None)) }"

section \<open>Making room and closing gaps\<close>

definition RtlpAddData :: "bytes \<Rightarrow> bytes \<Rightarrow> nat \<Rightarrow> nat \<Rightarrow> nat \<Rightarrow> bytes option" where
  "RtlpAddData b AceList AceListLength Ace Offset = do {
     b \<leftarrow> (if Offset > 0 then RtlMoveMemory b (Ace + AceListLength) Ace Offset else Some b);
     if AceListLength \<noteq> 0 then do { d \<leftarrow> rdn AceList 0 AceListLength; wrn b Ace d } else Some b }"

definition RtlpDeleteData :: "bytes \<Rightarrow> nat \<Rightarrow> ULONG \<Rightarrow> ULONG \<Rightarrow> bytes option" where
  "RtlpDeleteData b Ace AceSize Offset = do {
     b \<leftarrow> (if AceSize < Offset then RtlMoveMemory b Ace (Ace + unat AceSize) (unat (Offset - AceSize)) else Some b);
     if Offset - AceSize < Offset then wrn b (Ace + unat Offset - unat AceSize) (replicate (unat AceSize) 0) else Some b }"

section \<open>Validity\<close>

text \<open>The check of one ACE at \<open>Ace\<close>; a fault is caught by the caller's handler.\<close>

definition valid_ace :: "bytes \<Rightarrow> nat \<Rightarrow> nat \<Rightarrow> bool option" where
  "valid_ace b AclSize Ace =
     (if Ace + 4 \<ge> AclSize then Some False
      else do {
        AceSize \<leftarrow> rd16 b (Ace + 2);
        AceType \<leftarrow> rd b Ace;
        if AceSize AND NOT 1 \<noteq> AceSize then Some False
        else if Ace + unat AceSize > AclSize then Some False
        else if AceType \<le> ACCESS_MAX_MS_V2_ACE_TYPE then
          (if AceSize AND NOT 3 \<noteq> AceSize then Some False
           else if unat AceSize < 4 then Some False
           else do {
             r \<leftarrow> rd b (Ace + 8);
             if r \<noteq> SID_REVISION then Some False
             else do {
               c \<leftarrow> rd b (Ace + 9);
               if unat c > SID_MAX_SUB_AUTHORITIES then Some False
               else Some (\<not> unat AceSize < 4 + (8 + 4 * unat c)) } })
        else if AceType = ACCESS_ALLOWED_COMPOUND_ACE_TYPE then Some True
        else if AceType \<ge> ACCESS_ALLOWED_OBJECT_ACE_TYPE \<and> AceType \<le> ACCESS_MAX_MS_ACE_TYPE then Some True
        else Some (\<not> unat AceSize < 4) })"

fun valid_loop :: "bytes \<Rightarrow> nat \<Rightarrow> nat \<Rightarrow> nat \<Rightarrow> bool option" where
  "valid_loop b AclSize Ace 0 = Some True"
| "valid_loop b AclSize Ace (Suc n) = do {
     ok \<leftarrow> valid_ace b AclSize Ace;
     if \<not> ok then Some False
     else do { sz \<leftarrow> rd16 b (Ace + 2); valid_loop b AclSize (Ace + unat sz) n } }"

definition RtlValidAcl :: "bytes \<Rightarrow> bool" where
  "RtlValidAcl b = (case do {
       AclRevision \<leftarrow> rd b 0;
       if AclRevision < 2 \<or> AclRevision > 4 then Some False
       else do {
         AclSize \<leftarrow> rd16 b 2;
         if AclSize AND NOT 1 \<noteq> AclSize then Some False
         else if unat AclSize < 8 then Some False
         else do { AceCount \<leftarrow> rd16 b 4; valid_loop b (unat AclSize) 8 (unat AceCount) } } } of
     None \<Rightarrow> False | Some ok \<Rightarrow> ok)"

section \<open>Adding known ACEs\<close>

definition invalid_flags :: "ULONG \<Rightarrow> bool \<Rightarrow> ULONG" where
  "invalid_flags Flags audit =
     (if audit then Flags AND NOT (VALID_INHERIT_FLAGS OR SUCCESSFUL_ACCESS_ACE_FLAG OR FAILED_ACCESS_ACE_FLAG)
      else Flags AND NOT VALID_INHERIT_FLAGS)"

text \<open>The header and common fields of the ACE, and the end of both routines: the SID, the count, the revision.\<close>

definition init_ace :: "bytes \<Rightarrow> nat \<Rightarrow> UCHAR \<Rightarrow> ULONG \<Rightarrow> nat \<Rightarrow> ULONG \<Rightarrow> bytes option" where
  "init_ace b Ace Type Flags AceSize AccessMask = do {
     b \<leftarrow> wr b (Ace + 1) (ucast Flags);
     b \<leftarrow> wr b Ace Type;
     b \<leftarrow> wr16 b (Ace + 2) (of_nat AceSize);
     wr32 b (Ace + 4) AccessMask }"

definition finish_ace :: "bytes \<Rightarrow> nat \<Rightarrow> nat \<Rightarrow> bytes \<Rightarrow> ULONG \<Rightarrow> (NTSTATUS \<times> bytes) option" where
  "finish_ace b SidStart SidLength sid Revision = do {
     (_, b) \<leftarrow> RtlCopySid SidLength b SidStart sid;
     AceCount \<leftarrow> rd16 b 4;
     b \<leftarrow> wr16 b 4 (AceCount + 1);
     b \<leftarrow> wr b 0 (ucast Revision);
     Some (STATUS_SUCCESS, b) }"

definition RtlpAddKnownAce :: "bytes \<Rightarrow> ULONG \<Rightarrow> ULONG \<Rightarrow> ULONG \<Rightarrow> bytes option \<Rightarrow> UCHAR \<Rightarrow> (NTSTATUS \<times> bytes) option" where
  "RtlpAddKnownAce b Revision Flags AccessMask Sid Type =
     (if \<not> RtlValidSid Sid then Some (STATUS_INVALID_SID, b)
      else do {
        AclRevision \<leftarrow> rd b 0;
        if AclRevision > 4 \<or> Revision > 4 then Some (STATUS_REVISION_MISMATCH, b)
        else (let Revision = (if Revision < ucast AclRevision then ucast AclRevision else Revision) in
          if invalid_flags Flags (Type = SYSTEM_AUDIT_ACE_TYPE) \<noteq> 0 then Some (STATUS_INVALID_PARAMETER, b)
          else if \<not> RtlValidAcl b then Some (STATUS_INVALID_ACL, b)
          else do {
            (found, Ace) \<leftarrow> RtlFirstFreeAce b;
            if \<not> found then Some (STATUS_INVALID_ACL, b)
            else do {
              sid \<leftarrow> Sid;
              SidLength \<leftarrow> RtlLengthSid sid;
              AclSize \<leftarrow> rd16 b 2;
              let AceSize = SidLength + 8;
              case Ace of None \<Rightarrow> Some (STATUS_ALLOTTED_SPACE_EXCEEDED, b)
              | Some Ace \<Rightarrow>
                  if Ace + AceSize > unat AclSize then Some (STATUS_ALLOTTED_SPACE_EXCEEDED, b)
                  else do {
                    b \<leftarrow> init_ace b Ace Type Flags AceSize AccessMask;
                    finish_ace b (Ace + 8) SidLength sid Revision } } }) })"

text \<open>The GUIDs are blocks of 16 bytes, or the null pointer.\<close>

definition copy_guid :: "bytes \<Rightarrow> nat \<Rightarrow> bytes option \<Rightarrow> (bytes \<times> nat) option" where
  "copy_guid b SidStart Guid = (case Guid of None \<Rightarrow> Some (b, SidStart)
     | Some g \<Rightarrow> do { d \<leftarrow> rdn g 0 16; b \<leftarrow> wrn b SidStart d; Some (b, SidStart + 16) })"

definition RtlpAddKnownObjectAce ::
  "bytes \<Rightarrow> ULONG \<Rightarrow> ULONG \<Rightarrow> ULONG \<Rightarrow> bytes option \<Rightarrow> bytes option \<Rightarrow> bytes option \<Rightarrow> UCHAR \<Rightarrow> (NTSTATUS \<times> bytes) option" where
  "RtlpAddKnownObjectAce b Revision Flags AccessMask ObjectTypeGuid InheritedObjectTypeGuid Sid Type =
     (if \<not> RtlValidSid Sid then Some (STATUS_INVALID_SID, b)
      else do {
        AclRevision \<leftarrow> rd b 0;
        if AclRevision > 4 \<or> Revision > 4 then Some (STATUS_REVISION_MISMATCH, b)
        else (let Revision = (if Revision < ucast AclRevision then ucast AclRevision else Revision) in
          if invalid_flags Flags (Type = SYSTEM_AUDIT_OBJECT_ACE_TYPE \<or> Type = SYSTEM_AUDIT_CALLBACK_OBJECT_ACE_TYPE) \<noteq> 0
          then Some (STATUS_INVALID_PARAMETER, b)
          else if \<not> RtlValidAcl b then Some (STATUS_INVALID_ACL, b)
          else do {
            (found, Ace) \<leftarrow> RtlFirstFreeAce b;
            if \<not> found then Some (STATUS_INVALID_ACL, b)
            else do {
              sid \<leftarrow> Sid;
              SidLength \<leftarrow> RtlLengthSid sid;
              AclSize \<leftarrow> rd16 b 2;
              let AceSize = SidLength + 8 + 4;
              let AceObjectFlags = 0;
              let (AceObjectFlags, AceSize) = (if ObjectTypeGuid \<noteq> None
                then (AceObjectFlags OR ACE_OBJECT_TYPE_PRESENT, AceSize + 16) else (AceObjectFlags, AceSize));
              let (AceObjectFlags, AceSize) = (if InheritedObjectTypeGuid \<noteq> None
                then (AceObjectFlags OR ACE_INHERITED_OBJECT_TYPE_PRESENT, AceSize + 16) else (AceObjectFlags, AceSize));
              case Ace of None \<Rightarrow> Some (STATUS_ALLOTTED_SPACE_EXCEEDED, b)
              | Some Ace \<Rightarrow>
                  if Ace + AceSize > unat AclSize then Some (STATUS_ALLOTTED_SPACE_EXCEEDED, b)
                  else do {
                    b \<leftarrow> init_ace b Ace Type Flags AceSize AccessMask;
                    b \<leftarrow> wr32 b (Ace + 8) AceObjectFlags;
                    let SidStart = Ace + 12;
                    (b, SidStart) \<leftarrow> copy_guid b SidStart ObjectTypeGuid;
                    (b, SidStart) \<leftarrow> copy_guid b SidStart InheritedObjectTypeGuid;
                    finish_ace b SidStart SidLength sid Revision } } }) })"

section \<open>The public routines that add an ACE\<close>

definition RtlAddAccessAllowedAce :: "bytes \<Rightarrow> ULONG \<Rightarrow> ULONG \<Rightarrow> bytes option \<Rightarrow> (NTSTATUS \<times> bytes) option" where
  "RtlAddAccessAllowedAce b Revision AccessMask Sid = RtlpAddKnownAce b Revision 0 AccessMask Sid ACCESS_ALLOWED_ACE_TYPE"

definition RtlAddAccessAllowedAceEx :: "bytes \<Rightarrow> ULONG \<Rightarrow> ULONG \<Rightarrow> ULONG \<Rightarrow> bytes option \<Rightarrow> (NTSTATUS \<times> bytes) option" where
  "RtlAddAccessAllowedAceEx b Revision Flags AccessMask Sid = RtlpAddKnownAce b Revision Flags AccessMask Sid ACCESS_ALLOWED_ACE_TYPE"

definition RtlAddAccessAllowedObjectAce ::
  "bytes \<Rightarrow> ULONG \<Rightarrow> ULONG \<Rightarrow> ULONG \<Rightarrow> bytes option \<Rightarrow> bytes option \<Rightarrow> bytes option \<Rightarrow> (NTSTATUS \<times> bytes) option" where
  "RtlAddAccessAllowedObjectAce b Revision Flags AccessMask ObjectTypeGuid InheritedObjectTypeGuid Sid =
     (if ObjectTypeGuid = None \<and> InheritedObjectTypeGuid = None
      then RtlpAddKnownAce b Revision Flags AccessMask Sid ACCESS_ALLOWED_ACE_TYPE
      else RtlpAddKnownObjectAce b Revision Flags AccessMask ObjectTypeGuid InheritedObjectTypeGuid Sid ACCESS_ALLOWED_OBJECT_ACE_TYPE)"

definition RtlAddAccessDeniedAce :: "bytes \<Rightarrow> ULONG \<Rightarrow> ULONG \<Rightarrow> bytes option \<Rightarrow> (NTSTATUS \<times> bytes) option" where
  "RtlAddAccessDeniedAce b Revision AccessMask Sid = RtlpAddKnownAce b Revision 0 AccessMask Sid ACCESS_DENIED_ACE_TYPE"

definition RtlAddAccessDeniedAceEx :: "bytes \<Rightarrow> ULONG \<Rightarrow> ULONG \<Rightarrow> ULONG \<Rightarrow> bytes option \<Rightarrow> (NTSTATUS \<times> bytes) option" where
  "RtlAddAccessDeniedAceEx b Revision Flags AccessMask Sid = RtlpAddKnownAce b Revision Flags AccessMask Sid ACCESS_DENIED_ACE_TYPE"

definition RtlAddAccessDeniedObjectAce ::
  "bytes \<Rightarrow> ULONG \<Rightarrow> ULONG \<Rightarrow> ULONG \<Rightarrow> bytes option \<Rightarrow> bytes option \<Rightarrow> bytes option \<Rightarrow> (NTSTATUS \<times> bytes) option" where
  "RtlAddAccessDeniedObjectAce b Revision Flags AccessMask ObjectTypeGuid InheritedObjectTypeGuid Sid =
     (if ObjectTypeGuid = None \<and> InheritedObjectTypeGuid = None
      then RtlpAddKnownAce b Revision Flags AccessMask Sid ACCESS_DENIED_ACE_TYPE
      else RtlpAddKnownObjectAce b Revision Flags AccessMask ObjectTypeGuid InheritedObjectTypeGuid Sid ACCESS_DENIED_OBJECT_ACE_TYPE)"

definition audit_flags :: "ULONG \<Rightarrow> bool \<Rightarrow> bool \<Rightarrow> ULONG" where
  "audit_flags Flags Success Failure =
     (let Flags = (if Success then Flags OR SUCCESSFUL_ACCESS_ACE_FLAG else Flags) in
      if Failure then Flags OR FAILED_ACCESS_ACE_FLAG else Flags)"

definition RtlAddAuditAccessAce :: "bytes \<Rightarrow> ULONG \<Rightarrow> ULONG \<Rightarrow> bytes option \<Rightarrow> bool \<Rightarrow> bool \<Rightarrow> (NTSTATUS \<times> bytes) option" where
  "RtlAddAuditAccessAce b Revision AccessMask Sid Success Failure =
     RtlpAddKnownAce b Revision (audit_flags 0 Success Failure) AccessMask Sid SYSTEM_AUDIT_ACE_TYPE"

definition RtlAddAuditAccessAceEx ::
  "bytes \<Rightarrow> ULONG \<Rightarrow> ULONG \<Rightarrow> ULONG \<Rightarrow> bytes option \<Rightarrow> bool \<Rightarrow> bool \<Rightarrow> (NTSTATUS \<times> bytes) option" where
  "RtlAddAuditAccessAceEx b Revision Flags AccessMask Sid Success Failure =
     RtlpAddKnownAce b Revision (audit_flags Flags Success Failure) AccessMask Sid SYSTEM_AUDIT_ACE_TYPE"

definition RtlAddAuditAccessObjectAce ::
  "bytes \<Rightarrow> ULONG \<Rightarrow> ULONG \<Rightarrow> ULONG \<Rightarrow> bytes option \<Rightarrow> bytes option \<Rightarrow> bytes option \<Rightarrow> bool \<Rightarrow> bool \<Rightarrow> (NTSTATUS \<times> bytes) option" where
  "RtlAddAuditAccessObjectAce b Revision Flags AccessMask ObjectTypeGuid InheritedObjectTypeGuid Sid Success Failure =
     (let Flags = audit_flags Flags Success Failure in
      if ObjectTypeGuid = None \<and> InheritedObjectTypeGuid = None
      then RtlpAddKnownAce b Revision Flags AccessMask Sid SYSTEM_AUDIT_ACE_TYPE
      else RtlpAddKnownObjectAce b Revision Flags AccessMask ObjectTypeGuid InheritedObjectTypeGuid Sid SYSTEM_AUDIT_OBJECT_ACE_TYPE)"

section \<open>Finding, inserting and deleting ACEs\<close>

text \<open>\<open>*Ace\<close> is written also when the routine fails in the loop; \<open>None\<close> when it is not written.\<close>

fun get_ace_loop :: "bytes \<Rightarrow> nat \<Rightarrow> nat \<Rightarrow> nat \<Rightarrow> (NTSTATUS \<times> nat) option" where
  "get_ace_loop b AclSize Ace 0 = Some (if Ace \<ge> AclSize then STATUS_INVALID_PARAMETER else STATUS_SUCCESS, Ace)"
| "get_ace_loop b AclSize Ace (Suc n) =
     (if Ace \<ge> AclSize then Some (STATUS_INVALID_PARAMETER, Ace)
      else do { sz \<leftarrow> rd16 b (Ace + 2); get_ace_loop b AclSize (Ace + unat sz) n })"

definition RtlGetAce :: "bytes \<Rightarrow> ULONG \<Rightarrow> (NTSTATUS \<times> nat option) option" where
  "RtlGetAce b AceIndex = do {
     AclRevision \<leftarrow> rd b 0;
     if AclRevision < 2 \<or> AclRevision > 4 then Some (STATUS_INVALID_PARAMETER, None)
     else do {
       AceCount \<leftarrow> rd16 b 4;
       if AceIndex \<ge> ucast AceCount then Some (STATUS_INVALID_PARAMETER, None)
       else do {
         AclSize \<leftarrow> rd16 b 2;
         (st, Ace) \<leftarrow> get_ace_loop b (unat AclSize) 8 (unat AceIndex);
         Some (st, Some Ace) } } }"

text \<open>The loop over the ACEs of the list to add: \<open>Some None\<close> when one is not allowed in the revision. An ACE of
  size 0 makes it run forever, which is \<open>None\<close>.\<close>

definition type_rejected :: "UCHAR \<Rightarrow> ULONG \<Rightarrow> bool" where
  "type_rejected AceType AclRevision =
     (AceType \<le> ACCESS_MAX_MS_ACE_TYPE \<and>
      (if AceType > ACCESS_MAX_MS_V3_ACE_TYPE then AclRevision < 4
       else AceType > ACCESS_MAX_MS_V2_ACE_TYPE \<and> AclRevision < 3))"

partial_function (option) ace_list_loop :: "bytes \<Rightarrow> nat \<Rightarrow> ULONG \<Rightarrow> nat \<Rightarrow> USHORT \<Rightarrow> (nat \<times> USHORT) option option" where
  "ace_list_loop AceList AceListLength AclRevision Ace NewAceCount =
     (if Ace < AceListLength then do {
        AceType \<leftarrow> rd AceList Ace;
        if type_rejected AceType AclRevision then Some None
        else do {
          sz \<leftarrow> rd16 AceList (Ace + 2);
          ace_list_loop AceList AceListLength AclRevision (Ace + unat sz) (NewAceCount + 1) } }
      else Some (Some (Ace, NewAceCount)))"

fun skip_aces :: "bytes \<Rightarrow> nat \<Rightarrow> nat \<Rightarrow> nat option" where
  "skip_aces b Ace 0 = Some Ace"
| "skip_aces b Ace (Suc n) = do { sz \<leftarrow> rd16 b (Ace + 2); skip_aces b (Ace + unat sz) n }"

definition RtlAddAce :: "bytes \<Rightarrow> ULONG \<Rightarrow> ULONG \<Rightarrow> bytes \<Rightarrow> ULONG \<Rightarrow> (NTSTATUS \<times> bytes) option" where
  "RtlAddAce b AclRevision StartingIndex AceList AceListLength =
     (if \<not> RtlValidAcl b then Some (STATUS_INVALID_PARAMETER, b)
      else do {
        (found, FreeAce) \<leftarrow> RtlFirstFreeAce b;
        if \<not> found then Some (STATUS_INVALID_PARAMETER, b)
        else do {
          r \<leftarrow> ace_list_loop AceList (unat AceListLength) AclRevision 0 0;
          case r of None \<Rightarrow> Some (STATUS_INVALID_PARAMETER, b)
          | Some (Ace, NewAceCount) \<Rightarrow>
              if Ace > unat AceListLength then Some (STATUS_INVALID_PARAMETER, b)
              else do {
                AclSize \<leftarrow> rd16 b 2;
                case FreeAce of None \<Rightarrow> Some (STATUS_BUFFER_TOO_SMALL, b)
                | Some FreeAce \<Rightarrow>
                    if FreeAce + unat AceListLength > unat AclSize then Some (STATUS_BUFFER_TOO_SMALL, b)
                    else do {
                      AceCount \<leftarrow> rd16 b 4;
                      Ace \<leftarrow> skip_aces b 8 (min (unat StartingIndex) (unat AceCount));
                      b \<leftarrow> RtlpAddData b AceList (unat AceListLength) Ace (FreeAce - Ace);
                      AceCount \<leftarrow> rd16 b 4;
                      b \<leftarrow> wr16 b 4 (AceCount + NewAceCount);
                      OldRevision \<leftarrow> rd b 0;
                      b \<leftarrow> wr b 0 (ucast (min (ucast OldRevision) AclRevision));
                      Some (STATUS_SUCCESS, b) } } } })"

text \<open>After \<open>RtlValidAcl\<close> the first free ACE is never null; a null one would be subtracted from: \<open>None\<close>.\<close>

definition RtlDeleteAce :: "bytes \<Rightarrow> ULONG \<Rightarrow> (NTSTATUS \<times> bytes) option" where
  "RtlDeleteAce b AceIndex =
     (if \<not> RtlValidAcl b then Some (STATUS_INVALID_PARAMETER, b)
      else do {
        AceCount \<leftarrow> rd16 b 4;
        if ucast AceCount \<le> AceIndex then Some (STATUS_INVALID_PARAMETER, b)
        else do {
          (found, FreeAce) \<leftarrow> RtlFirstFreeAce b;
          if \<not> found then Some (STATUS_INVALID_PARAMETER, b)
          else do {
            Ace \<leftarrow> skip_aces b 8 (unat AceIndex);
            sz \<leftarrow> rd16 b (Ace + 2);
            FreeAce \<leftarrow> FreeAce;
            b \<leftarrow> RtlpDeleteData b Ace (ucast sz) (of_nat FreeAce - of_nat Ace);
            AceCount \<leftarrow> rd16 b 4;
            b \<leftarrow> wr16 b 4 (AceCount - 1);
            Some (STATUS_SUCCESS, b) } } })"

section \<open>The ACL as a whole\<close>

definition ROUND_UP :: "ULONG_PTR \<Rightarrow> ULONG_PTR \<Rightarrow> ULONG_PTR" where
  "ROUND_UP n align = (n + align - 1) AND NOT (align - 1)"

definition RtlCreateAcl :: "bytes \<Rightarrow> ULONG \<Rightarrow> ULONG \<Rightarrow> (NTSTATUS \<times> bytes) option" where
  "RtlCreateAcl b AclSize AclRevision =
     (if AclSize < 8 then Some (STATUS_BUFFER_TOO_SMALL, b)
      else if AclRevision < 2 \<or> AclRevision > 4 \<or> AclSize > 65535 then Some (STATUS_INVALID_PARAMETER, b)
      else do {
        b \<leftarrow> wr16 b 2 (ucast (ROUND_UP AclSize 4));
        b \<leftarrow> wr b 0 (ucast AclRevision);
        b \<leftarrow> wr16 b 4 0;
        b \<leftarrow> wr b 1 0;
        b \<leftarrow> wr16 b 6 0;
        Some (STATUS_SUCCESS, b) })"

abbreviation (input) "AclRevisionInformation \<equiv> (1 :: ULONG)"
abbreviation (input) "AclSizeInformation \<equiv> (2 :: ULONG)"

text \<open>\<open>Information\<close> is memory apart from the ACL: one \<open>ULONG\<close>, or the count, the bytes in use and the free bytes.\<close>

definition RtlQueryInformationAcl :: "bytes \<Rightarrow> bytes \<Rightarrow> ULONG \<Rightarrow> ULONG \<Rightarrow> (NTSTATUS \<times> bytes) option" where
  "RtlQueryInformationAcl b Information InformationLength InformationClass = do {
     AclRevision \<leftarrow> rd b 0;
     if AclRevision < 2 \<or> AclRevision > 4 then Some (STATUS_INVALID_PARAMETER, Information)
     else if InformationClass = AclRevisionInformation then
       (if InformationLength < 4 then Some (STATUS_BUFFER_TOO_SMALL, Information)
        else do { Information \<leftarrow> wr32 Information 0 (ucast AclRevision); Some (STATUS_SUCCESS, Information) })
     else if InformationClass = AclSizeInformation then
       (if InformationLength < 12 then Some (STATUS_BUFFER_TOO_SMALL, Information)
        else do {
          (found, Ace) \<leftarrow> RtlFirstFreeAce b;
          if \<not> found then Some (STATUS_INVALID_PARAMETER, Information)
          else do {
            AceCount \<leftarrow> rd16 b 4;
            AclSize \<leftarrow> rd16 b 2;
            Information \<leftarrow> wr32 Information 0 (ucast AceCount);
            Information \<leftarrow> wr32 Information 4 (case Ace of Some Ace \<Rightarrow> of_nat Ace | None \<Rightarrow> ucast AclSize);
            Information \<leftarrow> wr32 Information 8 (case Ace of Some Ace \<Rightarrow> ucast AclSize - of_nat Ace | None \<Rightarrow> 0);
            Some (STATUS_SUCCESS, Information) } })
     else Some (STATUS_INVALID_INFO_CLASS, Information) }"

definition RtlSetInformationAcl :: "bytes \<Rightarrow> bytes \<Rightarrow> ULONG \<Rightarrow> ULONG \<Rightarrow> (NTSTATUS \<times> bytes) option" where
  "RtlSetInformationAcl b Information InformationLength InformationClass = do {
     AclRevision \<leftarrow> rd b 0;
     if AclRevision < 2 \<or> AclRevision > 4 then Some (STATUS_INVALID_PARAMETER, b)
     else if InformationClass = AclRevisionInformation then
       (if InformationLength < 4 then Some (STATUS_BUFFER_TOO_SMALL, b)
        else do {
          InfoRevision \<leftarrow> rd32 Information 0;
          if ucast AclRevision \<ge> InfoRevision then Some (STATUS_INVALID_PARAMETER, b)
          else do { b \<leftarrow> wr b 0 (ucast InfoRevision); Some (STATUS_SUCCESS, b) } })
     else Some (STATUS_INVALID_INFO_CLASS, b) }"

end
