(* ===== verification/Sid_Correct.thy ===== *)
theory Sid_Correct
  imports Sid
begin

text \<open>What the SID routines promise on well-formed SIDs: they can be copied and compared, a SID that is
  allocated is the one asked for, and the text of a SID fits its buffer and identifies the SID.\<close>

section \<open>Well-formed SIDs\<close>

definition sid_bytes :: "bytes \<Rightarrow> 32 word list \<Rightarrow> bytes" where
  "sid_bytes auth subs = [SID_REVISION, of_nat (length subs)] @ auth @ concat (map le32 subs)"

definition sid_ok :: "bytes \<Rightarrow> 32 word list \<Rightarrow> bool" where
  "sid_ok auth subs \<longleftrightarrow> length auth = 6 \<and> length subs \<le> SID_MAX_SUB_AUTHORITIES"

lemma length_concat_le32 [simp]: "length (concat (map le32 subs)) = 4 * length subs"
  by (induction subs) simp_all

lemma length_sid_bytes: "length auth = 6 \<Longrightarrow> length (sid_bytes auth subs) = 8 + 4 * length subs"
  by (simp add: sid_bytes_def)

lemma unat_count: "length subs \<le> SID_MAX_SUB_AUTHORITIES \<Longrightarrow> unat (of_nat (length subs) :: 8 word) = length subs"
  by (simp add: unat_of_nat take_bit_nat_eq_self)

lemma sid_fields:
  assumes "sid_ok auth subs"
  shows "rd (sid_bytes auth subs @ q) 0 = Some SID_REVISION" "rd (sid_bytes auth subs @ q) 1 = Some (of_nat (length subs))"
    "rdn (sid_bytes auth subs @ q) 2 6 = Some auth"
  using assms rdn_append[of "[SID_REVISION, of_nat (length subs)]" 2 auth 6 "concat (map le32 subs) @ q"]
  by (simp_all add: sid_bytes_def sid_ok_def rd_def)

lemma RtlValidSid_ok: "sid_ok auth subs \<Longrightarrow> RtlValidSid (Some (sid_bytes auth subs @ q))"
  by (simp add: RtlValidSid_def sid_fields[unfolded One_nat_def] sid_ok_def unat_count)

lemma RtlLengthSid_ok: "sid_ok auth subs \<Longrightarrow> RtlLengthSid (sid_bytes auth subs @ q) = Some (8 + 4 * length subs)"
  by (simp add: RtlLengthSid_def sid_fields[unfolded One_nat_def] sid_ok_def unat_count)

lemma bit_le32:
  "ucast (ucast v :: 8 word) OR push_bit 8 (ucast (ucast (drop_bit 8 v) :: 8 word)) OR
   push_bit 16 (ucast (ucast (drop_bit 16 v) :: 8 word)) OR push_bit 24 (ucast (ucast (drop_bit 24 v) :: 8 word)) = (v :: 32 word)"
proof (rule bit_eqI)
  show "bit (ucast (ucast v :: 8 word) OR push_bit 8 (ucast (ucast (drop_bit 8 v) :: 8 word)) OR
   push_bit 16 (ucast (ucast (drop_bit 16 v) :: 8 word)) OR push_bit 24 (ucast (ucast (drop_bit 24 v) :: 8 word)) :: 32 word) n = bit v n"
    if "possible_bit TYPE(32 word) n" for n
    using that by (cases "n < 8"; cases "n < 16"; cases "n < 24") (auto simp: bit_or_iff bit_push_bit_iff bit_ucast_iff bit_drop_bit_eq)
qed

lemma rd32_le32: "length p = off \<Longrightarrow> rd32 (p @ le32 v @ q) off = Some v"
  by (simp add: rd32_def rd_def nth_append le32_def bit_le32)

section \<open>The text\<close>

lemma print_subs_text:
  "length p = 8 + 4 * i \<Longrightarrow>
   print_subs (p @ concat (map le32 subs) @ q) i (length subs) = Some (concat (map (\<lambda>v. CHR ''-'' # dec (unat v)) subs))"
proof (induction subs arbitrary: p i)
  case (Cons v subs)
  have "rd32 (p @ le32 v @ concat (map le32 subs) @ q) (8 + 4 * i) = Some v" using Cons.prems by (rule rd32_le32)
  moreover have "print_subs ((p @ le32 v) @ concat (map le32 subs) @ q) (Suc i) (length subs) =
      Some (concat (map (\<lambda>v. CHR ''-'' # dec (unat v)) subs))"
    using Cons.prems by (intro Cons.IH) simp
  ultimately show ?case by simp
qed simp

definition auth_text :: "bytes \<Rightarrow> string" where
  "auth_text a =
     (if a ! 0 = 0 \<and> a ! 1 = 0
      then dec (unat ((push_bit 24 (ucast (a ! 2)) OR push_bit 16 (ucast (a ! 3)) OR push_bit 8 (ucast (a ! 4)) OR ucast (a ! 5)) :: 32 word))
      else ''0x'' @ hex2 (a ! 0) @ hex2 (a ! 1) @ hex2 (a ! 2) @ hex2 (a ! 3) @ hex2 (a ! 4) @ hex2 (a ! 5))"

definition subs_text :: "32 word list \<Rightarrow> string" where
  "subs_text subs = concat (map (\<lambda>v. CHR ''-'' # dec (unat v)) subs)"

lemma sid_text_ok:
  assumes "sid_ok auth subs"
  shows "sid_text (sid_bytes auth subs @ q) = Some (''S-1-'' @ auth_text auth @ subs_text subs)"
proof -
  have "print_subs (sid_bytes auth subs @ q) 0 (length subs) = Some (subs_text subs)"
    using print_subs_text[of "[SID_REVISION, of_nat (length subs)] @ auth" 0 subs q] assms
    by (simp add: sid_bytes_def sid_ok_def subs_text_def)
  then show ?thesis using assms
    by (simp add: sid_text_def sid_fields[unfolded One_nat_def] auth_text_def sid_ok_def unat_count)
qed

section \<open>Its length\<close>

lemma length_dec: "n < 10 ^ Suc k \<Longrightarrow> length (dec n) \<le> Suc k"
proof (induction k arbitrary: n)
  case 0
  then show ?case by (simp add: dec.simps)
next
  case (Suc k)
  show ?case
  proof (cases "n < 10")
    case False
    have "n div 10 < 10 ^ Suc k" using Suc.prems by (simp add: less_mult_imp_div_less mult.commute)
    then show ?thesis using Suc.IH[of "n div 10"] False by (simp add: dec.simps[of n])
  qed (simp add: dec.simps[of n])
qed

lemma length_dec32: "length (dec (unat (v :: 32 word))) \<le> 10"
proof -
  have "unat v < 10 ^ Suc 9" using unat_lt32[of v] by simp
  then show ?thesis using length_dec[of "unat v" 9] by simp
qed

lemma length_auth_text: "length (auth_text a) \<le> 14"
proof -
  have "length (dec (unat (v :: 32 word))) \<le> 14" for v using length_dec32[of v] by linarith
  then show ?thesis by (simp add: auth_text_def hex2_def)
qed

lemma length_subs_text: "length (subs_text subs) \<le> 11 * length subs"
proof (induction subs)
  case (Cons v subs)
  then show ?case using length_dec32[of v] by (simp add: subs_text_def)
qed (simp add: subs_text_def)

section \<open>It identifies the SID\<close>

lemma of_char_digit: "d < 16 \<Longrightarrow> of_char (digit d) = (if d < 10 then 48 + d else 87 + d :: nat)"
  by (simp add: digit_def)

lemma digit_inj:
  assumes "d < 16" "e < 16" "digit d = digit e"
  shows "d = e"
proof -
  have "(if d < 10 then 48 + d else 87 + d) = (if e < 10 then 48 + e else 87 + e)"
    using of_char_digit[OF assms(1)] of_char_digit[OF assms(2)] assms(3) by metis
  then show ?thesis using assms(1,2) by (simp split: if_splits)
qed

lemma dec_digits: "c \<in> set (dec n) \<Longrightarrow> 48 \<le> (of_char c :: nat) \<and> (of_char c :: nat) \<le> 57"
proof (induction n rule: dec.induct)
  case (1 n)
  then show ?case by (cases "n < 10") (auto simp: dec.simps[of n] of_char_digit)
qed

lemma dash_code: "(of_char (CHR ''-'') :: nat) = 45"
  by (simp add: of_char_def)

lemma dec_no_dash: "c \<in> set (dec n) \<Longrightarrow> c \<noteq> CHR ''-''"
  using dec_digits[of c n] dash_code by auto

definition undec :: "string \<Rightarrow> nat" where
  "undec = foldl (\<lambda>a c. 10 * a + (of_char c - 48)) 0"

lemma undec_dec: "undec (dec n) = n"
proof (induction n rule: dec.induct)
  case (1 n)
  then show ?case by (cases "n < 10") (simp_all add: dec.simps[of n] undec_def of_char_digit)
qed

lemma dec_inj: "dec m = dec n \<Longrightarrow> m = n"
  using undec_dec by metis

lemma hex2_inj: "hex2 v = hex2 w \<Longrightarrow> v = w"
proof -
  assume h: "hex2 v = hex2 w"
  have s: "unat x div 16 < 16" "unat x mod 16 < 16" for x :: "8 word"
    using unsigned_less[of x, where 'a = nat] by auto
  have "unat v div 16 = unat w div 16" "unat v mod 16 = unat w mod 16"
    using h digit_inj[OF s(1) s(1)] digit_inj[OF s(2) s(2)] by (auto simp: hex2_def)
  then show "v = w" by (metis div_mult_mod_eq word_unat_eq_iff)
qed

lemma split_dash:
  assumes "\<forall>c \<in> set x. c \<noteq> CHR ''-''" "\<forall>c \<in> set y. c \<noteq> CHR ''-''"
    and "u = [] \<or> hd u = CHR ''-''" "v = [] \<or> hd v = CHR ''-''" "x @ u = y @ v"
  shows "x = y \<and> u = v"
proof -
  have "takeWhile (\<lambda>c. c \<noteq> CHR ''-'') (x @ u) = x" if "\<forall>c \<in> set x. c \<noteq> CHR ''-''" "u = [] \<or> hd u = CHR ''-''" for x u :: string
    using that by (cases u) auto
  then have "x = y" using assms by metis
  then show ?thesis using assms(5) by simp
qed

lemma subs_text_start: "subs_text subs = [] \<or> hd (subs_text subs) = CHR ''-''"
  by (cases subs) (simp_all add: subs_text_def)

lemma subs_text_inj: "subs_text s = subs_text t \<Longrightarrow> s = t"
proof (induction s arbitrary: t)
  case Nil
  then show ?case by (cases t) (simp_all add: subs_text_def)
next
  case (Cons v s)
  then obtain w t' where t: "t = w # t'" by (cases t) (auto simp: subs_text_def)
  have "dec (unat v) @ subs_text s = dec (unat w) @ subs_text t'" using Cons.prems t by (simp add: subs_text_def)
  then have "dec (unat v) = dec (unat w)" "subs_text s = subs_text t'"
    using split_dash[of "dec (unat v)" "dec (unat w)" "subs_text s" "subs_text t'"] dec_no_dash subs_text_start by blast+
  then show ?case using Cons.IH[of t'] dec_inj[of "unat v" "unat w"] t by (simp add: word_unat_eq_iff)
qed

lemma digit_no_dash: "d < 16 \<Longrightarrow> digit d \<noteq> CHR ''-''"
proof
  assume "d < 16" "digit d = CHR ''-''"
  then have "(if d < 10 then 48 + d else 87 + d) = 45" using of_char_digit[of d] dash_code by metis
  then show False by (simp split: if_splits)
qed

lemma hex2_no_dash: "c \<in> set (hex2 v) \<Longrightarrow> c \<noteq> CHR ''-''"
proof -
  have "unat v div 16 < 16" "unat v mod 16 < 16" using unsigned_less[of v, where 'a = nat] by auto
  then have "digit (unat v div 16) \<noteq> CHR ''-''" "digit (unat v mod 16) \<noteq> CHR ''-''" using digit_no_dash by blast+
  moreover assume "c \<in> set (hex2 v)"
  ultimately show "c \<noteq> CHR ''-''" unfolding hex2_def by auto
qed

lemma auth_text_no_dash: "c \<in> set (auth_text a) \<Longrightarrow> c \<noteq> CHR ''-''"
  unfolding auth_text_def by (auto split: if_splits dest: dec_no_dash hex2_no_dash)

lemma auth_word_bytes:
  fixes a b c d :: "8 word"
  defines "w \<equiv> (push_bit 24 (ucast a) OR push_bit 16 (ucast b) OR push_bit 8 (ucast c) OR ucast d) :: 32 word"
  shows "ucast (drop_bit 24 w) = a" "ucast (drop_bit 16 w) = b" "ucast (drop_bit 8 w) = c" "ucast w = d"
  unfolding w_def
  by (rule bit_eqI; auto simp: bit_or_iff bit_push_bit_iff bit_ucast_iff bit_drop_bit_eq dest: bit_imp_le_length)+

lemma dec_not_hex: "dec n \<noteq> ''0x'' @ r"
proof
  assume "dec n = ''0x'' @ r"
  then have "CHR ''x'' \<in> set (dec n)" by simp
  from dec_digits[OF this] show False by (simp add: of_char_def)
qed

lemma hex2_append_inj: "hex2 v @ r = hex2 w @ t \<Longrightarrow> v = w \<and> r = t"
  using hex2_inj[of v w] by (simp add: hex2_def)

lemma list6: "length a = 6 \<Longrightarrow> a = [a ! 0, a ! 1, a ! 2, a ! 3, a ! 4, a ! 5]"
  by (simp add: list_eq_iff_nth_eq nth_Cons less_Suc_eq eval_nat_numeral split: nat.splits)

lemma auth_text_inj:
  assumes "length a = 6" "length b = 6" "auth_text a = auth_text b"
  shows "a = b"
proof (cases "a ! 0 = 0 \<and> a ! 1 = 0"; cases "b ! 0 = 0 \<and> b ! 1 = 0")
  assume z: "a ! 0 = 0 \<and> a ! 1 = 0" "b ! 0 = 0 \<and> b ! 1 = 0"
  then have "push_bit 24 (ucast (a ! 2)) OR push_bit 16 (ucast (a ! 3)) OR push_bit 8 (ucast (a ! 4)) OR ucast (a ! 5) =
      (push_bit 24 (ucast (b ! 2)) OR push_bit 16 (ucast (b ! 3)) OR push_bit 8 (ucast (b ! 4)) OR ucast (b ! 5) :: 32 word)"
    using dec_inj assms(3) unfolding auth_text_def word_unat_eq_iff by simp
  from this[THEN arg_cong[where f = "\<lambda>w. ucast (drop_bit 24 w) :: 8 word"]] this[THEN arg_cong[where f = "\<lambda>w. ucast (drop_bit 16 w) :: 8 word"]]
    this[THEN arg_cong[where f = "\<lambda>w. ucast (drop_bit 8 w) :: 8 word"]] this[THEN arg_cong[where f = "\<lambda>w. ucast w :: 8 word"]]
  have "a ! 2 = b ! 2" "a ! 3 = b ! 3" "a ! 4 = b ! 4" "a ! 5 = b ! 5" unfolding auth_word_bytes by blast+
  then show ?thesis using z list6[OF assms(1)] list6[OF assms(2)] by metis
next
  assume z: "\<not> (a ! 0 = 0 \<and> a ! 1 = 0)" "\<not> (b ! 0 = 0 \<and> b ! 1 = 0)"
  have "hex2 (a ! 0) @ hex2 (a ! 1) @ hex2 (a ! 2) @ hex2 (a ! 3) @ hex2 (a ! 4) @ hex2 (a ! 5) @ [] =
        hex2 (b ! 0) @ hex2 (b ! 1) @ hex2 (b ! 2) @ hex2 (b ! 3) @ hex2 (b ! 4) @ hex2 (b ! 5) @ []"
    using z assms(3) unfolding auth_text_def by (simp only: if_False append_Nil2 same_append_eq)
  then show ?thesis using list6[OF assms(1)] list6[OF assms(2)] by (metis hex2_append_inj)
next
  assume "a ! 0 = 0 \<and> a ! 1 = 0" "\<not> (b ! 0 = 0 \<and> b ! 1 = 0)"
  then show ?thesis using assms(3) dec_not_hex unfolding auth_text_def by (metis (full_types))
next
  assume "\<not> (a ! 0 = 0 \<and> a ! 1 = 0)" "b ! 0 = 0 \<and> b ! 1 = 0"
  then show ?thesis using assms(3) dec_not_hex[symmetric] unfolding auth_text_def by (metis (full_types))
qed

lemma sid_text_inj:
  assumes "sid_ok a s" "sid_ok b t" "''S-1-'' @ auth_text a @ subs_text s = ''S-1-'' @ auth_text b @ subs_text t"
  shows "a = b \<and> s = t"
proof -
  have "auth_text a = auth_text b \<and> subs_text s = subs_text t"
    using split_dash[of "auth_text a" "auth_text b" "subs_text s" "subs_text t"] auth_text_no_dash subs_text_start assms(3) by simp
  then show ?thesis using auth_text_inj[of a b] subs_text_inj[of s t] assms(1,2) by (simp add: sid_ok_def)
qed

section \<open>Comparing and making SIDs\<close>

lemma concat_le32_inj: "concat (map le32 s) = concat (map le32 t) \<Longrightarrow> s = t"
proof (induction s arbitrary: t)
  case Nil
  then show ?case by (cases t) (simp_all add: le32_def)
next
  case (Cons v s)
  then obtain w t' where t: "t = w # t'" by (cases t) (auto simp: le32_def)
  then have "le32 v = le32 w" "concat (map le32 s) = concat (map le32 t')" using Cons.prems by simp_all
  moreover have "rd32 (le32 u) 0 = Some u" for u using rd32_le32[of "[]" 0 u "[]"] by simp
  ultimately show ?case using Cons.IH[of t'] t by (metis option.inject)
qed

lemma sid_bytes_inj: "sid_ok a s \<Longrightarrow> sid_ok b t \<Longrightarrow> sid_bytes a s = sid_bytes b t \<longleftrightarrow> a = b \<and> s = t"
  using concat_le32_inj[of s t] by (auto simp: sid_bytes_def sid_ok_def)

lemma rd16_sid:
  "rd16 (sid_bytes a s @ q) 0 = Some (ucast SID_REVISION OR push_bit 8 (ucast (of_nat (length s) :: 8 word)))"
  by (simp add: rd16_def sid_bytes_def rd_def)

lemma head_word:
  assumes "sid_ok a s" "sid_ok b t"
  shows "ucast SID_REVISION OR push_bit 8 (ucast (of_nat (length s) :: 8 word)) =
     (ucast SID_REVISION OR push_bit 8 (ucast (of_nat (length t) :: 8 word)) :: 16 word) \<longleftrightarrow> length s = length t"
proof
  have d: "ucast (drop_bit 8 (ucast SID_REVISION OR push_bit 8 (ucast c) :: 16 word)) = c" for c :: "8 word"
    by (rule bit_eqI; auto simp: bit_or_iff bit_push_bit_iff bit_ucast_iff bit_drop_bit_eq bit_1_iff dest: bit_imp_le_length)
  assume "ucast SID_REVISION OR push_bit 8 (ucast (of_nat (length s) :: 8 word)) =
     (ucast SID_REVISION OR push_bit 8 (ucast (of_nat (length t) :: 8 word)) :: 16 word)"
  from this[THEN arg_cong[where f = "\<lambda>w. ucast (drop_bit 8 w) :: 8 word"]]
  have "(of_nat (length s) :: 8 word) = of_nat (length t)" unfolding d .
  then show "length s = length t" using unat_count[of s] unat_count[of t] assms unfolding sid_ok_def by metis
qed simp

lemma wr32_append:
  "length p = off \<Longrightarrow> length d = 4 \<Longrightarrow> wr32 (p @ d @ q) off v = Some (p @ le32 v @ q)"
  by (simp add: wr32_def wrn_append)

lemma fill_subs_ok:
  "length p = 8 \<Longrightarrow> length d = 4 * n \<Longrightarrow> n \<le> length subs \<Longrightarrow>
   fill_subs (p @ d @ q) subs n = Some (p @ concat (map le32 (take n subs)) @ q)"
proof (induction n arbitrary: d q)
  case (Suc n)
  have d: "d = take (4 * n) d @ drop (4 * n) d" "length (drop (4 * n) d) = 4" using Suc.prems by simp_all
  have "wr32 ((p @ take (4 * n) d) @ drop (4 * n) d @ q) (8 + 4 * n) (subs ! n) = Some ((p @ take (4 * n) d) @ le32 (subs ! n) @ q)"
    using Suc.prems d by (intro wr32_append) simp_all
  then have "wr32 (p @ d @ q) (8 + 4 * n) (subs ! n) = Some (p @ take (4 * n) d @ le32 (subs ! n) @ q)"
    by (metis append.assoc append_take_drop_id)
  moreover have "fill_subs (p @ take (4 * n) d @ le32 (subs ! n) @ q) subs n = Some (p @ concat (map le32 (take n subs)) @ le32 (subs ! n) @ q)"
    using Suc.prems by (intro Suc.IH) simp_all
  ultimately show ?case using Suc.prems by (simp add: rd_def take_Suc_conv_app_nth)
qed simp

lemma RtlInitializeSid_ok:
  "length p = 8 \<Longrightarrow> length auth = 6 \<Longrightarrow>
   RtlInitializeSid (p @ q) auth c = Some (STATUS_SUCCESS, [SID_REVISION, c] @ auth @ q)"
  by (auto simp: RtlInitializeSid_def wr_wrn wrn_def Suc_length_conv eval_nat_numeral)

lemma RtlAllocateAndInitializeSid_ok:
  assumes "length auth = 6" "unat n \<le> 8" "unat n \<le> length subs"
    and "mem (8 + 4 * unat n) = Some b" "length b = 8 + 4 * unat n"
  shows "RtlAllocateAndInitializeSid auth n subs mem = Some (STATUS_SUCCESS, Some (sid_bytes auth (take (unat n) subs)))"
proof -
  define p d where "p = take 8 b" and "d = drop 8 b"
  have b: "b = p @ d" "length p = 8" "length d = 4 * unat n" using assms(5) by (simp_all add: p_def d_def)
  have "unat n < 2 ^ 32" using assms(2) by simp
  then have "unat (ucast n :: 32 word) = unat n" unfolding unsigned_ucast_eq by (simp add: take_bit_nat_eq_self)
  then have l: "unat (RtlLengthRequiredSid (ucast n)) = 8 + 4 * unat n"
    using assms(2) by (simp add: RtlLengthRequiredSid_def unat_word_ariths)
  have "fill_subs (([SID_REVISION, n] @ auth) @ d @ []) subs (unat n) =
      Some (([SID_REVISION, n] @ auth) @ concat (map le32 (take (unat n) subs)) @ [])"
    using assms b by (intro fill_subs_ok) simp_all
  then show ?thesis using assms b l
    by (simp add: RtlAllocateAndInitializeSid_def RtlInitializeSid_ok sid_bytes_def)
qed

lemma rdn_prefix: "length p = n \<Longrightarrow> rdn (p @ q) 0 n = Some p"
  by (simp add: rdn_def)

lemma RtlEqualSid_iff:
  assumes "sid_ok a s" "sid_ok b t"
  shows "RtlEqualSid (sid_bytes a s @ q) (sid_bytes b t @ r) = Some (a = b \<and> s = t)"
proof (cases "length s = length t")
  case True
  have "length (sid_bytes a s) = 8 + 4 * length s" "length (sid_bytes b t) = 8 + 4 * length s"
    using assms True by (simp_all add: sid_ok_def length_sid_bytes)
  then show ?thesis using assms True sid_bytes_inj[OF assms]
    by (simp add: RtlEqualSid_def rd16_sid RtlLengthSid_ok rdn_prefix)
next
  case False
  then show ?thesis using head_word[OF assms] by (auto simp: RtlEqualSid_def rd16_sid)
qed

section \<open>Properties\<close>

definition sid_string :: "bytes \<Rightarrow> 32 word list \<Rightarrow> string" where
  "sid_string auth subs = ''S-1-'' @ auth_text auth @ subs_text subs"

lemma length_sid_string: "sid_ok auth subs \<Longrightarrow> length (sid_string auth subs) \<le> 183"
  using length_auth_text[of auth] length_subs_text[of subs] by (simp add: sid_string_def sid_ok_def)

text \<open>C32: On a well-formed SID the conversion never overruns its 256-character buffer: the text is \<open>S-1-\<close>,
  the authority (decimal, or \<open>0x\<close> and twelve hexadecimal digits when it needs more than 32 bits) and the
  subauthorities, at most 183 characters. The statuses are those of the caller's buffer: too small
  exactly when the text does not fit \<open>MaximumLength\<close> bytes. The final zero is written outside the caller's
  buffer exactly when \<open>MaximumLength\<close> is odd and leaves one byte behind the text.\<close>

theorem RtlConvertSidToUnicodeString_ok:
  assumes "sid_ok auth subs"
  shows "RtlConvertSidToUnicodeString ml (Some (sid_bytes auth subs @ q)) ab alloc =
      (if ab then Some (if alloc then (STATUS_SUCCESS, Some (sid_string auth subs, True)) else (STATUS_NO_MEMORY, None))
       else if unat ml < 2 * length (sid_string auth subs) then Some (STATUS_BUFFER_TOO_SMALL, None)
       else if unat ml = 2 * length (sid_string auth subs) + 1 then None
       else Some (STATUS_SUCCESS, Some (sid_string auth subs, 2 * length (sid_string auth subs) < unat ml)))
    \<and> length (sid_string auth subs) \<le> 183"
  using length_sid_string[OF assms] sid_text_ok[OF assms] RtlValidSid_ok[OF assms, of q]
  by (simp add: RtlConvertSidToUnicodeString_def Let_def mult.commute sid_string_def)

lemma sid_string_admins: "sid_string [0, 0, 0, 0, 0, 5] [32, 544] = ''S-1-5-32-544''"
  by (simp add: sid_string_def auth_text_def subs_text_def dec.simps digit_def char_of_def bit_iff_odd)

lemma sid_admins: "sid_ok [0, 0, 0, 0, 0, 5] [32, 544]"
  by (simp add: sid_ok_def)

theorem RtlConvertSidToUnicodeString_ok_witness:
  "sid_ok [0, 0, 0, 0, 0, 5] [32, 544] \<and>
   RtlConvertSidToUnicodeString 26 (Some (sid_bytes [0, 0, 0, 0, 0, 5] [32, 544])) False True =
     Some (STATUS_SUCCESS, Some (''S-1-5-32-544'', True)) \<and>
   RtlConvertSidToUnicodeString 20 (Some (sid_bytes [0, 0, 0, 0, 0, 5] [32, 544])) False True =
     Some (STATUS_BUFFER_TOO_SMALL, None)"
  using RtlConvertSidToUnicodeString_ok[OF sid_admins, of 26 "[]" False True]
    RtlConvertSidToUnicodeString_ok[OF sid_admins, of 20 "[]" False True] sid_admins
  by (simp add: sid_string_admins)

text \<open>C33: The text identifies the SID: for well-formed SIDs \<open>RtlEqualSid\<close> answers yes exactly when they have the
  same authority and subauthorities, which is exactly when \<open>RtlConvertSidToUnicodeString\<close> prints the same
  text for both; what lies behind them in memory plays no role.\<close>

theorem RtlEqualSid_iff_text:
  assumes "sid_ok a s" "sid_ok b t"
  shows "RtlEqualSid (sid_bytes a s @ q) (sid_bytes b t @ r) = Some (a = b \<and> s = t) \<and>
    RtlEqualSid (sid_bytes a s @ q) (sid_bytes b t @ r) = Some (sid_text (sid_bytes a s @ q) = sid_text (sid_bytes b t @ r))"
  using RtlEqualSid_iff[OF assms] sid_text_ok[OF assms(1)] sid_text_ok[OF assms(2)] sid_text_inj[OF assms] by auto

lemma sid_users: "sid_ok [0, 0, 0, 0, 0, 5] [32, 545]"
  by (simp add: sid_ok_def)

theorem RtlEqualSid_iff_text_witness:
  "RtlEqualSid (sid_bytes [0, 0, 0, 0, 0, 5] [32, 544] @ [7]) (sid_bytes [0, 0, 0, 0, 0, 5] [32, 545] @ []) = Some False \<and>
   RtlEqualSid (sid_bytes [0, 0, 0, 0, 0, 5] [32, 544] @ [7]) (sid_bytes [0, 0, 0, 0, 0, 5] [32, 544] @ [8, 9]) = Some True"
  using RtlEqualSid_iff_text[OF sid_admins sid_users, of "[7]" "[]"] RtlEqualSid_iff_text[OF sid_admins sid_admins, of "[7]" "[8, 9]"]
  by simp

text \<open>\<open>RtlAllocateAndInitializeSid\<close> makes the SID asked for, whatever the memory held: the bytes of the
  authority and the first \<open>SubAuthorityCount\<close> subauthorities, valid and equal to no other SID.\<close>

lemma RtlAllocateAndInitializeSid_makes:
  assumes "length auth = 6" "unat n \<le> 8" "unat n \<le> length subs"
    and "mem (8 + 4 * unat n) = Some b" "length b = 8 + 4 * unat n"
  shows "RtlAllocateAndInitializeSid auth n subs mem = Some (STATUS_SUCCESS, Some (sid_bytes auth (take (unat n) subs))) \<and>
    RtlValidSid (Some (sid_bytes auth (take (unat n) subs)))"
  using RtlAllocateAndInitializeSid_ok[where mem = mem, OF assms] RtlValidSid_ok[of auth "take (unat n) subs" "[]"] assms(1-3)
  by (simp add: sid_ok_def)

lemma RtlAllocateAndInitializeSid_makes_example:
  "RtlAllocateAndInitializeSid [0, 0, 0, 0, 0, 5] 2 [32, 544, 9] (\<lambda>n. Some (replicate n 255)) =
     Some (STATUS_SUCCESS, Some (sid_bytes [0, 0, 0, 0, 0, 5] [32, 544]))"
  using RtlAllocateAndInitializeSid_makes[of "[0, 0, 0, 0, 0, 5]" 2 "[32, 544, 9]" "\<lambda>n. Some (replicate n 255)" "replicate 16 255"]
  by simp

end
