(* ===== verification/Refinement.thy ===== *)
theory Refinement
  imports Prelude
begin

text \<open>Refinement of a component that works on memory by a specification on abstract values: a relation between
  the two that every operation keeps, with the same outputs. The client's fact is about sequences of
  operations.\<close>

fun run_impl :: "('c \<Rightarrow> 'op \<Rightarrow> ('o \<times> 'c) option) \<Rightarrow> 'c \<Rightarrow> 'op list \<Rightarrow> ('o list \<times> 'c) option" where
  "run_impl f c [] = Some ([], c)"
| "run_impl f c (op # ops) = do { (o', c) \<leftarrow> f c op; (os, c) \<leftarrow> run_impl f c ops; Some (o' # os, c) }"

fun run_spec :: "('a \<Rightarrow> 'op \<Rightarrow> 'o \<times> 'a) \<Rightarrow> 'a \<Rightarrow> 'op list \<Rightarrow> 'o list \<times> 'a" where
  "run_spec g a [] = ([], a)"
| "run_spec g a (op # ops) = (let (o', a) = g a op; (os, a) = run_spec g a ops in (o' # os, a))"

text \<open>Every operation of a sequence is allowed where the specification runs it.\<close>

fun allowed_run :: "('a \<Rightarrow> 'op \<Rightarrow> 'o \<times> 'a) \<Rightarrow> ('a \<Rightarrow> 'op \<Rightarrow> bool) \<Rightarrow> 'a \<Rightarrow> 'op list \<Rightarrow> bool" where
  "allowed_run g ok a [] = True"
| "allowed_run g ok a (op # ops) \<longleftrightarrow> ok a op \<and> allowed_run g ok (snd (g a op)) ops"

lemma allowed_run_const: "allowed_run g (\<lambda>_. ok) a ops \<longleftrightarrow> list_all ok ops"
  by (induction ops arbitrary: a) auto

lemma run_spec_append: "run_spec g a (xs @ ys) = (let (os, a) = run_spec g a xs; (os', a) = run_spec g a ys in (os @ os', a))"
  by (induction xs arbitrary: a) (auto simp: case_prod_beta Let_def)

lemma allowed_run_append: "allowed_run g ok a (xs @ ys) \<longleftrightarrow> allowed_run g ok a xs \<and> allowed_run g ok (snd (run_spec g a xs)) ys"
  by (induction xs arbitrary: a) (auto simp: case_prod_beta Let_def)

locale guarded_refinement =
  fixes rel :: "'c \<Rightarrow> 'a \<Rightarrow> bool"
    and impl :: "'c \<Rightarrow> 'op \<Rightarrow> ('o \<times> 'c) option"
    and spec :: "'a \<Rightarrow> 'op \<Rightarrow> 'o \<times> 'a"
    and guard :: "'a \<Rightarrow> 'op \<Rightarrow> bool"
  assumes guarded: "rel c a \<Longrightarrow> guard a op \<Longrightarrow> \<exists>c'. impl c op = Some (fst (spec a op), c') \<and> rel c' (snd (spec a op))"
begin

lemma run_guarded:
  "rel c a \<Longrightarrow> allowed_run spec guard a ops \<Longrightarrow>
   \<exists>c'. run_impl impl c ops = Some (fst (run_spec spec a ops), c') \<and> rel c' (snd (run_spec spec a ops))"
proof (induction ops arbitrary: c a)
  case (Cons op ops)
  from guarded[of c a op] Cons.prems obtain c1 where 1: "impl c op = Some (fst (spec a op), c1)" "rel c1 (snd (spec a op))" by auto
  with Cons.IH[of c1 "snd (spec a op)"] Cons.prems obtain c2
    where "run_impl impl c1 ops = Some (fst (run_spec spec (snd (spec a op)) ops), c2)" "rel c2 (snd (run_spec spec (snd (spec a op)) ops))" by auto
  with 1 show ?case by (auto simp: case_prod_beta Let_def)
qed simp

end

text \<open>The operations are allowed whatever the state.\<close>

locale refinement =
  fixes rel :: "'c \<Rightarrow> 'a \<Rightarrow> bool"
    and impl :: "'c \<Rightarrow> 'op \<Rightarrow> ('o \<times> 'c) option"
    and spec :: "'a \<Rightarrow> 'op \<Rightarrow> 'o \<times> 'a"
    and allowed :: "'op \<Rightarrow> bool"
  assumes simulates: "rel c a \<Longrightarrow> allowed op \<Longrightarrow> \<exists>c'. impl c op = Some (fst (spec a op), c') \<and> rel c' (snd (spec a op))"

sublocale refinement \<subseteq> always: guarded_refinement rel impl spec "\<lambda>_. allowed"
  by unfold_locales (rule simulates)

context refinement begin

lemma run_simulates:
  "rel c a \<Longrightarrow> list_all allowed ops \<Longrightarrow>
   \<exists>c'. run_impl impl c ops = Some (fst (run_spec spec a ops), c') \<and> rel c' (snd (run_spec spec a ops))"
  using always.run_guarded[of c a ops] by (simp add: allowed_run_const)

end

end
