(* ===== verification/Acl_Correct.thy ===== *)
theory Acl_Correct
  imports Acl Sid_Correct Refinement
begin

text \<open>ACLs refine lists of ACEs: the bytes of a well-formed ACL represent its revision, its size and the list of its
  ACEs, and every routine acts on the list.\<close>

section \<open>Well-formed ACLs\<close>

text \<open>An ACE has its length in its size field; one of the old types has a SID at offset 8.\<close>

definition ace_wf :: "bytes \<Rightarrow> bool" where
  "ace_wf a \<longleftrightarrow> 4 < length a \<and> length a < 65536 \<and> even (length a) \<and> rd16 a 2 = Some (of_nat (length a)) \<and>
     (a ! 0 \<le> ACCESS_MAX_MS_V2_ACE_TYPE \<longrightarrow>
        4 dvd length a \<and> 12 + 4 * unat (a ! 9) \<le> length a \<and> a ! 8 = SID_REVISION \<and> unat (a ! 9) \<le> SID_MAX_SUB_AUTHORITIES)"

definition acl_rep :: "bytes \<Rightarrow> UCHAR \<Rightarrow> nat \<Rightarrow> bytes list \<Rightarrow> bool" where
  "acl_rep b rv sz as \<longleftrightarrow>
     2 \<le> rv \<and> rv \<le> 4 \<and> even sz \<and> sz < 65536 \<and> sz \<le> length b \<and> 8 + length (concat as) \<le> sz \<and> list_all ace_wf as \<and>
     (\<exists>s z. length z = 2 \<and>
        take (8 + length (concat as)) b = [rv, s] @ le16 (of_nat sz) @ le16 (of_nat (length as)) @ z @ concat as)"

lemma acl_repE:
  assumes "acl_rep b rv sz as"
  obtains s z rest where "length z = 2"
    and "b = ([rv, s] @ le16 (of_nat sz) @ le16 (of_nat (length as)) @ z) @ concat as @ rest"
    and "sz \<le> 8 + length (concat as) + length rest"
proof -
  from assms obtain s z where h: "length z = 2" "sz \<le> length b"
      "take (8 + length (concat as)) b = [rv, s] @ le16 (of_nat sz) @ le16 (of_nat (length as)) @ z @ concat as"
      "8 + length (concat as) \<le> sz"
    unfolding acl_rep_def by blast
  have "b = ([rv, s] @ le16 (of_nat sz) @ le16 (of_nat (length as)) @ z) @ concat as @ drop (8 + length (concat as)) b"
    using append_take_drop_id[of "8 + length (concat as)" b] h(3) by simp
  moreover have "sz \<le> 8 + length (concat as) + length (drop (8 + length (concat as)) b)" using h by simp
  ultimately show ?thesis using that h(1) by blast
qed

lemma acl_repI:
  assumes "2 \<le> rv" "rv \<le> 4" "even sz" "sz < 65536" "8 + length (concat as) \<le> sz" "list_all ace_wf as" "length z = 2"
    and "sz \<le> 8 + length (concat as) + length rest"
  shows "acl_rep (([rv, s] @ le16 (of_nat sz) @ le16 (of_nat (length as)) @ z) @ concat as @ rest) rv sz as"
proof -
  let ?h = "[rv, s] @ le16 (of_nat sz) @ le16 (of_nat (length as)) @ z"
  have "take (8 + length (concat as)) ((?h @ concat as) @ rest) = ?h @ concat as"
    using assms(7) by (subst take_append) simp
  then show ?thesis using assms unfolding acl_rep_def by (auto intro!: exI[of _ s] exI[of _ z])
qed

lemma acl_repD:
  assumes "acl_rep b rv sz as"
  shows "2 \<le> rv" "rv \<le> 4" "even sz" "sz < 65536" "sz \<le> length b" "8 + length (concat as) \<le> sz" "list_all ace_wf as"
  using assms unfolding acl_rep_def by blast+

lemma length_aces: "list_all ace_wf as \<Longrightarrow> 4 * length as \<le> length (concat as)"
  by (induction as) (auto simp: ace_wf_def)

lemma acl_rep_count: "acl_rep b rv sz as \<Longrightarrow> length as < 16384"
  using acl_repD(4,6,7)[of b rv sz as] length_aces[of as] by linarith

lemma unat_of_nat16: "n < 65536 \<Longrightarrow> unat (of_nat n :: 16 word) = n"
  by (simp add: unat_of_nat take_bit_nat_eq_self)

lemma acl_header:
  assumes "acl_rep b rv sz as"
  shows "rd b 0 = Some rv" "rd16 b 2 = Some (of_nat sz)" "rd16 b 4 = Some (of_nat (length as))"
proof -
  from assms obtain s z rest where b: "length z = 2" "b = ([rv, s] @ le16 (of_nat sz) @ le16 (of_nat (length as)) @ z) @ concat as @ rest"
    by (rule acl_repE)
  show "rd b 0 = Some rv" using b by (simp add: rd_def)
  show "rd16 b 2 = Some (of_nat sz)"
    using rd16_le16[of "[rv, s]" 2 "of_nat sz" "le16 (of_nat (length as)) @ z @ concat as @ rest"] b by simp
  show "rd16 b 4 = Some (of_nat (length as))"
    using rd16_le16[of "[rv, s] @ le16 (of_nat sz)" 4 "of_nat (length as)" "z @ concat as @ rest"] b by simp
qed

text \<open>The ACE that starts behind \<open>p\<close>.\<close>

lemma ace_size_at: "ace_wf a \<Longrightarrow> length p = off \<Longrightarrow> rd16 (p @ a @ q) (off + 2) = Some (of_nat (length a))"
  by (simp add: rd16_append rd16_prefix ace_wf_def)

lemma unat_ace_size: "ace_wf a \<Longrightarrow> unat (of_nat (length a) :: 16 word) = length a"
  by (simp add: unat_of_nat16 ace_wf_def)

section \<open>The loops over the ACEs\<close>

lemma first_free_loop_ok:
  "list_all ace_wf as \<Longrightarrow> length p = off \<Longrightarrow> off + length (concat as) \<le> AclEnd \<Longrightarrow>
   first_free_loop (p @ concat as @ q) AclEnd off (length as) = Some (Some (off + length (concat as)))"
proof (induction as arbitrary: p off)
  case (Cons a as)
  have "first_free_loop ((p @ a) @ concat as @ q) AclEnd (off + length a) (length as) = Some (Some (off + length a + length (concat as)))"
    using Cons.prems by (intro Cons.IH) simp_all
  moreover have "\<not> AclEnd \<le> off" using Cons.prems by (auto simp: ace_wf_def)
  ultimately show ?case using Cons.prems ace_size_at[of a p off "concat as @ q"] by (simp add: unat_ace_size add.assoc)
qed simp

lemma skip_aces_ok:
  "list_all ace_wf as \<Longrightarrow> length p = off \<Longrightarrow> i \<le> length as \<Longrightarrow>
   skip_aces (p @ concat as @ q) off i = Some (off + length (concat (take i as)))"
proof (induction as arbitrary: p off i)
  case (Cons a as)
  show ?case
  proof (cases i)
    case (Suc j)
    have "skip_aces ((p @ a) @ concat as @ q) (off + length a) j = Some (off + length a + length (concat (take j as)))"
      using Cons.prems Suc by (intro Cons.IH) simp_all
    then show ?thesis using Cons.prems Suc ace_size_at[of a p off "concat as @ q"] by (simp add: unat_ace_size add.assoc)
  qed simp
qed simp

lemma get_ace_loop_ok:
  "list_all ace_wf as \<Longrightarrow> length p = off \<Longrightarrow> i < length as \<Longrightarrow> off + length (concat as) \<le> AclSize \<Longrightarrow>
   get_ace_loop (p @ concat as @ q) AclSize off i = Some (STATUS_SUCCESS, off + length (concat (take i as)))"
proof (induction as arbitrary: p off i)
  case (Cons a as)
  have a: "4 < length a" using Cons.prems by (simp add: ace_wf_def)
  show ?case
  proof (cases i)
    case 0
    then show ?thesis using Cons.prems a by simp
  next
    case (Suc j)
    have "get_ace_loop ((p @ a) @ concat as @ q) AclSize (off + length a) j = Some (STATUS_SUCCESS, off + length a + length (concat (take j as)))"
      using Cons.prems Suc by (intro Cons.IH) simp_all
    then show ?thesis using Cons.prems Suc a ace_size_at[of a p off "concat as @ q"] by (simp add: unat_ace_size add.assoc)
  qed
qed simp

lemma and_not_mask_dvd:
  assumes "2 ^ k dvd n"
  shows "(of_nat n :: 'a :: len word) AND NOT (mask k) = of_nat n"
proof -
  from assms obtain m where "n = 2 ^ k * m" by (elim dvdE)
  then have "(of_nat n :: 'a word) = push_bit k (of_nat m)" by (simp add: push_bit_eq_mult mult.commute)
  then show ?thesis by (auto intro!: bit_eqI simp: bit_and_iff bit_not_iff bit_mask_iff bit_push_bit_iff)
qed

lemma even_mask: "even n \<Longrightarrow> (of_nat n :: 'a :: len word) AND - 2 = of_nat n"
  using and_not_mask_dvd[of 1 n] by (simp add: mask_eq_exp_minus_1)

lemma four_mask: "4 dvd n \<Longrightarrow> (of_nat n :: 'a :: len word) AND - 4 = of_nat n"
  using and_not_mask_dvd[of 2 n] by (simp add: mask_eq_exp_minus_1)

lemma valid_ace_ok:
  assumes "ace_wf a" "length p = off" "off + length a \<le> AclSize"
  shows "valid_ace (p @ a @ q) AclSize off = Some True"
proof -
  have n: "rd (p @ a @ q) (off + i) = Some (a ! i)" if "i < length a" for i
    using that assms(2) by (simp add: rd_def nth_append)
  have "4 < length a" using assms(1) by (simp add: ace_wf_def)
  then have "rd (p @ a @ q) off = Some (a ! 0)" using n[of 0] by (cases a) simp_all
  moreover have "unat (of_nat (length a) :: 16 word) = length a" using assms(1) by (rule unat_ace_size)
  moreover have "rd (p @ a @ q) (off + 8) = Some (a ! 8)" "rd (p @ a @ q) (off + 9) = Some (a ! 9)" if "a ! 0 \<le> 3"
    using n[of 8] n[of 9] that assms(1) by (simp_all add: ace_wf_def)
  ultimately show ?thesis
    using assms ace_size_at[OF assms(1,2), of q] \<open>4 < length a\<close>
    by (cases "a ! 0 \<le> 3") (simp_all add: valid_ace_def even_mask four_mask ace_wf_def)
qed

lemma valid_loop_ok:
  "list_all ace_wf as \<Longrightarrow> length p = off \<Longrightarrow> off + length (concat as) \<le> AclSize \<Longrightarrow>
   valid_loop (p @ concat as @ q) AclSize off (length as) = Some True"
proof (induction as arbitrary: p off)
  case (Cons a as)
  have "valid_loop ((p @ a) @ concat as @ q) AclSize (off + length a) (length as) = Some True"
    using Cons.prems by (intro Cons.IH) simp_all
  moreover have "valid_ace (p @ a @ concat as @ q) AclSize off = Some True" using Cons.prems by (intro valid_ace_ok) simp_all
  ultimately show ?case using Cons.prems ace_size_at[of a p off "concat as @ q"] by (simp add: unat_ace_size)
qed simp

section \<open>Reading\<close>

lemma RtlFirstFreeAce_ok:
  assumes "acl_rep b rv sz as"
  shows "RtlFirstFreeAce b = Some (True, Some (8 + length (concat as)))"
proof -
  from assms obtain s z rest where b: "length z = 2" "b = ([rv, s] @ le16 (of_nat sz) @ le16 (of_nat (length as)) @ z) @ concat as @ rest"
    by (rule acl_repE)
  have "first_free_loop b sz 8 (length as) = Some (Some (8 + length (concat as)))"
    unfolding b(2) using acl_repD[OF assms] b(1) by (intro first_free_loop_ok) simp_all
  then show ?thesis using acl_header[OF assms] acl_repD[OF assms] acl_rep_count[OF assms]
    by (simp add: RtlFirstFreeAce_def unat_of_nat16)
qed

lemma RtlValidAcl_ok:
  assumes "acl_rep b rv sz as"
  shows "RtlValidAcl b"
proof -
  from assms obtain s z rest where b: "length z = 2" "b = ([rv, s] @ le16 (of_nat sz) @ le16 (of_nat (length as)) @ z) @ concat as @ rest"
    by (rule acl_repE)
  have "valid_loop b sz 8 (length as) = Some True"
    unfolding b(2) using acl_repD[OF assms] b(1) by (intro valid_loop_ok) simp_all
  moreover have "\<not> rv < 2" "\<not> 4 < rv" using acl_repD(1,2)[OF assms] by auto
  ultimately show ?thesis using acl_header[OF assms] acl_repD[OF assms] acl_rep_count[OF assms]
    by (simp add: RtlValidAcl_def unat_of_nat16 even_mask)
qed

lemma ucast16_32: "unat (ucast (w :: 16 word) :: 32 word) = unat w"
proof -
  have "unat w < 2 ^ 32" using unsigned_less[of w, where 'a = nat] by simp
  then show ?thesis unfolding unsigned_ucast_eq by (simp add: take_bit_nat_eq_self)
qed

lemma concat_nth_at:
  "i < length as \<Longrightarrow> length p = off \<Longrightarrow> rdn (p @ concat as @ q) (off + length (concat (take i as))) (length (as ! i)) = Some (as ! i)"
proof -
  assume i: "i < length as" "length p = off"
  have "concat as = concat (take i as) @ as ! i @ concat (drop (Suc i) as)"
    using i(1) by (metis concat.simps(2) concat_append id_take_nth_drop)
  then show ?thesis using rdn_append[of "p @ concat (take i as)" "off + length (concat (take i as))" "as ! i" "length (as ! i)" "concat (drop (Suc i) as) @ q"] i(2)
    by simp
qed

lemma RtlGetAce_ok:
  assumes "acl_rep b rv sz as"
  shows "RtlGetAce b i = Some (if unat i < length as then (STATUS_SUCCESS, Some (8 + length (concat (take (unat i) as))))
      else (STATUS_INVALID_PARAMETER, None))"
    and "unat i < length as \<Longrightarrow> rdn b (8 + length (concat (take (unat i) as))) (length (as ! unat i)) = Some (as ! unat i)"
proof -
  from assms obtain s z rest where b: "length z = 2" "b = ([rv, s] @ le16 (of_nat sz) @ le16 (of_nat (length as)) @ z) @ concat as @ rest"
    by (rule acl_repE)
  have "get_ace_loop b sz 8 (unat i) = Some (STATUS_SUCCESS, 8 + length (concat (take (unat i) as)))" if "unat i < length as"
    unfolding b(2) using acl_repD[OF assms] b(1) that by (intro get_ace_loop_ok) simp_all
  moreover have "ucast (of_nat (length as) :: 16 word) \<le> i \<longleftrightarrow> length as \<le> unat i"
    using acl_rep_count[OF assms] unfolding word_le_nat_alt ucast16_32 by (simp add: unat_of_nat16)
  moreover have "\<not> rv < 2" "\<not> 4 < rv" using acl_repD(1,2)[OF assms] by auto
  ultimately show "RtlGetAce b i = Some (if unat i < length as then (STATUS_SUCCESS, Some (8 + length (concat (take (unat i) as))))
      else (STATUS_INVALID_PARAMETER, None))"
    using acl_header[OF assms] acl_repD[OF assms] by (auto simp: RtlGetAce_def unat_of_nat16)
  show "rdn b (8 + length (concat (take (unat i) as))) (length (as ! unat i)) = Some (as ! unat i)" if "unat i < length as"
    unfolding b(2) using that b(1) by (intro concat_nth_at) simp_all
qed

section \<open>Writing\<close>

lemma wr_append: "length p = off \<Longrightarrow> wr (p @ x # q) off v = Some (p @ v # q)"
  by (auto simp: wr_def list_update_append)

lemma wr16_append: "length p = off \<Longrightarrow> length d = 2 \<Longrightarrow> wr16 (p @ d @ q) off v = Some (p @ le16 v @ q)"
  by (simp add: wr16_def wrn_append)

text \<open>The count and the revision in the header of an ACL.\<close>

lemma set_count:
  "length z = 2 \<Longrightarrow> wr16 (([rv, s] @ le16 sz @ le16 c @ z) @ q) 4 c' = Some (([rv, s] @ le16 sz @ le16 c' @ z) @ q)"
  using wr16_append[of "[rv, s] @ le16 sz" 4 "le16 c" "z @ q" c'] by simp

lemma get_count: "length z = 2 \<Longrightarrow> rd16 (([rv, s] @ le16 sz @ le16 c @ z) @ q) 4 = Some c"
  using rd16_le16[of "[rv, s] @ le16 sz" 4 c "z @ q"] by simp

lemma set_revision: "wr (([rv, s] @ h) @ q) 0 rv' = Some (([rv', s] @ h) @ q)"
  by (simp add: wr_def)

definition ace_head :: "UCHAR \<Rightarrow> ULONG \<Rightarrow> nat \<Rightarrow> ULONG \<Rightarrow> bytes" where
  "ace_head Type Flags AceSize AccessMask = [Type, ucast Flags] @ le16 (of_nat AceSize) @ le32 AccessMask"

lemma init_ace_ok:
  assumes "length p = Ace" "length d = 8"
  shows "init_ace (p @ d @ q) Ace Type Flags AceSize AccessMask = Some (p @ ace_head Type Flags AceSize AccessMask @ q)"
proof -
  obtain x y u v where d: "d = [x, y] @ u @ v" "length u = 2" "length v = 4"
  proof -
    have "d = [d ! 0, d ! 1] @ take 2 (drop 2 d) @ drop 4 d"
      using assms(2) by (simp add: list_eq_iff_nth_eq nth_append nth_Cons less_Suc_eq eval_nat_numeral split: nat.splits)
    then show ?thesis using that[of "d ! 0" "d ! 1" "take 2 (drop 2 d)" "drop 4 d"] assms(2) by simp
  qed
  let ?F = "ucast Flags :: UCHAR"
  have "wr (p @ d @ q) (Ace + 1) ?F = Some ((p @ [x, ?F]) @ u @ v @ q)"
    using wr_append[of "p @ [x]" "Ace + 1" y "u @ v @ q" ?F] assms d by simp
  moreover have "wr ((p @ [x, ?F]) @ u @ v @ q) Ace Type = Some ((p @ [Type, ?F]) @ u @ v @ q)"
    using wr_append[of p Ace x "?F # u @ v @ q" Type] assms by simp
  moreover have "wr16 ((p @ [Type, ?F]) @ u @ v @ q) (Ace + 2) (of_nat AceSize) = Some ((p @ [Type, ?F]) @ le16 (of_nat AceSize) @ v @ q)"
    using assms d by (intro wr16_append) simp_all
  moreover have "wr32 ((p @ [Type, ?F] @ le16 (of_nat AceSize)) @ v @ q) (Ace + 4) AccessMask =
      Some ((p @ [Type, ?F] @ le16 (of_nat AceSize)) @ le32 AccessMask @ q)"
    using assms d by (intro wr32_append) simp_all
  ultimately show ?thesis by (simp add: init_ace_def ace_head_def)
qed

lemma length_ace_head [simp]: "length (ace_head Type Flags AceSize AccessMask) = 8"
  by (simp add: ace_head_def)

lemma finish_ace_ok:
  assumes "length z = 2" "8 + length p = SidStart" "sid_ok a t" "length d = 8 + 4 * length t"
  shows "finish_ace (([rv, s] @ le16 sz @ le16 c @ z) @ p @ d @ q) SidStart (8 + 4 * length t) (sid_bytes a t @ r) Revision =
    Some (STATUS_SUCCESS, ([ucast Revision, s] @ le16 sz @ le16 (c + 1) @ z) @ p @ sid_bytes a t @ q)"
proof -
  let ?h = "[rv, s] @ le16 sz @ le16 c @ z" and ?sb = "sid_bytes a t"
  have l: "length ?sb = 8 + 4 * length t" using assms(3) by (simp add: length_sid_bytes sid_ok_def)
  have "RtlCopySid (8 + 4 * length t) (?h @ p @ d @ q) SidStart (?sb @ r) = Some (STATUS_SUCCESS, ?h @ p @ ?sb @ q)"
    using wrn_append[of "?h @ p" SidStart d ?sb q] assms l by (simp add: RtlCopySid_def RtlLengthSid_ok rdn_prefix)
  moreover have "rd16 (?h @ p @ ?sb @ q) 4 = Some c" using assms(1) by (rule get_count)
  moreover have "wr16 (?h @ p @ ?sb @ q) 4 (c + 1) = Some (([rv, s] @ le16 sz @ le16 (c + 1) @ z) @ p @ ?sb @ q)"
    using assms(1) by (rule set_count)
  moreover have "wr (([rv, s] @ le16 sz @ le16 (c + 1) @ z) @ p @ ?sb @ q) 0 (ucast Revision) =
      Some (([ucast Revision, s] @ le16 sz @ le16 (c + 1) @ z) @ p @ ?sb @ q)" by (rule set_revision)
  ultimately show ?thesis by (simp add: finish_ace_def del: append.simps append_assoc)
qed

section \<open>The list operations\<close>

definition known_ace :: "UCHAR \<Rightarrow> ULONG \<Rightarrow> ULONG \<Rightarrow> bytes \<Rightarrow> bytes" where
  "known_ace Type Flags AccessMask sid = ace_head Type Flags (length sid + 8) AccessMask @ sid"

definition new_revision :: "UCHAR \<Rightarrow> ULONG \<Rightarrow> UCHAR" where
  "new_revision rv Revision = (if Revision < ucast rv then rv else ucast Revision)"

lemma known_ace_wf:
  assumes "sid_ok a t"
  shows "ace_wf (known_ace Type Flags AccessMask (sid_bytes a t))"
proof -
  have l: "length (sid_bytes a t) = 8 + 4 * length t" "length t \<le> 15" using assms by (simp_all add: length_sid_bytes sid_ok_def)
  have "rd16 ([Type, ucast Flags] @ le16 (of_nat (length (sid_bytes a t) + 8)) @ le32 AccessMask @ sid_bytes a t) 2 =
      Some (of_nat (length (sid_bytes a t) + 8))" by (rule rd16_le16) simp
  moreover have "known_ace Type Flags AccessMask (sid_bytes a t) ! 8 = 1" "known_ace Type Flags AccessMask (sid_bytes a t) ! 9 = of_nat (length t)"
    by (simp_all add: known_ace_def nth_append sid_bytes_def)
  ultimately show ?thesis using l unat_count[of t] by (simp add: ace_wf_def known_ace_def ace_head_def)
qed

lemma acl_split_free:
  assumes "acl_rep b rv sz as" "8 + length (concat as) + n \<le> sz"
  obtains s z d q where "length z = 2" "length d = n" "sz \<le> 8 + length (concat as) + n + length q"
    and "b = ([rv, s] @ le16 (of_nat sz) @ le16 (of_nat (length as)) @ z) @ concat as @ d @ q"
proof -
  from assms(1) obtain s z rest where b: "length z = 2" "b = ([rv, s] @ le16 (of_nat sz) @ le16 (of_nat (length as)) @ z) @ concat as @ rest"
      "sz \<le> 8 + length (concat as) + length rest"
    by (rule acl_repE)
  show ?thesis using b assms(2) that[of z "take n rest" "drop n rest" s] by simp
qed

lemma acl_rep_snoc:
  assumes "acl_rep b rv sz as" "2 \<le> rv'" "rv' \<le> 4" "ace_wf a" "8 + length (concat as) + length a \<le> sz" "length z = 2"
    and "sz \<le> 8 + length (concat as) + length a + length q"
  shows "acl_rep (([rv', s] @ le16 (of_nat sz) @ le16 (of_nat (length as) + 1) @ z) @ concat as @ a @ q) rv' sz (as @ [a])"
  using acl_repI[of rv' sz "as @ [a]" z q s] assms acl_repD[OF assms(1)] by (simp add: add.commute)

lemma new_revision_ok:
  assumes "2 \<le> rv" "rv \<le> 4" "Revision \<le> 4"
  shows "2 \<le> new_revision rv Revision" "new_revision rv Revision \<le> 4"
    and "ucast (if Revision < ucast rv then ucast rv else Revision) = new_revision rv Revision"
proof -
  have u: "unat (ucast rv :: 32 word) = unat rv" unfolding unsigned_ucast_eq using assms(2)
    by (simp add: word_le_nat_alt take_bit_nat_eq_self)
  have v: "unat (ucast Revision :: 8 word) = unat Revision" unfolding unsigned_ucast_eq using assms(3)
    by (simp add: word_le_nat_alt take_bit_nat_eq_self)
  show "2 \<le> new_revision rv Revision" "new_revision rv Revision \<le> 4"
    using assms u v by (auto simp: new_revision_def word_le_nat_alt word_less_nat_alt)
  have "ucast (ucast rv :: 32 word) = rv" by (rule bit_eqI) (auto simp: bit_ucast_iff dest: bit_imp_le_length)
  then show "ucast (if Revision < ucast rv then ucast rv else Revision) = new_revision rv Revision"
    by (simp add: new_revision_def)
qed

text \<open>Behind the checks: the routine writes the ACE at the first free place if it fits.\<close>

lemma RtlpAddKnownAce_checked:
  assumes "acl_rep b rv sz as" "sid_ok a t" "Revision \<le> 4" "invalid_flags Flags (Type = SYSTEM_AUDIT_ACE_TYPE) = 0"
  shows "RtlpAddKnownAce b Revision Flags AccessMask (Some (sid_bytes a t @ r)) Type =
    (if 8 + length (concat as) + (8 + 4 * length t + 8) > sz then Some (STATUS_ALLOTTED_SPACE_EXCEEDED, b)
     else do {
       b \<leftarrow> init_ace b (8 + length (concat as)) Type Flags (8 + 4 * length t + 8) AccessMask;
       finish_ace b (8 + length (concat as) + 8) (8 + 4 * length t) (sid_bytes a t @ r)
         (if Revision < ucast rv then ucast rv else Revision) })"
proof -
  have "\<not> 4 < rv" "\<not> 4 < Revision" "unat (of_nat sz :: 16 word) = sz" using acl_repD[OF assms(1)] assms(3) by (auto simp: unat_of_nat16)
  then show ?thesis
    using acl_header[OF assms(1)] RtlFirstFreeAce_ok[OF assms(1)] RtlValidAcl_ok[OF assms(1)] RtlValidSid_ok[OF assms(2), of r]
      RtlLengthSid_ok[OF assms(2), of r] assms(4)
    by (simp add: RtlpAddKnownAce_def Let_def)
qed

lemma init_at_end:
  assumes "acl_rep b rv sz as" "8 + length (concat as) + (8 + n) \<le> sz"
  obtains s z d q where "length z = 2" "length d = n" "sz \<le> 8 + length (concat as) + (8 + n) + length q"
    and "init_ace b (8 + length (concat as)) Type Flags AceSize AccessMask =
      Some (([rv, s] @ le16 (of_nat sz) @ le16 (of_nat (length as)) @ z) @ (concat as @ ace_head Type Flags AceSize AccessMask) @ d @ q)"
proof -
  obtain s z d q where b: "length z = 2" "length d = 8 + n" "sz \<le> 8 + length (concat as) + (8 + n) + length q"
      "b = ([rv, s] @ le16 (of_nat sz) @ le16 (of_nat (length as)) @ z) @ concat as @ d @ q"
    by (rule acl_split_free[OF assms])
  let ?h = "[rv, s] @ le16 (of_nat sz) @ le16 (of_nat (length as)) @ z"
  have "init_ace ((?h @ concat as) @ take 8 d @ drop 8 d @ q) (8 + length (concat as)) Type Flags AceSize AccessMask =
      Some ((?h @ concat as) @ ace_head Type Flags AceSize AccessMask @ drop 8 d @ q)"
    using b(1,2) by (intro init_ace_ok) simp_all
  moreover have "take 8 d @ drop 8 d @ q = d @ q" by (simp flip: append_assoc)
  then have "(?h @ concat as) @ take 8 d @ drop 8 d @ q = b" by (simp add: b(4))
  ultimately have "init_ace b (8 + length (concat as)) Type Flags AceSize AccessMask =
      Some (?h @ (concat as @ ace_head Type Flags AceSize AccessMask) @ drop 8 d @ q)" by (simp only: append_assoc)
  then show ?thesis using b(1-3) by (intro that[of z "drop 8 d" q s]) simp_all
qed

lemma RtlpAddKnownAce_ok:
  assumes "acl_rep b rv sz as" "sid_ok a t" "Revision \<le> 4" "invalid_flags Flags (Type = SYSTEM_AUDIT_ACE_TYPE) = 0"
    and ace: "ace = known_ace Type Flags AccessMask (sid_bytes a t)"
  shows "if 8 + length (concat as) + length ace \<le> sz
    then \<exists>b'. RtlpAddKnownAce b Revision Flags AccessMask (Some (sid_bytes a t @ r)) Type = Some (STATUS_SUCCESS, b') \<and>
           acl_rep b' (new_revision rv Revision) sz (as @ [ace])
    else RtlpAddKnownAce b Revision Flags AccessMask (Some (sid_bytes a t @ r)) Type = Some (STATUS_ALLOTTED_SPACE_EXCEEDED, b)"
proof -
  have l: "length (sid_bytes a t) = 8 + 4 * length t" "length ace = 8 + (8 + 4 * length t)"
    using assms(2) by (simp_all add: ace known_ace_def length_sid_bytes sid_ok_def)
  show ?thesis
  proof (cases "8 + length (concat as) + length ace \<le> sz")
    case True
    let ?hd = "ace_head Type Flags (8 + 4 * length t + 8) AccessMask"
    obtain s z d q where i: "length z = 2" "length d = 8 + 4 * length t" "sz \<le> 8 + length (concat as) + length ace + length q"
        "init_ace b (8 + length (concat as)) Type Flags (8 + 4 * length t + 8) AccessMask =
           Some (([rv, s] @ le16 (of_nat sz) @ le16 (of_nat (length as)) @ z) @ (concat as @ ?hd) @ d @ q)"
      using init_at_end[OF assms(1) True[unfolded l(2)], of Type Flags "8 + 4 * length t + 8" AccessMask] l(2) by metis
    have f: "finish_ace (([rv, s] @ le16 (of_nat sz) @ le16 (of_nat (length as)) @ z) @ (concat as @ ?hd) @ d @ q)
        (8 + length (concat as) + 8) (8 + 4 * length t) (sid_bytes a t @ r) R =
        Some (STATUS_SUCCESS, ([ucast R, s] @ le16 (of_nat sz) @ le16 (of_nat (length as) + 1) @ z) @ (concat as @ ?hd) @ sid_bytes a t @ q)" for R
      using i(1,2) assms(2) by (intro finish_ace_ok) simp_all
    let ?b = "([new_revision rv Revision, s] @ le16 (of_nat sz) @ le16 (of_nat (length as) + 1) @ z) @ concat as @ ace @ q"
    have "(concat as @ ?hd) @ sid_bytes a t @ q = concat as @ ace @ q" by (simp add: ace known_ace_def l(1))
    then have "RtlpAddKnownAce b Revision Flags AccessMask (Some (sid_bytes a t @ r)) Type = Some (STATUS_SUCCESS, ?b)"
      unfolding RtlpAddKnownAce_checked[OF assms(1-4)] i(4) bind.simps f new_revision_ok(3)[OF acl_repD(1,2)[OF assms(1)] assms(3)]
      using True l(2) by simp
    moreover have "acl_rep ?b (new_revision rv Revision) sz (as @ [ace])"
      using True i(1,3) new_revision_ok(1,2)[OF acl_repD(1,2)[OF assms(1)] assms(3)] known_ace_wf[OF assms(2)]
      by (intro acl_rep_snoc[OF assms(1)]) (simp_all add: ace)
    ultimately show ?thesis using True by (simp only: if_True) blast
  qed (simp add: RtlpAddKnownAce_checked[OF assms(1-4)] l)
qed

section \<open>Object ACEs\<close>

definition guid :: "bytes option \<Rightarrow> bytes" where
  "guid g = (case g of None \<Rightarrow> [] | Some x \<Rightarrow> take 16 x)"

definition guid_ok :: "bytes option \<Rightarrow> bool" where
  "guid_ok g \<longleftrightarrow> (case g of None \<Rightarrow> True | Some x \<Rightarrow> 16 \<le> length x)"

definition object_flags :: "bytes option \<Rightarrow> bytes option \<Rightarrow> ULONG" where
  "object_flags g1 g2 = (if g1 \<noteq> None then ACE_OBJECT_TYPE_PRESENT else 0) OR (if g2 \<noteq> None then ACE_INHERITED_OBJECT_TYPE_PRESENT else 0)"

definition object_ace :: "UCHAR \<Rightarrow> ULONG \<Rightarrow> ULONG \<Rightarrow> bytes option \<Rightarrow> bytes option \<Rightarrow> bytes \<Rightarrow> bytes" where
  "object_ace Type Flags AccessMask g1 g2 sid =
     ace_head Type Flags (length sid + 12 + length (guid g1) + length (guid g2)) AccessMask @ le32 (object_flags g1 g2) @ guid g1 @ guid g2 @ sid"

lemma length_guid: "guid_ok g \<Longrightarrow> length (guid g) = (if g = None then 0 else 16)"
  by (auto simp: guid_def guid_ok_def split: option.splits)

lemma copy_guid_ok:
  "length p = off \<Longrightarrow> length d = length (guid g) \<Longrightarrow> guid_ok g \<Longrightarrow>
   copy_guid (p @ d @ q) off g = Some (p @ guid g @ q, off + length (guid g))"
  using wrn_append[of p off d "guid g" q]
  by (auto simp: copy_guid_def guid_def guid_ok_def rdn_def split: option.splits)

lemma RtlpAddKnownObjectAce_checked:
  assumes "acl_rep b rv sz as" "sid_ok a t" "Revision \<le> 4"
    "invalid_flags Flags (Type = SYSTEM_AUDIT_OBJECT_ACE_TYPE \<or> Type = SYSTEM_AUDIT_CALLBACK_OBJECT_ACE_TYPE) = 0"
    "guid_ok g1" "guid_ok g2"
  defines "n \<equiv> 8 + 4 * length t + 12 + length (guid g1) + length (guid g2)"
  shows "RtlpAddKnownObjectAce b Revision Flags AccessMask g1 g2 (Some (sid_bytes a t @ r)) Type =
    (if 8 + length (concat as) + n > sz then Some (STATUS_ALLOTTED_SPACE_EXCEEDED, b)
     else do {
       b \<leftarrow> init_ace b (8 + length (concat as)) Type Flags n AccessMask;
       b \<leftarrow> wr32 b (8 + length (concat as) + 8) (object_flags g1 g2);
       (b, SidStart) \<leftarrow> copy_guid b (8 + length (concat as) + 8 + 4) g1;
       (b, SidStart) \<leftarrow> copy_guid b SidStart g2;
       finish_ace b SidStart (8 + 4 * length t) (sid_bytes a t @ r) (if Revision < ucast rv then ucast rv else Revision) })"
proof -
  have "\<not> 4 < rv" "\<not> 4 < Revision" "unat (of_nat sz :: 16 word) = sz" using acl_repD[OF assms(1)] assms(3) by (auto simp: unat_of_nat16)
  then show ?thesis
    using acl_header[OF assms(1)] RtlFirstFreeAce_ok[OF assms(1)] RtlValidAcl_ok[OF assms(1)] RtlValidSid_ok[OF assms(2), of r]
      RtlLengthSid_ok[OF assms(2), of r] assms(4) length_guid[OF assms(5)] length_guid[OF assms(6)]
    by (cases g1; cases g2) (simp_all add: RtlpAddKnownObjectAce_def Let_def n_def object_flags_def)
qed

lemma object_ace_wf:
  assumes "sid_ok a t" "guid_ok g1" "guid_ok g2" "3 < Type"
  shows "ace_wf (object_ace Type Flags AccessMask g1 g2 (sid_bytes a t))"
proof -
  let ?n = "length (sid_bytes a t) + 12 + length (guid g1) + length (guid g2)"
  have l: "length (sid_bytes a t) = 8 + 4 * length t" "length t \<le> 15" using assms by (simp_all add: length_sid_bytes sid_ok_def)
  have "rd16 ([Type, ucast Flags] @ le16 (of_nat ?n) @ le32 AccessMask @ le32 (object_flags g1 g2) @ guid g1 @ guid g2 @ sid_bytes a t) 2 =
      Some (of_nat ?n)" by (rule rd16_le16) simp
  moreover have "\<not> Type \<le> 3" using assms(4) by simp
  ultimately show ?thesis using l length_guid[OF assms(2)] length_guid[OF assms(3)]
    by (simp add: ace_wf_def object_ace_def ace_head_def)
qed

lemma write_object_fields:
  assumes "length p = off" "length d = 4 + length (guid g1) + length (guid g2) + n" "guid_ok g1" "guid_ok g2"
  obtains d' b1 b2 where "length d' = n" "wr32 (p @ d @ q) off fl = Some b1"
    "copy_guid b1 (off + 4) g1 = Some (b2, off + 4 + length (guid g1))"
    "copy_guid b2 (off + 4 + length (guid g1)) g2 =
       Some (p @ (le32 fl @ guid g1 @ guid g2) @ d' @ q, off + 4 + length (guid g1) + length (guid g2))"
proof -
  define m where "m = 4 + length (guid g1)"
  define d0 d1 d2 d3 where "d0 = take 4 d" and "d1 = take (length (guid g1)) (drop 4 d)"
    and "d2 = take (length (guid g2)) (drop m d)" and "d3 = drop (m + length (guid g2)) d"
  have "d2 @ d3 = drop m d" using append_take_drop_id[of "length (guid g2)" "drop m d"] by (simp add: d2_def d3_def add.commute)
  then have "d1 @ d2 @ d3 = drop 4 d"
    using append_take_drop_id[of "length (guid g1)" "drop 4 d"] by (simp add: d1_def m_def add.commute)
  then have d: "d = d0 @ d1 @ d2 @ d3" by (simp add: d0_def)
  have l: "length d0 = 4" "length d1 = length (guid g1)" "length d2 = length (guid g2)" "length d3 = n"
    using assms(2) by (simp_all add: d0_def d1_def d2_def d3_def m_def)
  have "wr32 (p @ d0 @ d1 @ d2 @ d3 @ q) off fl = Some ((p @ le32 fl) @ d1 @ d2 @ d3 @ q)"
    using wr32_append[of p off d0 "d1 @ d2 @ d3 @ q" fl] assms(1) l by simp
  moreover have "copy_guid ((p @ le32 fl) @ d1 @ d2 @ d3 @ q) (off + 4) g1 = Some ((p @ le32 fl) @ guid g1 @ d2 @ d3 @ q, off + 4 + length (guid g1))"
    using assms l by (intro copy_guid_ok) simp_all
  moreover have "copy_guid ((p @ le32 fl @ guid g1) @ d2 @ d3 @ q) (off + 4 + length (guid g1)) g2 =
      Some ((p @ le32 fl @ guid g1) @ guid g2 @ d3 @ q, off + 4 + length (guid g1) + length (guid g2))"
    using assms l by (intro copy_guid_ok) simp_all
  ultimately show ?thesis using l(4) by (intro that[of d3 "(p @ le32 fl) @ d1 @ d2 @ d3 @ q" "(p @ le32 fl) @ guid g1 @ d2 @ d3 @ q"]) (simp_all add: d)
qed

lemma RtlpAddKnownObjectAce_ok:
  assumes "acl_rep b rv sz as" "sid_ok a t" "Revision \<le> 4"
    "invalid_flags Flags (Type = SYSTEM_AUDIT_OBJECT_ACE_TYPE \<or> Type = SYSTEM_AUDIT_CALLBACK_OBJECT_ACE_TYPE) = 0"
    "guid_ok g1" "guid_ok g2" "3 < Type"
    and ace: "ace = object_ace Type Flags AccessMask g1 g2 (sid_bytes a t)"
  shows "if 8 + length (concat as) + length ace \<le> sz
    then \<exists>b'. RtlpAddKnownObjectAce b Revision Flags AccessMask g1 g2 (Some (sid_bytes a t @ r)) Type = Some (STATUS_SUCCESS, b') \<and>
           acl_rep b' (new_revision rv Revision) sz (as @ [ace])
    else RtlpAddKnownObjectAce b Revision Flags AccessMask g1 g2 (Some (sid_bytes a t @ r)) Type = Some (STATUS_ALLOTTED_SPACE_EXCEEDED, b)"
proof -
  let ?m = "4 + length (guid g1) + length (guid g2) + (8 + 4 * length t)"
  let ?n = "8 + 4 * length t + 12 + length (guid g1) + length (guid g2)"
  let ?hd = "ace_head Type Flags ?n AccessMask" and ?fl = "le32 (object_flags g1 g2)"
  have l: "length (sid_bytes a t) = 8 + 4 * length t" "length ace = 8 + ?m"
    using assms(2) by (simp_all add: ace object_ace_def length_sid_bytes sid_ok_def)
  show ?thesis
  proof (cases "8 + length (concat as) + length ace \<le> sz")
    case True
    obtain s z d q where i: "length z = 2" "length d = ?m" "sz \<le> 8 + length (concat as) + (8 + ?m) + length q"
        "init_ace b (8 + length (concat as)) Type Flags ?n AccessMask =
           Some (([rv, s] @ le16 (of_nat sz) @ le16 (of_nat (length as)) @ z) @ (concat as @ ?hd) @ d @ q)"
      by (rule init_at_end[OF assms(1) True[unfolded l(2)], of Type Flags ?n AccessMask])
    let ?h = "[rv, s] @ le16 (of_nat sz) @ le16 (of_nat (length as)) @ z" and ?c = "concat as @ ?hd"
    have pr: "length (?h @ ?c) = 8 + length (concat as) + 8" using i(1) by simp
    obtain d' b1 b2 where d': "length d' = 8 + 4 * length t"
        "wr32 ((?h @ ?c) @ d @ q) (8 + length (concat as) + 8) (object_flags g1 g2) = Some b1"
        "copy_guid b1 (8 + length (concat as) + 8 + 4) g1 = Some (b2, 8 + length (concat as) + 8 + 4 + length (guid g1))"
        "copy_guid b2 (8 + length (concat as) + 8 + 4 + length (guid g1)) g2 =
           Some ((?h @ ?c) @ (?fl @ guid g1 @ guid g2) @ d' @ q, 8 + length (concat as) + 8 + 4 + length (guid g1) + length (guid g2))"
      by (rule write_object_fields[OF pr i(2) assms(5,6), where q = q and fl = "object_flags g1 g2"])
    let ?p = "?c @ ?fl @ guid g1 @ guid g2"
    have f: "finish_ace (?h @ ?p @ d' @ q) (8 + length (concat as) + 8 + 4 + length (guid g1) + length (guid g2)) (8 + 4 * length t) (sid_bytes a t @ r) R =
        Some (STATUS_SUCCESS, ([ucast R, s] @ le16 (of_nat sz) @ le16 (of_nat (length as) + 1) @ z) @ ?p @ sid_bytes a t @ q)" for R
      using i(1) d'(1) assms(2) by (intro finish_ace_ok) simp_all
    have f': "finish_ace (?h @ ?c @ (?fl @ guid g1 @ guid g2) @ d' @ q) (8 + length (concat as) + 8 + 4 + length (guid g1) + length (guid g2))
        (8 + 4 * length t) (sid_bytes a t @ r) R =
        Some (STATUS_SUCCESS, ([ucast R, s] @ le16 (of_nat sz) @ le16 (of_nat (length as) + 1) @ z) @ ?p @ sid_bytes a t @ q)" for R
      using f[of R] by (simp only: append_assoc)
    let ?b = "([new_revision rv Revision, s] @ le16 (of_nat sz) @ le16 (of_nat (length as) + 1) @ z) @ concat as @ ace @ q"
    have e: "?p @ sid_bytes a t @ q = concat as @ ace @ q" by (simp add: ace object_ace_def l(1))
    have "RtlpAddKnownObjectAce b Revision Flags AccessMask g1 g2 (Some (sid_bytes a t @ r)) Type = Some (STATUS_SUCCESS, ?b)"
      unfolding RtlpAddKnownObjectAce_checked[OF assms(1-6)] i(4) bind.simps d'(2-4)[unfolded append_assoc[of ?h]] prod.case f'
        new_revision_ok(3)[OF acl_repD(1,2)[OF assms(1)] assms(3)]
      using True l(2) e by simp
    moreover have "acl_rep ?b (new_revision rv Revision) sz (as @ [ace])"
      using True i(1,3) l(2) new_revision_ok(1,2)[OF acl_repD(1,2)[OF assms(1)] assms(3)] object_ace_wf[OF assms(2,5,6,7)]
      by (intro acl_rep_snoc[OF assms(1)]) (simp_all add: ace)
    ultimately show ?thesis using True by (simp only: if_True) blast
  qed (simp add: RtlpAddKnownObjectAce_checked[OF assms(1-6)] l)
qed

section \<open>Inserting and deleting\<close>

lemma ace_list_loop_ok:
  "list_all ace_wf news \<Longrightarrow> length p = off \<Longrightarrow>
   ace_list_loop (p @ concat news @ q) (off + length (concat news)) AclRevision off c =
     Some (if \<exists>a \<in> set news. type_rejected (a ! 0) AclRevision then None
           else Some (off + length (concat news), c + of_nat (length news)))"
proof (induction news arbitrary: p off c)
  case Nil
  then show ?case by (simp add: ace_list_loop.simps)
next
  case (Cons a news)
  have "ace_list_loop ((p @ a) @ concat news @ q) (off + length a + length (concat news)) AclRevision (off + length a) (c + 1) =
      Some (if \<exists>a \<in> set news. type_rejected (a ! 0) AclRevision then None
           else Some (off + length a + length (concat news), c + 1 + of_nat (length news)))"
    using Cons.prems by (intro Cons.IH) simp_all
  moreover have "a \<noteq> []" using Cons.prems by (auto simp: ace_wf_def)
  then have "rd (p @ a @ concat news @ q) off = Some (a ! 0)" using Cons.prems by (simp add: rd_def nth_append)
  ultimately show ?case using Cons.prems ace_size_at[of a p off "concat news @ q"] \<open>a \<noteq> []\<close>
    by (subst ace_list_loop.simps) (simp add: unat_ace_size add.assoc)
qed

lemma split_at:
  assumes "length b = n + m"
  obtains x y where "b = x @ y" "length x = n" "length y = m"
  using that[of "take n b" "drop n b"] assms by simp

lemma RtlpAddData_ok:
  assumes "length p = off" "length r = n" "length d = n" "length t = m"
  shows "RtlpAddData (p @ t @ r @ q) (d @ q') n off m = Some (p @ d @ t @ q)"
proof -
  have "length (t @ r) = n + m" using assms by simp
  then obtain x y where xy: "t @ r = x @ y" "length x = n" "length y = m" by (rule split_at)
  have e: "p @ t @ r @ q = (p @ x) @ y @ q" using xy(1) by (metis append.assoc)
  have "wrn (p @ t @ r @ q) (off + n) t = Some ((p @ x) @ t @ q)" unfolding e using xy assms by (intro wrn_append) simp_all
  then have "RtlMoveMemory (p @ t @ r @ q) (off + n) off m = Some (p @ x @ t @ q)"
    using rdn_append[of p off t m "r @ q"] assms by (simp add: RtlMoveMemory_def)
  moreover have "wrn (p @ x @ t @ q) off d = Some (p @ d @ t @ q)" using assms xy by (intro wrn_append) simp_all
  moreover have "wrn (p @ r @ q) off d = Some (p @ d @ q)" using assms by (intro wrn_append) simp_all
  moreover have "x = []" if "d = []" using that xy(2) assms(3) by simp
  ultimately show ?thesis using assms by (cases "t = []"; cases "d = []") (auto simp: RtlpAddData_def rdn_prefix)
qed

lemma RtlpDeleteData_ok:
  assumes "length p = off" "length d + length t < 2 ^ 32" "d \<noteq> []"
  shows "RtlpDeleteData (p @ d @ t @ q) off (of_nat (length d)) (of_nat (length d + length t)) =
    Some (p @ t @ replicate (length d) 0 @ q)"
proof -
  let ?s = "of_nat (length d) :: ULONG" and ?o = "of_nat (length d + length t) :: ULONG"
  have n: "unat (of_nat k :: ULONG) = k" if "k < 2 ^ 32" for k using that by (simp add: unat_of_nat take_bit_nat_eq_self)
  have u: "unat ?s = length d" "unat ?o = length d + length t" "?o - ?s = of_nat (length t)" "unat (of_nat (length t) :: ULONG) = length t"
    using assms(2) n[of "length d"] n[of "length d + length t"] n[of "length t"] by (simp_all del: of_nat_add) simp
  have "length (d @ t) = length t + length d" by simp
  then obtain x y where xy: "d @ t = x @ y" "length x = length t" "length y = length d" by (rule split_at)
  have e: "p @ d @ t @ q = p @ x @ y @ q" using xy(1) by (metis append.assoc)
  have "wrn (p @ d @ t @ q) off t = Some (p @ t @ y @ q)" unfolding e using xy assms by (intro wrn_append) simp_all
  then have m: "RtlMoveMemory (p @ d @ t @ q) off (off + length d) (length t) = Some (p @ t @ y @ q)"
    using rdn_append[of "p @ d" "off + length d" t "length t" q] assms by (simp add: RtlMoveMemory_def)
  have z: "wrn ((p @ t) @ x @ q) (off + length t) (replicate (length d) 0) = Some ((p @ t) @ replicate (length d) 0 @ q)" if "length x = length d" for x
    using assms that by (intro wrn_append) simp_all
  have c: "?s < ?o \<longleftrightarrow> t \<noteq> []" "?o - ?s < ?o" unfolding u(3) word_less_nat_alt u using assms(3) by auto
  have c': "(?o - ?s < ?o) = True" using c(2) by blast
  have e: "off + unat ?o - unat ?s = off + length t" by (simp only: u(1,2))
  show ?thesis
  proof (cases "t = []")
    case True
    then show ?thesis unfolding RtlpDeleteData_def c(1) c' if_True e using z[of d] u by simp
  next
    case False
    then show ?thesis unfolding RtlpDeleteData_def c(1) c' if_True e unfolding u using m z[of y] xy(3) by simp
  qed
qed

lemma acl_split_index:
  assumes "acl_rep b rv sz as" "i \<le> length as"
  obtains s z rest where "length z = 2" "sz \<le> 8 + length (concat as) + length rest"
    and "b = (([rv, s] @ le16 (of_nat sz) @ le16 (of_nat (length as)) @ z) @ concat (take i as)) @ concat (drop i as) @ rest"
    and "skip_aces b 8 i = Some (8 + length (concat (take i as)))"
proof -
  from assms(1) obtain s z rest where b: "length z = 2" "b = ([rv, s] @ le16 (of_nat sz) @ le16 (of_nat (length as)) @ z) @ concat as @ rest"
      "sz \<le> 8 + length (concat as) + length rest"
    by (rule acl_repE)
  have "skip_aces b 8 i = Some (8 + length (concat (take i as)))"
    unfolding b(2) using acl_repD(7)[OF assms(1)] b(1) assms(2) by (intro skip_aces_ok) simp_all
  moreover have "concat as = concat (take i as) @ concat (drop i as)" by (metis append_take_drop_id concat_append)
  ultimately show ?thesis using b by (intro that[of z rest s]) simp_all
qed

lemma acl_rep_list:
  assumes "acl_rep b rv sz as" "2 \<le> rv'" "rv' \<le> 4" "list_all ace_wf as'" "8 + length (concat as') \<le> sz" "length z = 2"
    and "sz \<le> 8 + length (concat as') + length q" "c = of_nat (length as')"
  shows "acl_rep (([rv', s] @ le16 (of_nat sz) @ le16 c @ z) @ concat as' @ q) rv' sz as'"
  using acl_repI[of rv' sz as' z q s] assms acl_repD[OF assms(1)] by simp

definition lower_revision :: "UCHAR \<Rightarrow> ULONG \<Rightarrow> UCHAR" where
  "lower_revision rv AclRevision = ucast (min (ucast rv) AclRevision :: ULONG)"

lemma lower_revision_ok:
  assumes "2 \<le> rv" "rv \<le> 4" "2 \<le> AclRevision"
  shows "2 \<le> lower_revision rv AclRevision" "lower_revision rv AclRevision \<le> 4"
proof -
  have u: "unat (ucast rv :: 32 word) = unat rv" unfolding unsigned_ucast_eq using assms(2)
    by (simp add: word_le_nat_alt take_bit_nat_eq_self)
  let ?m = "min (ucast rv) AclRevision :: ULONG"
  have m: "2 \<le> unat ?m" "unat ?m \<le> 4" using assms u by (auto simp: min_def word_le_nat_alt)
  then have "unat (ucast ?m :: 8 word) = unat ?m" unfolding unsigned_ucast_eq by (simp add: take_bit_nat_eq_self)
  then show "2 \<le> lower_revision rv AclRevision" "lower_revision rv AclRevision \<le> 4"
    using m by (simp_all add: lower_revision_def word_le_nat_alt)
qed

lemma list_all_insert: "list_all P xs \<Longrightarrow> list_all P ys \<Longrightarrow> list_all P (take i xs @ ys @ drop i xs)"
  by (auto simp: list_all_iff dest: in_set_takeD in_set_dropD)

lemma RtlAddAce_ok:
  assumes "acl_rep b rv sz as" "list_all ace_wf news" "length (concat news) < 2 ^ 32"
    and r: "\<not> (\<exists>a \<in> set news. type_rejected (a ! 0) AclRevision)"
    and i: "i = min (unat StartingIndex) (length as)" and fit: "8 + length (concat as) + length (concat news) \<le> sz"
  shows "\<exists>b'. RtlAddAce b AclRevision StartingIndex (concat news @ q') (of_nat (length (concat news))) = Some (STATUS_SUCCESS, b') \<and>
    rd b' 0 = Some (lower_revision rv AclRevision) \<and>
    (2 \<le> AclRevision \<longrightarrow> acl_rep b' (lower_revision rv AclRevision) sz (take i as @ news @ drop i as))"
proof -
  let ?n = "length (concat news)"
  obtain s z rest where b: "length z = 2" "sz \<le> 8 + length (concat as) + length rest"
      "b = (([rv, s] @ le16 (of_nat sz) @ le16 (of_nat (length as)) @ z) @ concat (take i as)) @ concat (drop i as) @ rest"
      "skip_aces b 8 i = Some (8 + length (concat (take i as)))"
    by (rule acl_split_index[OF assms(1), of i]) (use i in simp)
  let ?h = "[rv, s] @ le16 (of_nat sz) @ le16 (of_nat (length as)) @ z"
  have "concat as = concat (take i as) @ concat (drop i as)" by (metis append_take_drop_id concat_append)
  then have la: "length (concat as) = length (concat (take i as)) + length (concat (drop i as))" by (metis length_append)
  have wf: "list_all ace_wf (take i as @ news @ drop i as)" using acl_repD(7)[OF assms(1)] assms(2) by (rule list_all_insert)
  have "length rest = ?n + (length rest - ?n)" using b(2) fit by simp
  then obtain r1 r2 where r12: "rest = r1 @ r2" "length r1 = ?n" "length r2 = length rest - ?n" by (rule split_at)
  have d: "RtlpAddData b (concat news @ q') ?n (8 + length (concat (take i as))) (length (concat (drop i as))) =
      Some (?h @ concat (take i as @ news @ drop i as) @ r2)"
    using RtlpAddData_ok[of "?h @ concat (take i as)" "8 + length (concat (take i as))" r1 ?n "concat news" "concat (drop i as)" "length (concat (drop i as))" r2 q']
      b(1) r12 by (simp add: b(3))
  let ?b = "([lower_revision rv AclRevision, s] @ le16 (of_nat sz) @ le16 (of_nat (length as) + of_nat (length news)) @ z) @ concat (take i as @ news @ drop i as) @ r2"
  have "RtlAddAce b AclRevision StartingIndex (concat news @ q') (of_nat ?n) = Some (STATUS_SUCCESS, ?b)"
  proof -
    let ?C = "concat (take i as @ news @ drop i as) @ r2" and ?c = "of_nat (length as) + of_nat (length news) :: 16 word"
    have u: "unat (of_nat ?n :: ULONG) = ?n" "unat (of_nat sz :: 16 word) = sz" "unat (of_nat (length as) :: 16 word) = length as"
      using assms(3) acl_repD(4)[OF assms(1)] acl_rep_count[OF assms(1)] by (simp_all add: unat_of_nat take_bit_nat_eq_self)
    have l: "ace_list_loop (concat news @ q') ?n AclRevision 0 0 = Some (Some (?n, of_nat (length news)))"
      using ace_list_loop_ok[OF assms(2), of "[]" 0 q' AclRevision 0] r by simp
    have f: "8 + length (concat as) - (8 + length (concat (take i as))) = length (concat (drop i as))" by (simp add: la)
    have w: "rd16 (?h @ ?C) 4 = Some (of_nat (length as))" "wr16 (?h @ ?C) 4 ?c = Some (([rv, s] @ le16 (of_nat sz) @ le16 ?c @ z) @ ?C)"
        "rd (([rv, s] @ le16 (of_nat sz) @ le16 ?c @ z) @ ?C) 0 = Some rv"
        "wr (([rv, s] @ le16 (of_nat sz) @ le16 ?c @ z) @ ?C) 0 (lower_revision rv AclRevision) = Some ?b"
      by (rule get_count[OF b(1)], rule set_count[OF b(1)], simp add: rd_def, rule set_revision)
    show ?thesis
      unfolding RtlAddAce_def u RtlFirstFreeAce_ok[OF assms(1)] acl_header[OF assms(1)] bind.simps prod.case option.case l i[symmetric] b(4) f d w
        lower_revision_def[symmetric]
      using RtlValidAcl_ok[OF assms(1)] fit by simp
  qed
  moreover have "acl_rep ?b (lower_revision rv AclRevision) sz (take i as @ news @ drop i as)" if "2 \<le> AclRevision"
    using b(1,2) fit r12(2,3) i
    by (intro acl_rep_list[OF assms(1) lower_revision_ok[OF acl_repD(1,2)[OF assms(1)] that] wf]) (simp_all add: la)
  moreover have "rd ?b 0 = Some (lower_revision rv AclRevision)" by (simp add: rd_def)
  ultimately show ?thesis by blast
qed

lemma RtlAddAce_fails:
  assumes "acl_rep b rv sz as" "list_all ace_wf news" "length (concat news) < 2 ^ 32"
  shows "\<exists>a \<in> set news. type_rejected (a ! 0) AclRevision \<Longrightarrow>
      RtlAddAce b AclRevision StartingIndex (concat news @ q') (of_nat (length (concat news))) = Some (STATUS_INVALID_PARAMETER, b)"
    and "\<not> (\<exists>a \<in> set news. type_rejected (a ! 0) AclRevision) \<Longrightarrow> sz < 8 + length (concat as) + length (concat news) \<Longrightarrow>
      RtlAddAce b AclRevision StartingIndex (concat news @ q') (of_nat (length (concat news))) = Some (STATUS_BUFFER_TOO_SMALL, b)"
proof -
  have u: "unat (of_nat (length (concat news)) :: ULONG) = length (concat news)" "unat (of_nat sz :: 16 word) = sz"
    using assms(3) acl_repD(4)[OF assms(1)] by (simp_all add: unat_of_nat take_bit_nat_eq_self)
  note facts = RtlValidAcl_ok[OF assms(1)] ace_list_loop_ok[OF assms(2), of "[]" 0 q' AclRevision 0]
  show "RtlAddAce b AclRevision StartingIndex (concat news @ q') (of_nat (length (concat news))) = Some (STATUS_INVALID_PARAMETER, b)"
    if "\<exists>a \<in> set news. type_rejected (a ! 0) AclRevision"
    unfolding RtlAddAce_def u RtlFirstFreeAce_ok[OF assms(1)] bind.simps prod.case using facts that by simp
  show "RtlAddAce b AclRevision StartingIndex (concat news @ q') (of_nat (length (concat news))) = Some (STATUS_BUFFER_TOO_SMALL, b)"
    if "\<not> (\<exists>a \<in> set news. type_rejected (a ! 0) AclRevision)" "sz < 8 + length (concat as) + length (concat news)"
    unfolding RtlAddAce_def u RtlFirstFreeAce_ok[OF assms(1)] acl_header[OF assms(1)] bind.simps prod.case using facts that by (simp add: u)
qed

lemma ace_size_in:
  assumes "acl_rep b rv sz as" "i < length as"
  shows "rd16 b (8 + length (concat (take i as)) + 2) = Some (of_nat (length (as ! i)))"
proof -
  obtain s z rest where b: "length z = 2"
      "b = (([rv, s] @ le16 (of_nat sz) @ le16 (of_nat (length as)) @ z) @ concat (take i as)) @ concat (drop i as) @ rest"
    by (rule acl_split_index[OF assms(1), of i]) (use assms(2) in simp)
  have "concat (drop i as) @ rest = as ! i @ concat (drop (Suc i) as) @ rest" using assms(2) by (simp flip: Cons_nth_drop_Suc)
  moreover have "ace_wf (as ! i)" using acl_repD(7)[OF assms(1)] assms(2) by (simp add: list_all_length)
  ultimately show ?thesis unfolding b(2) using b(1) by (simp only:) (intro ace_size_at, simp_all)
qed

lemma RtlDeleteAce_ok:
  assumes "acl_rep b rv sz as" "unat i < length as"
  shows "\<exists>b'. RtlDeleteAce b i = Some (STATUS_SUCCESS, b') \<and> acl_rep b' rv sz (take (unat i) as @ drop (Suc (unat i)) as)"
proof -
  let ?i = "unat i" and ?d = "as ! unat i"
  obtain s z rest where b: "length z = 2" "sz \<le> 8 + length (concat as) + length rest"
      "b = (([rv, s] @ le16 (of_nat sz) @ le16 (of_nat (length as)) @ z) @ concat (take ?i as)) @ concat (drop ?i as) @ rest"
      "skip_aces b 8 ?i = Some (8 + length (concat (take ?i as)))"
    by (rule acl_split_index[OF assms(1), of ?i]) (use assms(2) in simp)
  let ?h = "[rv, s] @ le16 (of_nat sz) @ le16 (of_nat (length as)) @ z" and ?t = "concat (drop (Suc ?i) as)"
  have dr: "concat (drop ?i as) = ?d @ ?t" using assms(2) by (simp flip: Cons_nth_drop_Suc)
  have "concat as = concat (take ?i as) @ concat (drop ?i as)" by (metis append_take_drop_id concat_append)
  then have la: "length (concat as) = length (concat (take ?i as)) + (length ?d + length ?t)" using dr by (metis length_append)
  have wf: "ace_wf ?d" "list_all ace_wf (take ?i as @ drop (Suc ?i) as)"
    using acl_repD(7)[OF assms(1)] assms(2) by (auto simp: list_all_iff dest: in_set_takeD in_set_dropD)
  have b': "b = (?h @ concat (take ?i as)) @ ?d @ ?t @ rest" unfolding b(3) dr by simp
  note sz = ace_size_in[OF assms]
  have ne: "?d \<noteq> []" using wf(1) by (auto simp: ace_wf_def)
  have lt: "length (concat as) < 65536" using acl_repD(4,6)[OF assms(1)] by simp
  have d: "RtlpDeleteData b (8 + length (concat (take ?i as))) (of_nat (length ?d)) (of_nat (length ?d + length ?t)) =
      Some (?h @ concat (take ?i as @ drop (Suc ?i) as) @ replicate (length ?d) 0 @ rest)"
    using RtlpDeleteData_ok[of "?h @ concat (take ?i as)" "8 + length (concat (take ?i as))" ?d ?t rest] b(1) lt la ne
    by (simp add: b')
  let ?C = "concat (take ?i as @ drop (Suc ?i) as) @ replicate (length ?d) 0 @ rest" and ?c = "of_nat (length as) - 1 :: 16 word"
  let ?b = "([rv, s] @ le16 (of_nat sz) @ le16 ?c @ z) @ ?C"
  have "RtlDeleteAce b i = Some (STATUS_SUCCESS, ?b)"
  proof -
    have "unat (ucast (of_nat (length as) :: 16 word) :: ULONG) = length as"
      using acl_rep_count[OF assms(1)] by (simp add: ucast16_32 unat_of_nat16)
    then have c: "ucast (of_nat (length as) :: 16 word) \<le> i \<longleftrightarrow> False" using assms(2) by (simp add: word_le_nat_alt)
    have z: "ucast (of_nat (length ?d) :: 16 word) = (of_nat (length ?d) :: ULONG)"
      using wf(1) unat_ace_size[OF wf(1)] by (simp add: word_unat_eq_iff ucast16_32 unat_of_nat take_bit_nat_eq_self ace_wf_def)
    have o: "of_nat (8 + length (concat as)) - of_nat (8 + length (concat (take ?i as))) = (of_nat (length ?d + length ?t) :: ULONG)"
      unfolding la by simp
    show ?thesis
      unfolding RtlDeleteAce_def RtlFirstFreeAce_ok[OF assms(1)] acl_header[OF assms(1)] bind.simps prod.case b(4) sz c z o d
        get_count[OF b(1)] set_count[OF b(1)]
      using RtlValidAcl_ok[OF assms(1)] by simp
  qed
  moreover have "acl_rep ?b rv sz (take ?i as @ drop (Suc ?i) as)"
    using b(1,2) acl_repD(6)[OF assms(1)] assms(2)
    by (intro acl_rep_list[OF assms(1) acl_repD(1,2)[OF assms(1)] wf(2)]) (simp_all add: la of_nat_diff)
  ultimately show ?thesis by blast
qed

lemma RtlDeleteAce_fails:
  assumes "acl_rep b rv sz as" "\<not> unat i < length as"
  shows "RtlDeleteAce b i = Some (STATUS_INVALID_PARAMETER, b)"
proof -
  have "unat (ucast (of_nat (length as) :: 16 word) :: ULONG) = length as"
    using acl_rep_count[OF assms(1)] by (simp add: ucast16_32 unat_of_nat16)
  then have "ucast (of_nat (length as) :: 16 word) \<le> i" using assms(2) by (simp add: word_le_nat_alt)
  then show ?thesis using RtlValidAcl_ok[OF assms(1)] by (simp add: RtlDeleteAce_def acl_header[OF assms(1)])
qed

section \<open>Creating\<close>

lemma unat_ROUND_UP4: "unat n < 2 ^ 32 - 3 \<Longrightarrow> unat (ROUND_UP n 4) = 4 * ((unat n + 3) div 4)"
proof -
  assume n: "unat n < 2 ^ 32 - 3"
  have "unat (n + 3) = unat n + 3" using n by (simp add: unat_word_ariths)
  moreover have "ROUND_UP n 4 = (n + 3) AND NOT (4 - 1)" unfolding ROUND_UP_def by (simp add: algebra_simps)
  ultimately show ?thesis using and_not_mask[of 4 2 "n + 3"] by simp
qed

lemma RtlCreateAcl_ok:
  assumes "8 \<le> AclSize" "AclSize \<le> 65532" "2 \<le> AclRevision" "AclRevision \<le> 4" "4 * ((unat AclSize + 3) div 4) \<le> length b"
  shows "\<exists>b'. RtlCreateAcl b AclSize AclRevision = Some (STATUS_SUCCESS, b') \<and>
    acl_rep b' (ucast AclRevision) (4 * ((unat AclSize + 3) div 4)) []"
proof -
  let ?n = "4 * ((unat AclSize + 3) div 4)" and ?rv = "ucast AclRevision :: UCHAR"
  have s: "8 \<le> unat AclSize" "unat AclSize \<le> 65532" "AclSize \<le> 65535" using assms(1,2) by (simp_all add: word_le_nat_alt)
  have n: "unat (ROUND_UP AclSize 4) = ?n" "8 \<le> ?n" "?n < 65536" using s by (simp_all add: unat_ROUND_UP4)
  have u: "(ucast (ROUND_UP AclSize 4) :: 16 word) = of_nat ?n"
    unfolding word_unat_eq_iff unsigned_ucast_eq unat_of_nat n(1) by (simp add: take_bit_eq_mod)
  have "unat ?rv = unat AclRevision" using assms(4) by (simp add: unsigned_ucast_eq word_le_nat_alt take_bit_nat_eq_self)
  then have r: "2 \<le> ?rv" "?rv \<le> 4" using assms(3,4) by (simp_all add: word_le_nat_alt)
  have "length b = 8 + (length b - 8)" using assms(5) n(2) by simp
  then obtain h q where b: "b = h @ q" "length h = 8" "length q = length b - 8" by (rule split_at)
  then obtain h0 h1 h2 h3 h4 h5 h6 h7 where h: "h = [h0, h1, h2, h3, h4, h5, h6, h7]"
    by (auto simp: length_Suc_conv eval_nat_numeral)
  have "RtlCreateAcl b AclSize AclRevision = Some (STATUS_SUCCESS, ([?rv, 0] @ le16 (of_nat ?n) @ le16 0 @ le16 0) @ q)"
    using assms(1-4) u s(3) by (simp add: RtlCreateAcl_def b(1) h wr16_def wrn_def wr_def le16_def not_less)
  moreover have "acl_rep (([?rv, 0] @ le16 (of_nat ?n) @ le16 0 @ le16 0) @ q) ?rv ?n []"
    using acl_repI[of ?rv ?n "[]" "le16 0" q 0] r n assms(5) b(3) by simp
  ultimately show ?thesis by blast
qed

section \<open>The specification\<close>

text \<open>An abstract ACL is a revision and a list of ACEs; its size is fixed.\<close>

datatype acl_op =
    AddKnown ULONG ULONG ULONG bytes "32 word list" UCHAR
  | AddObject ULONG ULONG ULONG "bytes option" "bytes option" bytes "32 word list" UCHAR
  | AddList ULONG ULONG "bytes list"
  | DeleteAt ULONG
  | GetAt ULONG

definition spec_append :: "nat \<Rightarrow> UCHAR \<times> bytes list \<Rightarrow> ULONG \<Rightarrow> bool \<Rightarrow> bytes \<Rightarrow> (NTSTATUS \<times> bytes option) \<times> UCHAR \<times> bytes list" where
  "spec_append sz acl Revision bad ace =
     (let (rv, as) = acl in
      if Revision > 4 then ((STATUS_REVISION_MISMATCH, None), acl)
      else if bad then ((STATUS_INVALID_PARAMETER, None), acl)
      else if 8 + length (concat as) + length ace \<le> sz then ((STATUS_SUCCESS, None), (new_revision rv Revision, as @ [ace]))
      else ((STATUS_ALLOTTED_SPACE_EXCEEDED, None), acl))"

fun acl_spec :: "nat \<Rightarrow> UCHAR \<times> bytes list \<Rightarrow> acl_op \<Rightarrow> (NTSTATUS \<times> bytes option) \<times> UCHAR \<times> bytes list" where
  "acl_spec sz acl (AddKnown r fl m a t ty) =
     spec_append sz acl r (invalid_flags fl (ty = SYSTEM_AUDIT_ACE_TYPE) \<noteq> 0) (known_ace ty fl m (sid_bytes a t))"
| "acl_spec sz acl (AddObject r fl m g1 g2 a t ty) =
     spec_append sz acl r
       (invalid_flags fl (ty = SYSTEM_AUDIT_OBJECT_ACE_TYPE \<or> ty = SYSTEM_AUDIT_CALLBACK_OBJECT_ACE_TYPE) \<noteq> 0)
       (object_ace ty fl m g1 g2 (sid_bytes a t))"
| "acl_spec sz acl (AddList r idx news) =
     (let (rv, as) = acl; i = min (unat idx) (length as) in
      if \<exists>a \<in> set news. type_rejected (a ! 0) r then ((STATUS_INVALID_PARAMETER, None), acl)
      else if 8 + length (concat as) + length (concat news) \<le> sz
      then ((STATUS_SUCCESS, None), (lower_revision rv r, take i as @ news @ drop i as))
      else ((STATUS_BUFFER_TOO_SMALL, None), acl))"
| "acl_spec sz acl (DeleteAt i) =
     (let (rv, as) = acl in
      if unat i < length as then ((STATUS_SUCCESS, None), (rv, take (unat i) as @ drop (Suc (unat i)) as))
      else ((STATUS_INVALID_PARAMETER, None), acl))"
| "acl_spec sz acl (GetAt i) =
     (let (rv, as) = acl in
      if unat i < length as then ((STATUS_SUCCESS, Some (as ! unat i)), acl) else ((STATUS_INVALID_PARAMETER, None), acl))"

text \<open>The routines; \<open>GetAt\<close> reads the ACE at the pointer that \<open>RtlGetAce\<close> returns.\<close>

fun acl_impl :: "bytes \<Rightarrow> acl_op \<Rightarrow> ((NTSTATUS \<times> bytes option) \<times> bytes) option" where
  "acl_impl b (AddKnown r fl m a t ty) = do {
     (st, b) \<leftarrow> RtlpAddKnownAce b r fl m (Some (sid_bytes a t)) ty; Some ((st, None), b) }"
| "acl_impl b (AddObject r fl m g1 g2 a t ty) = do {
     (st, b) \<leftarrow> RtlpAddKnownObjectAce b r fl m g1 g2 (Some (sid_bytes a t)) ty; Some ((st, None), b) }"
| "acl_impl b (AddList r idx news) = do {
     (st, b) \<leftarrow> RtlAddAce b r idx (concat news) (of_nat (length (concat news))); Some ((st, None), b) }"
| "acl_impl b (DeleteAt i) = do { (st, b) \<leftarrow> RtlDeleteAce b i; Some ((st, None), b) }"
| "acl_impl b (GetAt i) = do {
     (st, p) \<leftarrow> RtlGetAce b i;
     if st = STATUS_SUCCESS then do {
       off \<leftarrow> p; n \<leftarrow> rd16 b (off + 2); a \<leftarrow> rdn b off (unat n); Some ((st, Some a), b) }
     else Some ((st, None), b) }"

text \<open>Arguments that are well formed: SIDs, GUIDs, ACEs to insert; object ACEs of the object types; a revision of
  at least 2 for \<open>RtlAddAce\<close>.\<close>

fun op_ok :: "acl_op \<Rightarrow> bool" where
  "op_ok (AddKnown r fl m a t ty) = sid_ok a t"
| "op_ok (AddObject r fl m g1 g2 a t ty) = (sid_ok a t \<and> guid_ok g1 \<and> guid_ok g2 \<and> 3 < ty)"
| "op_ok (AddList r idx news) = (2 \<le> r \<and> list_all ace_wf news \<and> length (concat news) < 2 ^ 32)"
| "op_ok (DeleteAt i) = True"
| "op_ok (GetAt i) = True"

lemma spec_append_sim:
  assumes rep: "acl_rep b rv sz as"
    and mismatch: "4 < r \<Longrightarrow> f = Some (STATUS_REVISION_MISMATCH, b)"
    and bad: "\<not> 4 < r \<Longrightarrow> bad \<Longrightarrow> f = Some (STATUS_INVALID_PARAMETER, b)"
    and ok: "\<not> 4 < r \<Longrightarrow> \<not> bad \<Longrightarrow>
      (if 8 + length (concat as) + length ace \<le> sz
       then \<exists>b'. f = Some (STATUS_SUCCESS, b') \<and> acl_rep b' (new_revision rv r) sz (as @ [ace])
       else f = Some (STATUS_ALLOTTED_SPACE_EXCEEDED, b))"
  shows "\<exists>b'. f = Some (fst (fst (spec_append sz (rv, as) r bad ace)), b') \<and> snd (fst (spec_append sz (rv, as) r bad ace)) = None \<and>
    acl_rep b' (fst (snd (spec_append sz (rv, as) r bad ace))) sz (snd (snd (spec_append sz (rv, as) r bad ace)))"
  using assms by (cases "4 < r"; cases bad; cases "8 + length (concat as) + length ace \<le> sz") (auto simp: spec_append_def Let_def)

lemma RtlpAddKnownAce_rejects:
  assumes "acl_rep b rv sz as" "sid_ok a t"
  shows "4 < r \<Longrightarrow> RtlpAddKnownAce b r fl m (Some (sid_bytes a t @ q)) ty = Some (STATUS_REVISION_MISMATCH, b)"
    and "\<not> 4 < r \<Longrightarrow> invalid_flags fl (ty = SYSTEM_AUDIT_ACE_TYPE) \<noteq> 0 \<Longrightarrow>
      RtlpAddKnownAce b r fl m (Some (sid_bytes a t @ q)) ty = Some (STATUS_INVALID_PARAMETER, b)"
  using acl_header(1)[OF assms(1)] RtlValidSid_ok[OF assms(2), of q] acl_repD(2)[OF assms(1)]
  by (simp_all add: RtlpAddKnownAce_def Let_def not_less leD)

lemma RtlpAddKnownObjectAce_rejects:
  assumes "acl_rep b rv sz as" "sid_ok a t"
  shows "4 < r \<Longrightarrow> RtlpAddKnownObjectAce b r fl m g1 g2 (Some (sid_bytes a t @ q)) ty = Some (STATUS_REVISION_MISMATCH, b)"
    and "\<not> 4 < r \<Longrightarrow> invalid_flags fl (ty = SYSTEM_AUDIT_OBJECT_ACE_TYPE \<or> ty = SYSTEM_AUDIT_CALLBACK_OBJECT_ACE_TYPE) \<noteq> 0 \<Longrightarrow>
      RtlpAddKnownObjectAce b r fl m g1 g2 (Some (sid_bytes a t @ q)) ty = Some (STATUS_INVALID_PARAMETER, b)"
  using acl_header(1)[OF assms(1)] RtlValidSid_ok[OF assms(2), of q] acl_repD(2)[OF assms(1)]
  by (simp_all add: RtlpAddKnownObjectAce_def Let_def not_less leD)

definition acl_rel :: "nat \<Rightarrow> bytes \<Rightarrow> UCHAR \<times> bytes list \<Rightarrow> bool" where
  "acl_rel sz b acl \<longleftrightarrow> acl_rep b (fst acl) sz (snd acl)"

lemma lift_sim:
  "\<exists>b'. f = Some (fst r, b') \<and> snd r = None \<and> P b' \<Longrightarrow> \<exists>b'. do { (st, b) \<leftarrow> f; Some ((st, None), b) } = Some (r, b') \<and> P b'"
  by (cases r) auto

lemma GetAt_sim:
  assumes "acl_rep b rv sz as"
  shows "acl_impl b (GetAt i) = Some (if unat i < length as then ((STATUS_SUCCESS, Some (as ! unat i)), b) else ((STATUS_INVALID_PARAMETER, None), b))"
proof (cases "unat i < length as")
  case True
  moreover have "ace_wf (as ! unat i)" using acl_repD(7)[OF assms] True by (simp add: list_all_length)
  ultimately show ?thesis using RtlGetAce_ok[OF assms, of i] ace_size_in[OF assms True] by (simp add: unat_ace_size)
qed (simp add: RtlGetAce_ok(1)[OF assms])

lemma AddList_sim:
  assumes "acl_rep b rv sz as" "op_ok (AddList r idx news)"
  shows "\<exists>b'. acl_impl b (AddList r idx news) = Some (fst (acl_spec sz (rv, as) (AddList r idx news)), b') \<and>
    acl_rel sz b' (snd (acl_spec sz (rv, as) (AddList r idx news)))"
proof -
  have ok: "2 \<le> r" "list_all ace_wf news" "length (concat news) < 2 ^ 32" using assms(2) by simp_all
  note F = RtlAddAce_fails[OF assms(1) ok(2,3), of r idx "[]", unfolded append_Nil2]
  note S = RtlAddAce_ok[OF assms(1) ok(2,3) _ refl, of r idx "[]", unfolded append_Nil2]
  consider "\<exists>a \<in> set news. type_rejected (a ! 0) r"
    | "\<not> (\<exists>a \<in> set news. type_rejected (a ! 0) r)" "sz < 8 + length (concat as) + length (concat news)"
    | "\<not> (\<exists>a \<in> set news. type_rejected (a ! 0) r)" "8 + length (concat as) + length (concat news) \<le> sz" by linarith
  then show ?thesis
  proof cases
    case 1
    then show ?thesis using F(1)[OF 1] assms(1) by (simp add: acl_rel_def)
  next
    case 2
    then show ?thesis using F(2)[OF 2] assms(1) by (simp add: acl_rel_def)
  next
    case 3
    from S[OF 3] ok(1) obtain b' where "RtlAddAce b r idx (concat news) (of_nat (length (concat news))) = Some (STATUS_SUCCESS, b')"
        "acl_rep b' (lower_revision rv r) sz (take (min (unat idx) (length as)) as @ news @ drop (min (unat idx) (length as)) as)" by blast
    then show ?thesis using 3 by (simp add: acl_rel_def Let_def)
  qed
qed

lemma acl_simulates:
  assumes "acl_rel sz b acl" "op_ok op"
  shows "\<exists>b'. acl_impl b op = Some (fst (acl_spec sz acl op), b') \<and> acl_rel sz b' (snd (acl_spec sz acl op))"
proof -
  obtain rv as where acl: "acl = (rv, as)" by (cases acl)
  have rep: "acl_rep b rv sz as" using assms(1) by (simp add: acl_rel_def acl)
  show ?thesis
  proof (cases op)
    case (AddKnown r fl m a t ty)
    then have s: "sid_ok a t" using assms(2) by simp
    show ?thesis unfolding AddKnown acl_impl.simps acl_spec.simps acl
      by (rule lift_sim, unfold acl_rel_def, rule spec_append_sim[OF rep])
        (use RtlpAddKnownAce_rejects[OF rep s, where q = "[]"] RtlpAddKnownAce_ok[OF rep s _ _ refl, where Revision = r and Flags = fl and Type = ty and AccessMask = m and r = "[]", unfolded append_Nil2] in \<open>simp_all add: not_less\<close>)
  next
    case (AddObject r fl m g1 g2 a t ty)
    then have s: "sid_ok a t" "guid_ok g1" "guid_ok g2" "3 < ty" using assms(2) by simp_all
    show ?thesis unfolding AddObject acl_impl.simps acl_spec.simps acl
      by (rule lift_sim, unfold acl_rel_def, rule spec_append_sim[OF rep])
        (use RtlpAddKnownObjectAce_rejects[OF rep s(1), where q = "[]"] RtlpAddKnownObjectAce_ok[OF rep s(1) _ _ s(2-4) refl,
            where Revision = r and Flags = fl and AccessMask = m and r = "[]", unfolded append_Nil2]
          in \<open>simp_all add: not_less\<close>)
  next
    case (AddList r idx news)
    show ?thesis using AddList_sim[OF rep assms(2)[unfolded AddList]] unfolding AddList acl .
  next
    case (DeleteAt i)
    show ?thesis using RtlDeleteAce_ok[OF rep, of i] RtlDeleteAce_fails[OF rep, of i] rep
      by (cases "unat i < length as") (auto simp: DeleteAt acl acl_rel_def)
  next
    case (GetAt i)
    show ?thesis unfolding GetAt GetAt_sim[OF rep] using rep by (simp add: acl acl_rel_def)
  qed
qed

interpretation acl: refinement "acl_rel sz" acl_impl "acl_spec sz" op_ok for sz
  by unfold_locales (rule acl_simulates)

end
