(* ===== verification/Acl_Props.thy ===== *)
theory Acl_Props
  imports Acl_Correct
begin

text \<open>What the ACL routines promise, and where they do not keep it.\<close>

text \<open>C3: The ACL routines implement a list of ACEs. After \<open>RtlCreateAcl\<close>, whatever sequence of adding known
  and object ACEs, inserting lists of ACEs, deleting and reading entries follows, no routine touches
  memory outside the ACL, every status and every ACE read is the one the list specification gives, and the
  ACL represents the specification's list and stays valid.\<close>

theorem acl_refines:
  assumes "8 \<le> AclSize" "AclSize \<le> 65532" "2 \<le> AclRevision" "AclRevision \<le> 4"
    and "sz = 4 * ((unat AclSize + 3) div 4)" "sz \<le> length b" "list_all op_ok ops"
  shows "\<exists>b0 b'. RtlCreateAcl b AclSize AclRevision = Some (STATUS_SUCCESS, b0) \<and>
    run_impl acl_impl b0 ops = Some (fst (run_spec (acl_spec sz) (ucast AclRevision, []) ops), b') \<and>
    acl_rel sz b' (snd (run_spec (acl_spec sz) (ucast AclRevision, []) ops)) \<and> RtlValidAcl b'"
proof -
  obtain b0 where b0: "RtlCreateAcl b AclSize AclRevision = Some (STATUS_SUCCESS, b0)" "acl_rel sz b0 (ucast AclRevision, [])"
    using RtlCreateAcl_ok[OF assms(1-4), of b] assms(5,6) by (auto simp: acl_rel_def)
  from acl.run_simulates[OF b0(2) assms(7)] b0(1) show ?thesis
    using RtlValidAcl_ok unfolding acl_rel_def by blast
qed

lemma known_ace_admins:
  "known_ace 0 0 1 (sid_bytes [0, 0, 0, 0, 0, 5] [32]) = [0, 0, 20, 0, 1, 0, 0, 0, 1, 1, 0, 0, 0, 0, 0, 5, 32, 0, 0, 0]"
  by (simp add: known_ace_def ace_head_def sid_bytes_def le16_def le32_def)

lemma length_known_ace_admins: "length (known_ace 0 0 1 (sid_bytes [0, 0, 0, 0, 0, 5] [32])) = 20"
  by (simp add: known_ace_admins)

lemma spec_example:
  "run_spec (acl_spec 32) (2, [])
     [AddKnown 2 0 1 [0, 0, 0, 0, 0, 5] [32] 0, AddKnown 2 0 1 [0, 0, 0, 0, 0, 5] [32] 0, GetAt 0, DeleteAt 0, GetAt 0] =
   ([(STATUS_SUCCESS, None), (STATUS_ALLOTTED_SPACE_EXCEEDED, None), (STATUS_SUCCESS, Some (known_ace 0 0 1 (sid_bytes [0, 0, 0, 0, 0, 5] [32]))),
     (STATUS_SUCCESS, None), (STATUS_INVALID_PARAMETER, None)], (2, []))"
  by (simp add: spec_append_def invalid_flags_def new_revision_def length_known_ace_admins)

theorem acl_refines_witness:
  "\<exists>b0 b'. RtlCreateAcl (replicate 32 0) 30 2 = Some (STATUS_SUCCESS, b0) \<and>
     run_impl acl_impl b0 [AddKnown 2 0 1 [0, 0, 0, 0, 0, 5] [32] 0, AddKnown 2 0 1 [0, 0, 0, 0, 0, 5] [32] 0, GetAt 0, DeleteAt 0, GetAt 0] =
       Some ([(STATUS_SUCCESS, None), (STATUS_ALLOTTED_SPACE_EXCEEDED, None), (STATUS_SUCCESS, Some (known_ace 0 0 1 (sid_bytes [0, 0, 0, 0, 0, 5] [32]))),
         (STATUS_SUCCESS, None), (STATUS_INVALID_PARAMETER, None)], b') \<and> RtlValidAcl b'"
proof -
  let ?ops = "[AddKnown 2 0 1 [0, 0, 0, 0, 0, 5] [32] 0, AddKnown 2 0 1 [0, 0, 0, 0, 0, 5] [32] 0, GetAt 0, DeleteAt 0, GetAt 0]"
  have u: "(ucast (2 :: ULONG) :: UCHAR) = 2" by simp
  have "\<exists>b0 b'. RtlCreateAcl (replicate 32 0) 30 2 = Some (STATUS_SUCCESS, b0) \<and>
      run_impl acl_impl b0 ?ops = Some (fst (run_spec (acl_spec 32) (ucast (2 :: ULONG), []) ?ops), b') \<and>
      acl_rel 32 b' (snd (run_spec (acl_spec 32) (ucast (2 :: ULONG), []) ?ops)) \<and> RtlValidAcl b'"
    by (rule acl_refines) (simp_all add: sid_ok_def)
  then show ?thesis unfolding u spec_example fst_conv by blast
qed

section \<open>A list that never ends\<close>

lemma ace_list_loop_zero:
  assumes "ace_list_loop l n r off c = Some y"
  shows "\<not> (off < n \<and> (\<exists>ty. rd l off = Some ty \<and> \<not> type_rejected ty r) \<and> rd16 l (off + 2) = Some 0)"
proof (rule ace_list_loop.raw_induct[where P = "\<lambda>l n r off c y.
      \<not> (off < n \<and> (\<exists>ty. rd l off = Some ty \<and> \<not> type_rejected ty r) \<and> rd16 l (off + 2) = Some 0)", OF _ assms])
  fix f l n r off c y
  assume ih: "\<And>l n r off c y. f l n r off c = Some y \<Longrightarrow>
      \<not> (off < n \<and> (\<exists>ty. rd l off = Some ty \<and> \<not> type_rejected ty r) \<and> rd16 l (off + 2) = Some 0)"
    and eq: "(if off < n then do { ty \<leftarrow> rd l off; if type_rejected ty r then Some None
        else do { sz \<leftarrow> rd16 l (off + 2); f l n r (off + unat sz) (c + 1) } } else Some (Some (off, c))) = Some y"
  show "\<not> (off < n \<and> (\<exists>ty. rd l off = Some ty \<and> \<not> type_rejected ty r) \<and> rd16 l (off + 2) = Some 0)"
  proof
    assume h: "off < n \<and> (\<exists>ty. rd l off = Some ty \<and> \<not> type_rejected ty r) \<and> rd16 l (off + 2) = Some 0"
    then have "f l n r off (c + 1) = Some y" using eq by auto
    then show False using ih h by blast
  qed
qed

lemma ace_list_loop_app:
  "list_all ace_wf news \<Longrightarrow> length p = off \<Longrightarrow> \<not> (\<exists>a \<in> set news. type_rejected (a ! 0) r) \<Longrightarrow> off + length (concat news) < n \<Longrightarrow>
   ace_list_loop (p @ concat news @ q) n r off c = ace_list_loop (p @ concat news @ q) n r (off + length (concat news)) (c + of_nat (length news))"
proof (induction news arbitrary: p off c)
  case (Cons a news)
  have "ace_list_loop ((p @ a) @ concat news @ q) n r (off + length a) (c + 1) =
      ace_list_loop ((p @ a) @ concat news @ q) n r (off + length a + length (concat news)) (c + 1 + of_nat (length news))"
    using Cons.prems by (intro Cons.IH) simp_all
  moreover have "a \<noteq> []" using Cons.prems by (auto simp: ace_wf_def)
  then have "rd (p @ a @ concat news @ q) off = Some (a ! 0)" using Cons.prems by (simp add: rd_def nth_append)
  ultimately show ?case using Cons.prems ace_size_at[of a p off "concat news @ q"]
    by (subst ace_list_loop.simps) (simp add: unat_ace_size add.assoc)
qed simp

text \<open>C34: \<open>RtlAddAce\<close> never returns when the list to add has an ACE of size 0: the loop over the list stays at it. The
  ACEs before it are well formed, and the types are allowed in the revision.\<close>

theorem RtlAddAce_never_returns:
  assumes "acl_rep b rv sz as" "list_all ace_wf news" "\<not> (\<exists>a \<in> set news. type_rejected (a ! 0) r)" "\<not> type_rejected ty r"
    and "length (concat news) < unat n"
  shows "RtlAddAce b r idx (concat news @ [ty, fl, 0, 0] @ q) n = None"
proof -
  let ?l = "concat news @ [ty, fl, 0, 0] @ q" and ?o = "length (concat news)"
  have "rd ?l ?o = Some ty" "rd16 ?l (?o + 2) = Some 0" by (simp_all add: rd16_def rd_def nth_append)
  then have "ace_list_loop ?l (unat n) r ?o c = None" for c
    using ace_list_loop_zero[of ?l "unat n" r ?o c] assms(4,5) by (cases "ace_list_loop ?l (unat n) r ?o c") auto
  then have "ace_list_loop ?l (unat n) r 0 0 = None"
    using ace_list_loop_app[OF assms(2), of "[]" 0 r "unat n" "[ty, fl, 0, 0] @ q" 0] assms(3,5) by simp
  then show ?thesis using RtlValidAcl_ok[OF assms(1)] RtlFirstFreeAce_ok[OF assms(1)] by (simp add: RtlAddAce_def)
qed

lemma empty_acl: "acl_rep ([2, 0, 32, 0, 0, 0, 0, 0] @ replicate 24 0) 2 32 []"
  using acl_repI[of 2 32 "[]" "[0, 0]" "replicate 24 0" 0] by (simp add: le16_def)

theorem RtlAddAce_never_returns_witness:
  "RtlAddAce ([2, 0, 32, 0, 0, 0, 0, 0] @ replicate 24 0) 2 0 [0, 0, 0, 0] 4 = None"
  using RtlAddAce_never_returns[OF empty_acl, of "[]" 2 0 4 0 0 "[]"] by (simp add: type_rejected_def)

section \<open>Revisions and sizes that make the ACL invalid\<close>

text \<open>\<open>RtlAddAce\<close> keeps the smaller of the revisions without checking its argument: with a revision below 2 it
  succeeds and leaves an ACL that \<open>RtlValidAcl\<close> rejects.\<close>

lemma RtlAddAce_low_revision:
  assumes "acl_rep b rv sz as" "list_all ace_wf news" "\<not> (\<exists>a \<in> set news. type_rejected (a ! 0) r)" "r < 2"
    and "8 + length (concat as) + length (concat news) \<le> sz"
  shows "\<exists>b'. RtlAddAce b r idx (concat news) (of_nat (length (concat news))) = Some (STATUS_SUCCESS, b') \<and> \<not> RtlValidAcl b'"
proof -
  have "length (concat news) < 2 ^ 32" using assms(5) acl_repD(4)[OF assms(1)] by simp
  from RtlAddAce_ok[OF assms(1,2) this assms(3) refl assms(5), of idx "[]"] obtain b'
    where b': "RtlAddAce b r idx (concat news) (of_nat (length (concat news))) = Some (STATUS_SUCCESS, b')" "rd b' 0 = Some (lower_revision rv r)"
    by auto
  have u: "unat (ucast rv :: 32 word) = unat rv" unfolding unsigned_ucast_eq using acl_repD(2)[OF assms(1)]
    by (simp add: word_le_nat_alt take_bit_nat_eq_self)
  have "unat (min (ucast rv) r :: ULONG) = unat r" using u acl_repD(1)[OF assms(1)] assms(4)
    by (simp add: unat_min word_le_nat_alt word_less_nat_alt)
  then have "lower_revision rv r < 2" using assms(4)
    by (simp add: lower_revision_def word_less_nat_alt unsigned_ucast_eq take_bit_nat_eq_self)
  then have "\<not> RtlValidAcl b'" using b'(2) by (simp add: RtlValidAcl_def)
  then show ?thesis using b'(1) by blast
qed

lemma RtlAddAce_low_revision_example:
  "\<exists>b'. RtlAddAce ([2, 0, 32, 0, 0, 0, 0, 0] @ replicate 24 0) 0 0 [] 0 =
     Some (STATUS_SUCCESS, b') \<and> \<not> RtlValidAcl b'"
  using RtlAddAce_low_revision[OF empty_acl, of "[]" 0 0] by simp

text \<open>\<open>RtlCreateAcl\<close> rounds the size up after checking it: the three largest sizes it accepts become 0, and
  it reports success for an ACL that \<open>RtlValidAcl\<close> rejects.\<close>

lemma RtlCreateAcl_size_wraps:
  assumes "65532 < AclSize" "AclSize \<le> 65535" "2 \<le> AclRevision" "AclRevision \<le> 4" "8 \<le> length b"
  shows "\<exists>b'. RtlCreateAcl b AclSize AclRevision = Some (STATUS_SUCCESS, b') \<and> rd16 b' 2 = Some 0 \<and> \<not> RtlValidAcl b'"
proof -
  have s: "65533 \<le> unat AclSize" "unat AclSize \<le> 65535" using assms(1,2) by (simp_all add: word_less_nat_alt word_le_nat_alt)
  have "(unat AclSize + 3) div 4 = 16384" using s by simp
  then have "unat (ROUND_UP AclSize 4) = 65536" using s by (simp add: unat_ROUND_UP4)
  then have u: "(ucast (ROUND_UP AclSize 4) :: 16 word) = 0" unfolding word_unat_eq_iff unsigned_ucast_eq by (simp add: take_bit_eq_mod)
  have l: "\<not> AclSize < 8" "\<not> 65535 < AclSize" "\<not> AclRevision < 2" "\<not> 4 < AclRevision"
    using s assms(2-4) by (auto simp: word_less_nat_alt word_le_nat_alt)
  have "length b = 8 + (length b - 8)" using assms(5) by simp
  then obtain h q where b: "b = h @ q" "length h = 8" by (rule split_at)
  then obtain h0 h1 h2 h3 h4 h5 h6 h7 where h: "h = [h0, h1, h2, h3, h4, h5, h6, h7]"
    by (auto simp: length_Suc_conv eval_nat_numeral)
  have "RtlCreateAcl b AclSize AclRevision = Some (STATUS_SUCCESS, [ucast AclRevision, 0, 0, 0, 0, 0, 0, 0] @ q)"
    using l u by (simp add: RtlCreateAcl_def b(1) h wr16_def wrn_def wr_def le16_def)
  moreover have "rd16 ([ucast AclRevision, 0, 0, 0, 0, 0, 0, 0] @ q) 2 = Some 0" by (simp add: rd16_def rd_def)
  moreover have "\<not> RtlValidAcl ([ucast AclRevision, 0, 0, 0, 0, 0, 0, 0] @ q)" using calculation(2) by (simp add: RtlValidAcl_def rd_def)
  ultimately show ?thesis by blast
qed

lemma RtlCreateAcl_size_wraps_example:
  "\<exists>b'. RtlCreateAcl (replicate 8 0) 65535 2 = Some (STATUS_SUCCESS, b') \<and> \<not> RtlValidAcl b'"
  using RtlCreateAcl_size_wraps[of 65535 2 "replicate 8 0"] by auto

end
