(* ===== verification/Links.thy ===== *)
theory Links
  imports Prelude
begin

text \<open>Linked tree nodes in memory, as AVL tables have them. A node is at an address, 0 is the null
  pointer, and using an address where no node is allocated is \<open>None\<close>. \<open>RTL_BALANCED_LINKS\<close> is the
  structure of \<open>ndk/rtltypes.h\<close>; \<open>CHAR Balance\<close> only ever has the values from -1 to 1.\<close>

record RTL_BALANCED_LINKS =
  Parent :: nat
  LeftChild :: nat
  RightChild :: nat
  Balance :: int

type_synonym links = "nat \<rightharpoonup> RTL_BALANCED_LINKS"

definition set_field :: "links \<Rightarrow> nat \<Rightarrow> (RTL_BALANCED_LINKS \<Rightarrow> RTL_BALANCED_LINKS) \<Rightarrow> links option" where
  "set_field h p f = do { n \<leftarrow> h p; Some (h(p \<mapsto> f n)) }"

definition RtlSetParent :: "links \<Rightarrow> nat \<Rightarrow> nat \<Rightarrow> links option" where
  "RtlSetParent h p v = set_field h p (Parent_update (\<lambda>_. v))"

definition set_LeftChild :: "links \<Rightarrow> nat \<Rightarrow> nat \<Rightarrow> links option" where
  "set_LeftChild h p v = set_field h p (LeftChild_update (\<lambda>_. v))"

definition set_RightChild :: "links \<Rightarrow> nat \<Rightarrow> nat \<Rightarrow> links option" where
  "set_RightChild h p v = set_field h p (RightChild_update (\<lambda>_. v))"

definition RtlSetBalance :: "links \<Rightarrow> nat \<Rightarrow> int \<Rightarrow> links option" where
  "RtlSetBalance h p v = set_field h p (Balance_update (\<lambda>_. v))"

definition RtlIsLeftChild :: "links \<Rightarrow> nat \<Rightarrow> bool option" where
  "RtlIsLeftChild h p = do { n \<leftarrow> h p; q \<leftarrow> h (Parent n); Some (LeftChild q = p) }"

definition RtlIsRightChild :: "links \<Rightarrow> nat \<Rightarrow> bool option" where
  "RtlIsRightChild h p = do { n \<leftarrow> h p; q \<leftarrow> h (Parent n); Some (RightChild q = p) }"

definition RtlInsertAsLeftChild :: "links \<Rightarrow> nat \<Rightarrow> nat \<Rightarrow> links option" where
  "RtlInsertAsLeftChild h ParentLinks ChildLinks = do { h \<leftarrow> set_LeftChild h ParentLinks ChildLinks; RtlSetParent h ChildLinks ParentLinks }"

definition RtlInsertAsRightChild :: "links \<Rightarrow> nat \<Rightarrow> nat \<Rightarrow> links option" where
  "RtlInsertAsRightChild h ParentLinks ChildLinks = do { h \<leftarrow> set_RightChild h ParentLinks ChildLinks; RtlSetParent h ChildLinks ParentLinks }"

section \<open>Walking\<close>

text \<open>The loops of the walks: on memory that is not a tree they may not end.\<close>

partial_function (option) leftmost :: "links \<Rightarrow> nat \<Rightarrow> nat option" where
  "leftmost h p = do { n \<leftarrow> h p; if LeftChild n \<noteq> 0 then leftmost h (LeftChild n) else Some p }"

partial_function (option) rightmost :: "links \<Rightarrow> nat \<Rightarrow> nat option" where
  "rightmost h p = do { n \<leftarrow> h p; if RightChild n \<noteq> 0 then rightmost h (RightChild n) else Some p }"

partial_function (option) up_while_left :: "links \<Rightarrow> nat \<Rightarrow> nat option" where
  "up_while_left h p = do {
     l \<leftarrow> RtlIsLeftChild h p;
     if l then do { n \<leftarrow> h p; up_while_left h (Parent n) } else Some p }"

partial_function (option) up_while_right :: "links \<Rightarrow> nat \<Rightarrow> nat option" where
  "up_while_right h p = do {
     r \<leftarrow> RtlIsRightChild h p;
     if r then do { n \<leftarrow> h p; up_while_right h (Parent n) } else Some p }"

definition RtlRealPredecessor :: "links \<Rightarrow> nat \<Rightarrow> nat option" where
  "RtlRealPredecessor h Links = do {
     n \<leftarrow> h Links;
     if LeftChild n \<noteq> 0 then rightmost h (LeftChild n)
     else do {
       Child \<leftarrow> up_while_left h Links;
       r \<leftarrow> RtlIsRightChild h Child;
       c \<leftarrow> h Child;
       Some (if r then Parent c else 0) } }"

definition RtlRealSuccessor :: "links \<Rightarrow> nat \<Rightarrow> nat option" where
  "RtlRealSuccessor h Links = do {
     n \<leftarrow> h Links;
     if RightChild n \<noteq> 0 then leftmost h (RightChild n)
     else do {
       Child \<leftarrow> up_while_right h Links;
       l \<leftarrow> RtlIsLeftChild h Child;
       c \<leftarrow> h Child;
       Some (if l then Parent c else 0) } }"

end
