(* ===== verification/Avl.thy ===== *)
theory Avl
  imports Links
begin

text \<open>AVL generic tables: \<open>sdk/lib/rtl/avlsupp.c\<close> (also in \<open>oca/extensions/ntext/rtl/avl.c\<close>) and
  \<open>sdk/lib/rtl/avltable.c\<close>. The tree hangs to the right of the node \<open>BalancedRoot\<close> of the table, which is its
  own parent. The user data of a node are apart from its links. \<open>cmp\<close> is the table's compare routine, and
  the result of its allocate routine is an argument, 0 when it fails.\<close>

datatype RTL_GENERIC_COMPARE_RESULTS = GenericLessThan | GenericGreaterThan | GenericEqual
datatype TABLE_SEARCH_RESULT = TableEmptyTree | TableFoundNode | TableInsertAsLeft | TableInsertAsRight

text \<open>The address of the table's node.\<close>

definition BalancedRoot :: nat where
  "BalancedRoot = 1"

abbreviation (input) "RtlLeftHeavyAvlTree \<equiv> (-1 :: int)"
abbreviation (input) "RtlBalancedAvlTree \<equiv> (0 :: int)"
abbreviation (input) "RtlRightHeavyAvlTree \<equiv> (1 :: int)"

record 'a RTL_AVL_TABLE =
  Links :: links
  UserData :: "nat \<rightharpoonup> 'a"
  OrderedPointer :: nat
  WhichOrderedElement :: ULONG
  NumberGenericTableElements :: ULONG
  DepthOfTree :: ULONG
  RestartKey :: nat
  DeleteCount :: ULONG

section \<open>Searching\<close>

partial_function (option) avl_find_loop :: "('a \<Rightarrow> 'a \<Rightarrow> RTL_GENERIC_COMPARE_RESULTS) \<Rightarrow> links \<Rightarrow> (nat \<rightharpoonup> 'a) \<Rightarrow> 'a \<Rightarrow> nat \<Rightarrow>
    (TABLE_SEARCH_RESULT \<times> nat) option" where
  "avl_find_loop cmp h d Buffer CurrentNode = do {
     v \<leftarrow> d CurrentNode;
     n \<leftarrow> h CurrentNode;
     case cmp Buffer v of
       GenericLessThan \<Rightarrow>
         if LeftChild n \<noteq> 0 then avl_find_loop cmp h d Buffer (LeftChild n) else Some (TableInsertAsLeft, CurrentNode)
     | GenericGreaterThan \<Rightarrow>
         if RightChild n \<noteq> 0 then avl_find_loop cmp h d Buffer (RightChild n) else Some (TableInsertAsRight, CurrentNode)
     | GenericEqual \<Rightarrow> Some (TableFoundNode, CurrentNode) }"

text \<open>\<open>*NodeOrParent\<close> is not written when the table is empty; the caller's value \<open>NodeOrParent\<close> stays.\<close>

definition RtlpFindAvlTableNodeOrParent :: "('a \<Rightarrow> 'a \<Rightarrow> RTL_GENERIC_COMPARE_RESULTS) \<Rightarrow> 'a RTL_AVL_TABLE \<Rightarrow> 'a \<Rightarrow> nat \<Rightarrow>
    (TABLE_SEARCH_RESULT \<times> nat) option" where
  "RtlpFindAvlTableNodeOrParent cmp Table Buffer NodeOrParent =
     (if NumberGenericTableElements Table = 0 then Some (TableEmptyTree, NodeOrParent)
      else do {
        r \<leftarrow> Links Table BalancedRoot;
        avl_find_loop cmp (Links Table) (UserData Table) Buffer (RightChild r) })"

section \<open>Rotations\<close>

definition RtlpPromoteAvlTreeNode :: "links \<Rightarrow> nat \<Rightarrow> links option" where
  "RtlpPromoteAvlTreeNode h Node = do {
     n \<leftarrow> h Node;
     let ParentNode = Parent n;
     p \<leftarrow> h ParentNode;
     let SuperParentNode = Parent p;
     isLeft \<leftarrow> RtlIsLeftChild h Node;
     let Swap2 = (if isLeft then RightChild n else LeftChild n);
     h \<leftarrow> (if isLeft then set_LeftChild h ParentNode Swap2 else set_RightChild h ParentNode Swap2);
     h \<leftarrow> (if Swap2 \<noteq> 0 then RtlSetParent h Swap2 ParentNode else Some h);
     h \<leftarrow> (if isLeft then set_RightChild h Node ParentNode else set_LeftChild h Node ParentNode);
     h \<leftarrow> RtlSetParent h ParentNode Node;
     s \<leftarrow> h SuperParentNode;
     h \<leftarrow> (if LeftChild s = ParentNode then set_LeftChild h SuperParentNode Node else set_RightChild h SuperParentNode Node);
     RtlSetParent h Node SuperParentNode }"

definition RtlpRebalanceAvlTreeNode :: "links \<Rightarrow> nat \<Rightarrow> (bool \<times> links) option" where
  "RtlpRebalanceAvlTreeNode h Node = do {
     n \<leftarrow> h Node;
     let B = Balance n;
     let ChildNode = (if B = RtlRightHeavyAvlTree then RightChild n else LeftChild n);
     c \<leftarrow> h ChildNode;
     if Balance c = B then do {
       h \<leftarrow> RtlpPromoteAvlTreeNode h ChildNode;
       h \<leftarrow> RtlSetBalance h ChildNode RtlBalancedAvlTree;
       h \<leftarrow> RtlSetBalance h Node RtlBalancedAvlTree;
       Some (False, h) }
     else if Balance c = - B then do {
       let SubChildNode = (if B = RtlRightHeavyAvlTree then LeftChild c else RightChild c);
       h \<leftarrow> RtlpPromoteAvlTreeNode h SubChildNode;
       h \<leftarrow> RtlpPromoteAvlTreeNode h SubChildNode;
       s \<leftarrow> h SubChildNode;
       h \<leftarrow> (if Balance s = B then do {
              h \<leftarrow> RtlSetBalance h ChildNode RtlBalancedAvlTree; RtlSetBalance h Node (- B) }
            else if Balance s = - B then do {
              h \<leftarrow> RtlSetBalance h ChildNode B; RtlSetBalance h Node RtlBalancedAvlTree }
            else do {
              h \<leftarrow> RtlSetBalance h ChildNode RtlBalancedAvlTree; RtlSetBalance h Node RtlBalancedAvlTree });
       h \<leftarrow> RtlSetBalance h SubChildNode RtlBalancedAvlTree;
       Some (False, h) }
     else do {
       h \<leftarrow> RtlpPromoteAvlTreeNode h ChildNode;
       h \<leftarrow> RtlSetBalance h ChildNode (- B);
       Some (True, h) } }"

section \<open>Inserting\<close>

text \<open>The loop up the tree; the result also says whether the depth grows.\<close>

partial_function (option) avl_insert_loop :: "links \<Rightarrow> nat \<Rightarrow> nat \<Rightarrow> (links \<times> bool) option" where
  "avl_insert_loop h NewNode NodeOrParent = do {
     l \<leftarrow> RtlIsLeftChild h NewNode;
     let B = (if l then RtlLeftHeavyAvlTree else RtlRightHeavyAvlTree);
     p \<leftarrow> h NodeOrParent;
     if Balance p = RtlBalancedAvlTree then do {
       h \<leftarrow> RtlSetBalance h NodeOrParent B;
       avl_insert_loop h NodeOrParent (Parent p) }
     else if Balance p \<noteq> B then do {
       h \<leftarrow> RtlSetBalance h NodeOrParent RtlBalancedAvlTree;
       r \<leftarrow> h BalancedRoot;
       Some (h, Balance r = RtlBalancedAvlTree) }
     else do {
       (_, h) \<leftarrow> RtlpRebalanceAvlTreeNode h NodeOrParent;
       Some (h, False) } }"

definition RtlpInsertAvlTreeNode :: "'a RTL_AVL_TABLE \<Rightarrow> nat \<Rightarrow> nat \<Rightarrow> TABLE_SEARCH_RESULT \<Rightarrow> 'a RTL_AVL_TABLE option" where
  "RtlpInsertAvlTreeNode Table NewNode NodeOrParent SearchResult = do {
     h \<leftarrow> set_RightChild (Links Table) NewNode 0;
     h \<leftarrow> set_LeftChild h NewNode 0;
     h \<leftarrow> RtlSetBalance h NewNode RtlBalancedAvlTree;
     let Table = Table\<lparr>NumberGenericTableElements := NumberGenericTableElements Table + 1\<rparr>;
     if SearchResult = TableEmptyTree then do {
       h \<leftarrow> RtlInsertAsRightChild h BalancedRoot NewNode;
       Some (Table\<lparr>Links := h, DepthOfTree := 1\<rparr>) }
     else do {
       h \<leftarrow> (if SearchResult = TableInsertAsLeft then RtlInsertAsLeftChild h NodeOrParent NewNode
            else RtlInsertAsRightChild h NodeOrParent NewNode);
       h \<leftarrow> RtlSetBalance h BalancedRoot RtlLeftHeavyAvlTree;
       (h, deeper) \<leftarrow> avl_insert_loop h NewNode NodeOrParent;
       Some (Table\<lparr>Links := h, DepthOfTree := (if deeper then DepthOfTree Table + 1 else DepthOfTree Table)\<rparr>) } }"

text \<open>The returned pointer to the user data is the address of the node, 0 for \<open>NULL\<close>; \<open>*NewElement\<close> is the
  boolean. \<open>Allocated\<close> is what the allocate routine returns.\<close>

definition RtlInsertElementGenericTableFullAvl ::
  "'a RTL_AVL_TABLE \<Rightarrow> 'a \<Rightarrow> nat \<Rightarrow> nat \<Rightarrow> TABLE_SEARCH_RESULT \<Rightarrow> (nat \<times> bool \<times> 'a RTL_AVL_TABLE) option" where
  "RtlInsertElementGenericTableFullAvl Table Buffer Allocated NodeOrParent SearchResult =
     (if SearchResult \<noteq> TableFoundNode then
        (if Allocated = 0 then Some (0, False, Table)
         else do {
           let Table = Table\<lparr>Links := (Links Table)(Allocated \<mapsto> \<lparr>Parent = 0, LeftChild = 0, RightChild = 0, Balance = 0\<rparr>)\<rparr>;
           Table \<leftarrow> RtlpInsertAvlTreeNode Table Allocated NodeOrParent SearchResult;
           let Table = Table\<lparr>UserData := (UserData Table)(Allocated \<mapsto> Buffer)\<rparr>;
           Some (Allocated, True, Table) })
      else Some (NodeOrParent, False, Table))"

definition RtlInsertElementGenericTableAvl ::
  "('a \<Rightarrow> 'a \<Rightarrow> RTL_GENERIC_COMPARE_RESULTS) \<Rightarrow> 'a RTL_AVL_TABLE \<Rightarrow> 'a \<Rightarrow> nat \<Rightarrow> (nat \<times> bool \<times> 'a RTL_AVL_TABLE) option" where
  "RtlInsertElementGenericTableAvl cmp Table Buffer Allocated = do {
     (Result, NodeOrParent) \<leftarrow> RtlpFindAvlTableNodeOrParent cmp Table Buffer 0;
     RtlInsertElementGenericTableFullAvl Table Buffer Allocated NodeOrParent Result }"

section \<open>Deleting\<close>

partial_function (option) avl_delete_loop :: "links \<Rightarrow> nat \<Rightarrow> int \<Rightarrow> (links \<times> bool) option" where
  "avl_delete_loop h ParentNode B = do {
     p \<leftarrow> h ParentNode;
     if Balance p = B then do {
       h \<leftarrow> RtlSetBalance h ParentNode RtlBalancedAvlTree;
       r \<leftarrow> RtlIsRightChild h ParentNode;
       avl_delete_loop h (Parent p) (if r then RtlRightHeavyAvlTree else RtlLeftHeavyAvlTree) }
     else if Balance p = RtlBalancedAvlTree then do {
       h \<leftarrow> RtlSetBalance h ParentNode (- B);
       r \<leftarrow> h BalancedRoot;
       Some (h, Balance r \<noteq> RtlBalancedAvlTree) }
     else do {
       (stop, h) \<leftarrow> RtlpRebalanceAvlTreeNode h ParentNode;
       if stop then Some (h, False)
       else do {
         p \<leftarrow> h ParentNode;
         let ParentNode = Parent p;
         r \<leftarrow> RtlIsRightChild h ParentNode;
         p \<leftarrow> h ParentNode;
         avl_delete_loop h (Parent p) (if r then RtlRightHeavyAvlTree else RtlLeftHeavyAvlTree) } } }"

definition RtlpDeleteAvlTreeNode :: "'a RTL_AVL_TABLE \<Rightarrow> nat \<Rightarrow> 'a RTL_AVL_TABLE option" where
  "RtlpDeleteAvlTreeNode Table Node = do {
     let h = Links Table;
     n \<leftarrow> h Node;
     DeleteNode \<leftarrow> (if LeftChild n = 0 \<or> RightChild n = 0 then Some Node
       else if Balance n \<ge> RtlBalancedAvlTree then leftmost h (RightChild n)
       else rightmost h (LeftChild n));
     d \<leftarrow> h DeleteNode;
     let ParentNode = Parent d;
     let Child = (if LeftChild d \<noteq> 0 then LeftChild d else RightChild d);
     isLeft \<leftarrow> RtlIsLeftChild h DeleteNode;
     let B = (if isLeft then RtlLeftHeavyAvlTree else RtlRightHeavyAvlTree);
     h \<leftarrow> (if isLeft then set_LeftChild h ParentNode Child else set_RightChild h ParentNode Child);
     h \<leftarrow> (if Child \<noteq> 0 then RtlSetParent h Child ParentNode else Some h);
     h \<leftarrow> RtlSetBalance h BalancedRoot RtlBalancedAvlTree;
     (h, shallower) \<leftarrow> avl_delete_loop h ParentNode B;
     let Table = Table\<lparr>DepthOfTree := (if shallower then DepthOfTree Table - 1 else DepthOfTree Table)\<rparr>;
     if Node = DeleteNode then Some (Table\<lparr>Links := h\<rparr>)
     else do {
       n \<leftarrow> h Node;
       _ \<leftarrow> h DeleteNode;
       let h = h(DeleteNode \<mapsto> n);
       isLeft \<leftarrow> RtlIsLeftChild h Node;
       h \<leftarrow> (if isLeft then set_LeftChild h (Parent n) DeleteNode else set_RightChild h (Parent n) DeleteNode);
       h \<leftarrow> (if LeftChild n \<noteq> 0 then RtlSetParent h (LeftChild n) DeleteNode else Some h);
       h \<leftarrow> (if RightChild n \<noteq> 0 then RtlSetParent h (RightChild n) DeleteNode else Some h);
       Some (Table\<lparr>Links := h\<rparr>) } }"

text \<open>The free routine takes the node back: its memory is gone.\<close>

definition RtlDeleteElementGenericTableAvl ::
  "('a \<Rightarrow> 'a \<Rightarrow> RTL_GENERIC_COMPARE_RESULTS) \<Rightarrow> 'a RTL_AVL_TABLE \<Rightarrow> 'a \<Rightarrow> (bool \<times> 'a RTL_AVL_TABLE) option" where
  "RtlDeleteElementGenericTableAvl cmp Table Buffer = do {
     (SearchResult, Node) \<leftarrow> RtlpFindAvlTableNodeOrParent cmp Table Buffer 0;
     if SearchResult \<noteq> TableFoundNode then Some (False, Table)
     else do {
       Key \<leftarrow> (if Node = RestartKey Table then RtlRealPredecessor (Links Table) Node else Some (RestartKey Table));
       let Table = Table\<lparr>RestartKey := Key, DeleteCount := DeleteCount Table + 1\<rparr>;
       Table \<leftarrow> RtlpDeleteAvlTreeNode Table Node;
       Some (True, Table\<lparr>NumberGenericTableElements := NumberGenericTableElements Table - 1,
         WhichOrderedElement := 0, OrderedPointer := 0,
         Links := (Links Table)(Node := None), UserData := (UserData Table)(Node := None)\<rparr>) } }"

section \<open>Looking up and enumerating\<close>

definition RtlInitializeGenericTableAvl :: "'a RTL_AVL_TABLE" where
  "RtlInitializeGenericTableAvl = \<lparr>
     Links = [BalancedRoot \<mapsto> \<lparr>Parent = BalancedRoot, LeftChild = 0, RightChild = 0, Balance = 0\<rparr>],
     UserData = Map.empty, OrderedPointer = 0, WhichOrderedElement = 0,
     NumberGenericTableElements = 0, DepthOfTree = 0, RestartKey = 0, DeleteCount = 0\<rparr>"

definition RtlIsGenericTableEmptyAvl :: "'a RTL_AVL_TABLE \<Rightarrow> bool" where
  "RtlIsGenericTableEmptyAvl Table = (NumberGenericTableElements Table = 0)"

definition RtlNumberGenericTableElementsAvl :: "'a RTL_AVL_TABLE \<Rightarrow> ULONG" where
  "RtlNumberGenericTableElementsAvl Table = NumberGenericTableElements Table"

text \<open>The pointer to the data, \<open>*NodeOrParent\<close> and \<open>*SearchResult\<close>.\<close>

definition RtlLookupElementGenericTableFullAvl ::
  "('a \<Rightarrow> 'a \<Rightarrow> RTL_GENERIC_COMPARE_RESULTS) \<Rightarrow> 'a RTL_AVL_TABLE \<Rightarrow> 'a \<Rightarrow> nat \<Rightarrow> (nat \<times> nat \<times> TABLE_SEARCH_RESULT) option" where
  "RtlLookupElementGenericTableFullAvl cmp Table Buffer NodeOrParent = do {
     (SearchResult, NodeOrParent) \<leftarrow> RtlpFindAvlTableNodeOrParent cmp Table Buffer NodeOrParent;
     Some (if SearchResult \<noteq> TableFoundNode then 0 else NodeOrParent, NodeOrParent, SearchResult) }"

definition RtlLookupElementGenericTableAvl :: "('a \<Rightarrow> 'a \<Rightarrow> RTL_GENERIC_COMPARE_RESULTS) \<Rightarrow> 'a RTL_AVL_TABLE \<Rightarrow> 'a \<Rightarrow> nat option" where
  "RtlLookupElementGenericTableAvl cmp Table Buffer = map_option fst (RtlLookupElementGenericTableFullAvl cmp Table Buffer 0)"

text \<open>The node whose data are returned, 0 for \<open>NULL\<close>, and the restart key.\<close>

definition RtlEnumerateGenericTableWithoutSplayingAvl :: "'a RTL_AVL_TABLE \<Rightarrow> nat \<Rightarrow> (nat \<times> nat) option" where
  "RtlEnumerateGenericTableWithoutSplayingAvl Table Key =
     (if RtlIsGenericTableEmptyAvl Table then Some (0, Key)
      else if Key = 0 then do {
        r \<leftarrow> Links Table BalancedRoot;
        CurrentNode \<leftarrow> leftmost (Links Table) (RightChild r);
        Some (CurrentNode, CurrentNode) }
      else do {
        CurrentNode \<leftarrow> RtlRealSuccessor (Links Table) Key;
        Some (CurrentNode, if CurrentNode \<noteq> 0 then CurrentNode else Key) })"

definition RtlEnumerateGenericTableAvl :: "'a RTL_AVL_TABLE \<Rightarrow> bool \<Rightarrow> (nat \<times> 'a RTL_AVL_TABLE) option" where
  "RtlEnumerateGenericTableAvl Table Restart = do {
     let Table = (if Restart then Table\<lparr>RestartKey := 0\<rparr> else Table);
     (Node, Key) \<leftarrow> RtlEnumerateGenericTableWithoutSplayingAvl Table (RestartKey Table);
     Some (Node, Table\<lparr>RestartKey := Key\<rparr>) }"

text \<open>The loop back over the nodes that match.\<close>

partial_function (option) first_match_loop ::
  "('a \<Rightarrow> 'a \<Rightarrow> RTL_GENERIC_COMPARE_RESULTS) \<Rightarrow> 'a RTL_AVL_TABLE \<Rightarrow> 'a \<Rightarrow> nat \<Rightarrow> nat option" where
  "first_match_loop cmp Table Buffer Node = do {
     PreviousNode \<leftarrow> RtlRealPredecessor (Links Table) Node;
     if PreviousNode = 0 then Some Node
     else do {
       p \<leftarrow> Links Table PreviousNode;
       if Parent p = PreviousNode then Some Node
       else do {
         v \<leftarrow> UserData Table PreviousNode;
         if cmp Buffer v = GenericEqual then first_match_loop cmp Table Buffer PreviousNode else Some Node } } }"

definition RtlLookupFirstMatchingElementGenericTableAvl ::
  "('a \<Rightarrow> 'a \<Rightarrow> RTL_GENERIC_COMPARE_RESULTS) \<Rightarrow> 'a RTL_AVL_TABLE \<Rightarrow> 'a \<Rightarrow> (nat \<times> nat) option" where
  "RtlLookupFirstMatchingElementGenericTableAvl cmp Table Buffer = do {
     (SearchResult, Node) \<leftarrow> RtlpFindAvlTableNodeOrParent cmp Table Buffer 0;
     if SearchResult \<noteq> TableFoundNode then Some (0, 0)
     else do { Node \<leftarrow> first_match_loop cmp Table Buffer Node; Some (Node, Node) } }"

end
