(* ===== verification/Avl_Zipper.thy ===== *)
theory Avl_Zipper
  imports Avl "HOL-Library.Multiset"
begin

text \<open>Trees in memory. A place in a tree is a subtree and the path of frames above it; the memory represents both,
  so that moving the place up or down changes nothing, and an operation at the place is one on the subtree.\<close>

section \<open>Trees and places\<close>

datatype tree = Lf | Nd tree nat int tree

datatype frame = InLeft nat int tree | InRight tree nat int

primrec ptr :: "tree \<Rightarrow> nat" where
  "ptr Lf = 0"
| "ptr (Nd l a b r) = a"

primrec nodes :: "tree \<Rightarrow> nat list" where
  "nodes Lf = []"
| "nodes (Nd l a b r) = nodes l @ a # nodes r"

fun plug :: "tree \<Rightarrow> frame list \<Rightarrow> tree" where
  "plug t [] = t"
| "plug t (InLeft a b r # k) = plug (Nd t a b r) k"
| "plug t (InRight l a b # k) = plug (Nd l a b t) k"

fun up :: "frame list \<Rightarrow> nat" where
  "up [] = BalancedRoot"
| "up (InLeft a b r # k) = a"
| "up (InRight l a b # k) = a"

text \<open>The addresses before and after the place, in order.\<close>

fun before :: "frame list \<Rightarrow> nat list" where
  "before [] = []"
| "before (InLeft a b r # k) = before k"
| "before (InRight l a b # k) = before k @ nodes l @ [a]"

fun after :: "frame list \<Rightarrow> nat list" where
  "after [] = []"
| "after (InLeft a b r # k) = a # nodes r @ after k"
| "after (InRight l a b # k) = after k"

lemma nodes_plug: "nodes (plug t k) = before k @ nodes t @ after k"
  by (induction t k rule: plug.induct) simp_all

section \<open>Representation\<close>

primrec tree_at :: "links \<Rightarrow> nat \<Rightarrow> tree \<Rightarrow> bool" where
  "tree_at h par Lf = True"
| "tree_at h par (Nd l a b r) \<longleftrightarrow> h a = Some \<lparr>Parent = par, LeftChild = ptr l, RightChild = ptr r, Balance = b\<rparr> \<and>
     tree_at h a l \<and> tree_at h a r"

fun path_at :: "links \<Rightarrow> int \<Rightarrow> nat \<Rightarrow> frame list \<Rightarrow> bool" where
  "path_at h rb c [] \<longleftrightarrow> h BalancedRoot = Some \<lparr>Parent = BalancedRoot, LeftChild = 0, RightChild = c, Balance = rb\<rparr>"
| "path_at h rb c (InLeft a b r # k) \<longleftrightarrow> h a = Some \<lparr>Parent = up k, LeftChild = c, RightChild = ptr r, Balance = b\<rparr> \<and>
     tree_at h a r \<and> path_at h rb a k"
| "path_at h rb c (InRight l a b # k) \<longleftrightarrow> h a = Some \<lparr>Parent = up k, LeftChild = ptr l, RightChild = c, Balance = b\<rparr> \<and>
     tree_at h a l \<and> path_at h rb a k"

definition good :: "nat list \<Rightarrow> bool" where
  "good as \<longleftrightarrow> distinct as \<and> 0 \<notin> set as \<and> BalancedRoot \<notin> set as"

lemma good_perm: "good as \<Longrightarrow> mset as = mset bs \<Longrightarrow> good bs"
  unfolding good_def using mset_eq_imp_distinct_iff[of as bs] mset_eq_setD[of as bs] by simp

definition rep :: "links \<Rightarrow> int \<Rightarrow> tree \<Rightarrow> frame list \<Rightarrow> bool" where
  "rep h rb t k \<longleftrightarrow> tree_at h (up k) t \<and> path_at h rb (ptr t) k \<and> good (before k @ nodes t @ after k)"

lemma rep_left: "rep h rb l (InLeft a b r # k) = rep h rb (Nd l a b r) k"
  by (auto simp: rep_def)

lemma rep_right: "rep h rb r (InRight l a b # k) = rep h rb (Nd l a b r) k"
  by (auto simp: rep_def)

lemma rep_top: "rep h rb t k = rep h rb (plug t k) []"
  by (induction t k rule: plug.induct) (simp_all add: rep_left rep_right)

lemmas rep_move = rep_left rep_right

section \<open>Changes elsewhere\<close>

lemma tree_at_upd: "a \<notin> set (nodes t) \<Longrightarrow> tree_at (h(a := v)) par t = tree_at h par t"
  by (induction t arbitrary: par) auto

lemma path_at_upd: "a \<notin> set (before k) \<Longrightarrow> a \<notin> set (after k) \<Longrightarrow> a \<noteq> BalancedRoot \<Longrightarrow> path_at (h(a := v)) rb c k = path_at h rb c k"
  by (induction h rb c k rule: path_at.induct) (auto simp: tree_at_upd)

lemma ptr_in: "ptr t \<noteq> 0 \<Longrightarrow> ptr t \<in> set (nodes t)"
  by (cases t) auto

lemma ptr_0: "0 \<notin> set (nodes t) \<Longrightarrow> ptr t = 0 \<longleftrightarrow> t = Lf"
  by (cases t) auto

lemma up_cases: "up k \<in> set (before k) \<or> up k \<in> set (after k) \<or> up k = BalancedRoot"
  by (cases k rule: up.cases) auto

lemma up_notin: "good (before k @ as @ after k) \<Longrightarrow> up k \<notin> set as"
  using up_cases[of k] by (auto simp: good_def)

text \<open>A tree gets another parent.\<close>

definition reparent :: "links \<Rightarrow> tree \<Rightarrow> nat \<Rightarrow> links" where
  "reparent h t par = (case t of Lf \<Rightarrow> h
     | Nd l a b r \<Rightarrow> h(a \<mapsto> \<lparr>Parent = par, LeftChild = ptr l, RightChild = ptr r, Balance = b\<rparr>))"

lemma reparent_ok:
  assumes "tree_at h q t" "distinct (nodes t)" "0 \<notin> set (nodes t)"
  shows "(if ptr t \<noteq> 0 then RtlSetParent h (ptr t) par else Some h) = Some (reparent h t par)" "tree_at (reparent h t par) par t"
  using assms by (auto simp: reparent_def RtlSetParent_def set_field_def tree_at_upd split: tree.splits)

lemma reparent_other: "a \<notin> set (nodes t) \<Longrightarrow> reparent h t par a = h a"
  by (auto simp: reparent_def split: tree.splits)

lemma tree_at_reparent: "set (nodes t) \<inter> set (nodes u) = {} \<Longrightarrow> tree_at (reparent h t par) q u = tree_at h q u"
  by (auto simp: reparent_def tree_at_upd split: tree.splits)

lemma path_at_reparent:
  "set (nodes t) \<inter> set (before k @ after k) = {} \<Longrightarrow> BalancedRoot \<notin> set (nodes t) \<Longrightarrow> path_at (reparent h t par) rb c k = path_at h rb c k"
  by (auto simp: reparent_def path_at_upd split: tree.splits)

text \<open>The link from above gets another child.\<close>

definition relink :: "links \<Rightarrow> nat \<Rightarrow> nat \<Rightarrow> nat \<Rightarrow> links option" where
  "relink h s old new = do { n \<leftarrow> h s; if LeftChild n = old then set_LeftChild h s new else set_RightChild h s new }"

lemma tree_at_cong: "\<forall>x \<in> set (nodes t). h' x = h x \<Longrightarrow> tree_at h' par t = tree_at h par t"
  by (induction t arbitrary: par) auto

lemma path_at_cong: "\<forall>x \<in> set (before k @ after k). h' x = h x \<Longrightarrow> h' BalancedRoot = h BalancedRoot \<Longrightarrow> path_at h' rb c k = path_at h rb c k"
proof (induction h rb c k rule: path_at.induct)
  case (2 h rb c a b r k)
  then have "tree_at h' a r = tree_at h a r" by (intro tree_at_cong) simp
  moreover have "path_at h' rb a k = path_at h rb a k" using 2 by auto
  ultimately show ?case using 2 by simp
next
  case (3 h rb c l a b k)
  then have "tree_at h' a l = tree_at h a l" by (intro tree_at_cong) simp
  moreover have "path_at h' rb a k = path_at h rb a k" using 3 by auto
  ultimately show ?case using 3 by simp
qed simp

lemma relink_ok:
  assumes "path_at h rb c k" "good (before k @ after k)" "c \<noteq> 0" "c \<notin> set (before k @ after k)"
  obtains h' where "relink h (up k) c new = Some h'" "path_at h' rb new k" "\<And>x. x \<noteq> up k \<Longrightarrow> h' x = h x"
proof (cases k rule: up.cases)
  case 1
  then show ?thesis using assms that by (auto simp: relink_def set_RightChild_def set_field_def)
next
  case (2 a b r k')
  define h' where "h' = h(a \<mapsto> \<lparr>Parent = up k', LeftChild = new, RightChild = ptr r, Balance = b\<rparr>)"
  have "relink h (up k) c new = Some h'" using assms(1) 2 by (simp add: relink_def set_LeftChild_def set_field_def h'_def)
  moreover have "path_at h' rb new k" using assms(1,2) 2 by (simp add: h'_def good_def tree_at_upd path_at_upd)
  ultimately show ?thesis using that 2 by (simp add: h'_def)
next
  case (3 l a b k')
  define h' where "h' = h(a \<mapsto> \<lparr>Parent = up k', LeftChild = ptr l, RightChild = new, Balance = b\<rparr>)"
  have "ptr l \<noteq> c" using assms(3,4) 3 ptr_in[of l] by auto
  then have "relink h (up k) c new = Some h'" using assms(1) 3 by (simp add: relink_def set_RightChild_def set_field_def h'_def)
  moreover have "path_at h' rb new k" using assms(1,2) 3 by (simp add: h'_def good_def tree_at_upd path_at_upd)
  ultimately show ?thesis using that 3 by (simp add: h'_def)
qed

section \<open>Rotations\<close>

lemma good_parts:
  assumes "good (before k @ nodes x @ n # nodes y @ p # nodes z @ after k)"
  shows "n \<noteq> 0" "p \<noteq> 0" "n \<noteq> p" "p \<noteq> n"
    and "n \<notin> set (nodes x)" "n \<notin> set (nodes y)" "n \<notin> set (nodes z)" "p \<notin> set (nodes x)" "p \<notin> set (nodes y)" "p \<notin> set (nodes z)"
    and "set (nodes y) \<inter> set (nodes x) = {}" "set (nodes y) \<inter> set (nodes z) = {}" "distinct (nodes y)" "0 \<notin> set (nodes y)"
    and "\<forall>v \<in> set (before k @ after k). v \<noteq> n \<and> v \<noteq> p \<and> v \<notin> set (nodes y)"
    and "BalancedRoot \<noteq> n \<and> BalancedRoot \<noteq> p \<and> BalancedRoot \<notin> set (nodes y)" "good (before k @ after k)"
    and "up k \<noteq> n" "up k \<noteq> p" "up k \<notin> set (nodes x)" "up k \<notin> set (nodes y)" "up k \<notin> set (nodes z)"
  using assms up_notin[of k "nodes x @ n # nodes y @ p # nodes z"] unfolding good_def by auto

text \<open>The memory after the first half of a rotation: \<open>p\<close> is below \<open>n\<close>, the link from above is still to \<open>p\<close>.\<close>

lemma promote_half:
  assumes "tree_at h n y" "good (before k @ nodes x @ n # nodes y @ p # nodes z @ after k)" "path_at h rb p k"
    and h1: "h1 = h(p \<mapsto> v)" and h4: "h4 = (reparent h1 y p)(n \<mapsto> vn, p \<mapsto> vp)"
  shows "(if ptr y \<noteq> 0 then RtlSetParent h1 (ptr y) p else Some h1) = Some (reparent h1 y p)"
    and "tree_at h4 p y" "path_at h4 rb p k" "\<And>v. v \<noteq> n \<Longrightarrow> v \<noteq> p \<Longrightarrow> v \<notin> set (nodes y) \<Longrightarrow> h4 v = h v"
proof -
  note g = good_parts[OF assms(2)]
  have y1: "tree_at h1 n y" using assms(1) g by (simp add: h1 tree_at_upd)
  show "(if ptr y \<noteq> 0 then RtlSetParent h1 (ptr y) p else Some h1) = Some (reparent h1 y p)" using reparent_ok(1)[OF y1] g by simp
  show "tree_at h4 p y" using reparent_ok(2)[OF y1] g by (simp add: h4 tree_at_upd)
  show o: "h4 v = h v" if "v \<noteq> n" "v \<noteq> p" "v \<notin> set (nodes y)" for v using that reparent_other[of v y] by (simp add: h4 h1)
  have "path_at h4 rb p k = path_at h rb p k" using g(15,16) o by (intro path_at_cong) auto
  then show "path_at h4 rb p k" using assms(3) by simp
qed

lemma relink_bind:
  "do { s \<leftarrow> h u; h \<leftarrow> (if LeftChild s = old then set_LeftChild h u new else set_RightChild h u new); f h } = do { h \<leftarrow> relink h u old new; f h }"
  by (cases "h u") (simp_all add: relink_def)

lemma rotated_rep:
  assumes "good (before k @ nodes x @ n # nodes y @ p # nodes z @ after k)" "path_at h rb n k"
    and "\<And>v. v \<noteq> up k \<Longrightarrow> h v = h4 v" "\<And>v. v \<noteq> n \<Longrightarrow> v \<noteq> p \<Longrightarrow> v \<notin> set (nodes y) \<Longrightarrow> h4 v = h0 v"
  shows "path_at (h(n \<mapsto> w)) rb n k" "tree_at (h(n \<mapsto> w)) q x = tree_at h0 q x" "tree_at (h(n \<mapsto> w)) q z = tree_at h0 q z"
    and "tree_at (h(n \<mapsto> w)) q y = tree_at h4 q y" "(h(n \<mapsto> w)) p = h4 p"
proof -
  note g = good_parts[OF assms(1)]
  show "path_at (h(n \<mapsto> w)) rb n k" using assms(2) g by (subst path_at_upd) auto
  have c: "tree_at (h(n \<mapsto> w)) q u = tree_at h4 q u" if "n \<notin> set (nodes u)" "up k \<notin> set (nodes u)" for u
    using that by (intro tree_at_cong) (auto intro!: assms(3))
  have d: "tree_at h4 q u = tree_at h0 q u" if "n \<notin> set (nodes u)" "p \<notin> set (nodes u)" "set (nodes y) \<inter> set (nodes u) = {}" for u
    using that by (intro tree_at_cong) (auto intro!: assms(4))
  show "tree_at (h(n \<mapsto> w)) q x = tree_at h0 q x" "tree_at (h(n \<mapsto> w)) q z = tree_at h0 q z" "tree_at (h(n \<mapsto> w)) q y = tree_at h4 q y"
    using c d g by simp_all
  show "(h(n \<mapsto> w)) p = h4 p" using assms(3)[of p] g by simp
qed

lemma promote_left:
  assumes "rep h rb (Nd (Nd x n bn y) p bp z) k"
  shows "\<exists>h'. RtlpPromoteAvlTreeNode h n = Some h' \<and> rep h' rb (Nd x n bn (Nd y p bp z)) k"
proof -
  have t: "h n = Some \<lparr>Parent = p, LeftChild = ptr x, RightChild = ptr y, Balance = bn\<rparr>"
      "h p = Some \<lparr>Parent = up k, LeftChild = n, RightChild = ptr z, Balance = bp\<rparr>"
      "tree_at h n x" "tree_at h n y" "tree_at h p z" "path_at h rb p k"
    using assms by (simp_all add: rep_def)
  have gd: "good (before k @ nodes x @ n # nodes y @ p # nodes z @ after k)" using assms by (simp add: rep_def)
  note g = good_parts[OF gd]
  define h1 where "h1 = h(p \<mapsto> \<lparr>Parent = up k, LeftChild = ptr y, RightChild = ptr z, Balance = bp\<rparr>)"
  define h4 where "h4 = (reparent h1 y p)(n \<mapsto> \<lparr>Parent = p, LeftChild = ptr x, RightChild = p, Balance = bn\<rparr>,
     p \<mapsto> \<lparr>Parent = n, LeftChild = ptr y, RightChild = ptr z, Balance = bp\<rparr>)"
  note half = promote_half[OF t(4) gd t(6) h1_def h4_def]
  obtain h5 where h5: "relink h4 (up k) p n = Some h5" "path_at h5 rb n k" "\<And>v. v \<noteq> up k \<Longrightarrow> h5 v = h4 v"
    by (rule relink_ok[OF half(3) g(17,2), of n]) (use g in auto)
  define h6 where "h6 = h5(n \<mapsto> \<lparr>Parent = up k, LeftChild = ptr x, RightChild = p, Balance = bn\<rparr>)"
  have h2: "reparent h1 y p n = h n" "reparent h1 y p p = h1 p" using g by (simp_all add: reparent_other h1_def)
  have h6': "RtlSetParent h5 n (up k) = Some h6" using h5(3)[of n] g by (simp add: RtlSetParent_def set_field_def h6_def h4_def)
  have "set_LeftChild h p (ptr y) = Some h1" using t(2) by (simp add: set_LeftChild_def set_field_def h1_def)
  moreover have "set_RightChild (reparent h1 y p) n p =
      Some ((reparent h1 y p)(n \<mapsto> \<lparr>Parent = p, LeftChild = ptr x, RightChild = p, Balance = bn\<rparr>))"
    using h2 t(1) by (simp add: set_RightChild_def set_field_def)
  moreover have "RtlSetParent ((reparent h1 y p)(n \<mapsto> \<lparr>Parent = p, LeftChild = ptr x, RightChild = p, Balance = bn\<rparr>)) p n = Some h4"
    using h2 g by (simp add: RtlSetParent_def set_field_def h4_def h1_def)
  ultimately have "RtlpPromoteAvlTreeNode h n = Some h6"
    using t(1,2) half(1) h5(1) h6' by (cases "ptr y = 0") (simp_all add: RtlpPromoteAvlTreeNode_def RtlIsLeftChild_def Let_def relink_bind)
  moreover have "h6 n = Some \<lparr>Parent = up k, LeftChild = ptr x, RightChild = p, Balance = bn\<rparr>"
      "h4 p = Some \<lparr>Parent = n, LeftChild = ptr y, RightChild = ptr z, Balance = bp\<rparr>" by (simp_all add: h6_def h4_def)
  then have "rep h6 rb (Nd x n bn (Nd y p bp z)) k"
    using rotated_rep[OF gd h5(2,3) half(4), where w = "\<lparr>Parent = up k, LeftChild = ptr x, RightChild = p, Balance = bn\<rparr>", folded h6_def]
      t(3,5) half(2) gd by (simp add: rep_def)
  ultimately show ?thesis by blast
qed

lemma promote_right:
  assumes "rep h rb (Nd z p bp (Nd y n bn x)) k"
  shows "\<exists>h'. RtlpPromoteAvlTreeNode h n = Some h' \<and> rep h' rb (Nd (Nd z p bp y) n bn x) k"
proof -
  have t: "h n = Some \<lparr>Parent = p, LeftChild = ptr y, RightChild = ptr x, Balance = bn\<rparr>"
      "h p = Some \<lparr>Parent = up k, LeftChild = ptr z, RightChild = n, Balance = bp\<rparr>"
      "tree_at h n x" "tree_at h n y" "tree_at h p z" "path_at h rb p k"
    using assms by (simp_all add: rep_def)
  have gm: "good (before k @ nodes z @ p # nodes y @ n # nodes x @ after k)" using assms by (simp add: rep_def)
  then have gd: "good (before k @ nodes x @ n # nodes y @ p # nodes z @ after k)" by (rule good_perm) simp
  note g = good_parts[OF gd]
  have nz: "ptr z \<noteq> n" using ptr_in[of z] g by auto
  define h1 where "h1 = h(p \<mapsto> \<lparr>Parent = up k, LeftChild = ptr z, RightChild = ptr y, Balance = bp\<rparr>)"
  define h4 where "h4 = (reparent h1 y p)(n \<mapsto> \<lparr>Parent = p, LeftChild = p, RightChild = ptr x, Balance = bn\<rparr>,
     p \<mapsto> \<lparr>Parent = n, LeftChild = ptr z, RightChild = ptr y, Balance = bp\<rparr>)"
  note half = promote_half[OF t(4) gd t(6) h1_def h4_def]
  obtain h5 where h5: "relink h4 (up k) p n = Some h5" "path_at h5 rb n k" "\<And>v. v \<noteq> up k \<Longrightarrow> h5 v = h4 v"
    by (rule relink_ok[OF half(3) g(17,2), of n]) (use g in auto)
  define h6 where "h6 = h5(n \<mapsto> \<lparr>Parent = up k, LeftChild = p, RightChild = ptr x, Balance = bn\<rparr>)"
  have h2: "reparent h1 y p n = h n" "reparent h1 y p p = h1 p" using g by (simp_all add: reparent_other h1_def)
  have h6': "RtlSetParent h5 n (up k) = Some h6" using h5(3)[of n] g by (simp add: RtlSetParent_def set_field_def h6_def h4_def)
  have "set_RightChild h p (ptr y) = Some h1" using t(2) by (simp add: set_RightChild_def set_field_def h1_def)
  moreover have "set_LeftChild (reparent h1 y p) n p =
      Some ((reparent h1 y p)(n \<mapsto> \<lparr>Parent = p, LeftChild = p, RightChild = ptr x, Balance = bn\<rparr>))"
    using h2 t(1) by (simp add: set_LeftChild_def set_field_def)
  moreover have "RtlSetParent ((reparent h1 y p)(n \<mapsto> \<lparr>Parent = p, LeftChild = p, RightChild = ptr x, Balance = bn\<rparr>)) p n = Some h4"
    using h2 g by (simp add: RtlSetParent_def set_field_def h4_def h1_def)
  ultimately have "RtlpPromoteAvlTreeNode h n = Some h6"
    using t(1,2) half(1) h5(1) h6' nz by (cases "ptr y = 0") (simp_all add: RtlpPromoteAvlTreeNode_def RtlIsLeftChild_def Let_def relink_bind)
  moreover have "h6 n = Some \<lparr>Parent = up k, LeftChild = p, RightChild = ptr x, Balance = bn\<rparr>"
      "h4 p = Some \<lparr>Parent = n, LeftChild = ptr z, RightChild = ptr y, Balance = bp\<rparr>" by (simp_all add: h6_def h4_def)
  then have "rep h6 rb (Nd (Nd z p bp y) n bn x) k"
    using rotated_rep[OF gd h5(2,3) half(4), where w = "\<lparr>Parent = up k, LeftChild = p, RightChild = ptr x, Balance = bn\<rparr>", folded h6_def]
      t(3,5) half(2) gm by (simp add: rep_def)
  ultimately show ?thesis by blast
qed

end
