(* ===== verification/Avl_Balance.thy ===== *)
theory Avl_Balance
  imports Avl_Zipper
begin

text \<open>Balanced trees: the rotations of \<open>RtlpRebalanceAvlTreeNode\<close> restore the balance of a tree in which one side has
  become two levels higher than the other.\<close>

section \<open>Balance fields\<close>

lemma rep_balance:
  assumes "rep h rb (Nd l a b r) k"
  obtains h' where "RtlSetBalance h a b' = Some h'" "rep h' rb (Nd l a b' r) k"
proof -
  define h' where "h' = h(a \<mapsto> \<lparr>Parent = up k, LeftChild = ptr l, RightChild = ptr r, Balance = b'\<rparr>)"
  have "RtlSetBalance h a b' = Some h'" using assms by (simp add: rep_def RtlSetBalance_def set_field_def h'_def)
  moreover have "rep h' rb (Nd l a b' r) k" using assms by (auto simp: rep_def h'_def tree_at_upd path_at_upd good_def)
  ultimately show ?thesis by (rule that)
qed

lemma path_at_root:
  "path_at h rb c k \<Longrightarrow> BalancedRoot \<notin> set (before k @ after k) \<Longrightarrow>
   \<exists>n. h BalancedRoot = Some n \<and> Balance n = rb \<and> path_at (h(BalancedRoot \<mapsto> n\<lparr>Balance := rb'\<rparr>)) rb' c k"
  by (induction h rb c k rule: path_at.induct) (auto simp: tree_at_upd)

lemma rep_root_balance:
  assumes "rep h rb t k"
  obtains h' where "RtlSetBalance h BalancedRoot rb' = Some h'" "rep h' rb' t k"
proof -
  have g: "BalancedRoot \<notin> set (before k @ after k)" "BalancedRoot \<notin> set (nodes t)" using assms by (auto simp: rep_def good_def)
  with path_at_root[of h rb "ptr t" k rb'] assms obtain n where "h BalancedRoot = Some n" "path_at (h(BalancedRoot \<mapsto> n\<lparr>Balance := rb'\<rparr>)) rb' (ptr t) k"
    by (auto simp: rep_def)
  then show ?thesis using assms g(2) that[of "h(BalancedRoot \<mapsto> n\<lparr>Balance := rb'\<rparr>)"]
    by (simp add: rep_def RtlSetBalance_def set_field_def tree_at_upd)
qed

lemma rep_root: "rep h rb t k \<Longrightarrow> \<exists>n. h BalancedRoot = Some n \<and> Balance n = rb"
  using path_at_root[of h rb "ptr t" k] by (auto simp: rep_def good_def)

lemma rep_promote_left:
  assumes "rep h rb (Nd (Nd x n bn y) p bp z) k"
  obtains h' where "RtlpPromoteAvlTreeNode h n = Some h'" "rep h' rb (Nd x n bn (Nd y p bp z)) k"
  using promote_left[OF assms] that by blast

lemma rep_promote_right:
  assumes "rep h rb (Nd z p bp (Nd y n bn x)) k"
  obtains h' where "RtlpPromoteAvlTreeNode h n = Some h'" "rep h' rb (Nd (Nd z p bp y) n bn x) k"
  using promote_right[OF assms] that by blast

lemma rep_node: "rep h rb (Nd l a b r) k \<Longrightarrow> h a = Some \<lparr>Parent = up k, LeftChild = ptr l, RightChild = ptr r, Balance = b\<rparr>"
  by (simp add: rep_def)

section \<open>Heights\<close>

primrec height :: "tree \<Rightarrow> nat" where
  "height Lf = 0"
| "height (Nd l a b r) = Suc (max (height l) (height r))"

primrec avl :: "tree \<Rightarrow> bool" where
  "avl Lf = True"
| "avl (Nd l a b r) \<longleftrightarrow> avl l \<and> avl r \<and> b = int (height r) - int (height l) \<and> \<bar>b\<bar> \<le> 1"

lemma single_right:
  assumes "rep h rb (Nd l a 1 (Nd y c 1 x)) k"
  obtains h' where "RtlpRebalanceAvlTreeNode h a = Some (False, h')" "rep h' rb (Nd (Nd l a 0 y) c 0 x) k"
proof -
  obtain h1 where 1: "RtlpPromoteAvlTreeNode h c = Some h1" "rep h1 rb (Nd (Nd l a 1 y) c 1 x) k" by (rule rep_promote_right[OF assms])
  obtain h2 where 2: "RtlSetBalance h1 c 0 = Some h2" "rep h2 rb (Nd (Nd l a 1 y) c 0 x) k" by (rule rep_balance[OF 1(2)])
  then have "rep h2 rb (Nd l a 1 y) (InLeft c 0 x # k)" by (simp add: rep_move)
  then obtain h3 where 3: "RtlSetBalance h2 a 0 = Some h3" "rep h3 rb (Nd l a 0 y) (InLeft c 0 x # k)" by (rule rep_balance)
  have "h a = Some \<lparr>Parent = up k, LeftChild = ptr l, RightChild = c, Balance = 1\<rparr>" "h c = Some \<lparr>Parent = a, LeftChild = ptr y, RightChild = ptr x, Balance = 1\<rparr>"
    using assms by (simp_all add: rep_def)
  then have "RtlpRebalanceAvlTreeNode h a = Some (False, h3)" using 1 2 3 by (simp add: RtlpRebalanceAvlTreeNode_def)
  then show ?thesis using 3(2) that by (simp add: rep_move)
qed

lemma keep_right:
  assumes "rep h rb (Nd l a 1 (Nd y c 0 x)) k"
  obtains h' where "RtlpRebalanceAvlTreeNode h a = Some (True, h')" "rep h' rb (Nd (Nd l a 1 y) c (-1) x) k"
proof -
  obtain h1 where 1: "RtlpPromoteAvlTreeNode h c = Some h1" "rep h1 rb (Nd (Nd l a 1 y) c 0 x) k" by (rule rep_promote_right[OF assms])
  obtain h2 where 2: "RtlSetBalance h1 c (-1) = Some h2" "rep h2 rb (Nd (Nd l a 1 y) c (-1) x) k" by (rule rep_balance[OF 1(2)])
  have "h a = Some \<lparr>Parent = up k, LeftChild = ptr l, RightChild = c, Balance = 1\<rparr>" "h c = Some \<lparr>Parent = a, LeftChild = ptr y, RightChild = ptr x, Balance = 0\<rparr>"
    using assms by (simp_all add: rep_def)
  then have "RtlpRebalanceAvlTreeNode h a = Some (True, h2)" using 1 2 by (simp add: RtlpRebalanceAvlTreeNode_def)
  then show ?thesis using 2(2) that by blast
qed

lemma double_right:
  assumes "rep h rb (Nd l a 1 (Nd (Nd x s bs y) c (-1) z)) k"
  obtains h' where "RtlpRebalanceAvlTreeNode h a = Some (False, h')"
    "rep h' rb (Nd (Nd l a (if bs = 1 then -1 else 0) x) s 0 (Nd y c (if bs = -1 then 1 else 0) z)) k"
proof -
  let ?ba = "if bs = 1 then -1 else 0 :: int" and ?bc = "if bs = -1 then 1 else 0 :: int"
  have f: "h a = Some \<lparr>Parent = up k, LeftChild = ptr l, RightChild = c, Balance = 1\<rparr>" "h c = Some \<lparr>Parent = a, LeftChild = s, RightChild = ptr z, Balance = -1\<rparr>"
    using assms by (simp_all add: rep_def)
  have "rep h rb (Nd (Nd x s bs y) c (-1) z) (InRight l a 1 # k)" using assms by (simp add: rep_move)
  then obtain h1 where 1: "RtlpPromoteAvlTreeNode h s = Some h1" "rep h1 rb (Nd x s bs (Nd y c (-1) z)) (InRight l a 1 # k)" by (rule rep_promote_left)
  then have "rep h1 rb (Nd l a 1 (Nd x s bs (Nd y c (-1) z))) k" by (simp add: rep_move)
  then obtain h2 where 2: "RtlpPromoteAvlTreeNode h1 s = Some h2" "rep h2 rb (Nd (Nd l a 1 x) s bs (Nd y c (-1) z)) k" by (rule rep_promote_right)
  have s: "h2 s = Some \<lparr>Parent = up k, LeftChild = a, RightChild = c, Balance = bs\<rparr>" using rep_node[OF 2(2)] by simp
  from 2(2) have "rep h2 rb (Nd y c (-1) z) (InRight (Nd l a 1 x) s bs # k)" by (simp add: rep_move)
  then obtain h3 where 3: "RtlSetBalance h2 c ?bc = Some h3" "rep h3 rb (Nd y c ?bc z) (InRight (Nd l a 1 x) s bs # k)" by (rule rep_balance)
  then have "rep h3 rb (Nd l a 1 x) (InLeft s bs (Nd y c ?bc z) # k)" by (simp add: rep_move)
  then obtain h4 where 4: "RtlSetBalance h3 a ?ba = Some h4" "rep h4 rb (Nd l a ?ba x) (InLeft s bs (Nd y c ?bc z) # k)" by (rule rep_balance)
  then have "rep h4 rb (Nd (Nd l a ?ba x) s bs (Nd y c ?bc z)) k" by (simp add: rep_move)
  then obtain h5 where 5: "RtlSetBalance h4 s 0 = Some h5" "rep h5 rb (Nd (Nd l a ?ba x) s 0 (Nd y c ?bc z)) k" by (rule rep_balance)
  have "RtlpRebalanceAvlTreeNode h a = Some (False, h5)"
    using f 1(1) 2(1) s 3(1) 4(1) 5(1) by (cases "bs = 1"; cases "bs = -1") (simp_all add: RtlpRebalanceAvlTreeNode_def)
  then show ?thesis using 5(2) by (rule that)
qed

section \<open>The other side\<close>

lemma single_left:
  assumes "rep h rb (Nd (Nd x c (-1) y) a (-1) l) k"
  obtains h' where "RtlpRebalanceAvlTreeNode h a = Some (False, h')" "rep h' rb (Nd x c 0 (Nd y a 0 l)) k"
proof -
  obtain h1 where 1: "RtlpPromoteAvlTreeNode h c = Some h1" "rep h1 rb (Nd x c (-1) (Nd y a (-1) l)) k" by (rule rep_promote_left[OF assms])
  obtain h2 where 2: "RtlSetBalance h1 c 0 = Some h2" "rep h2 rb (Nd x c 0 (Nd y a (-1) l)) k" by (rule rep_balance[OF 1(2)])
  then have "rep h2 rb (Nd y a (-1) l) (InRight x c 0 # k)" by (simp add: rep_move)
  then obtain h3 where 3: "RtlSetBalance h2 a 0 = Some h3" "rep h3 rb (Nd y a 0 l) (InRight x c 0 # k)" by (rule rep_balance)
  have "h a = Some \<lparr>Parent = up k, LeftChild = c, RightChild = ptr l, Balance = -1\<rparr>" "h c = Some \<lparr>Parent = a, LeftChild = ptr x, RightChild = ptr y, Balance = -1\<rparr>"
    using assms by (simp_all add: rep_def)
  then have "RtlpRebalanceAvlTreeNode h a = Some (False, h3)" using 1 2 3 by (simp add: RtlpRebalanceAvlTreeNode_def)
  then show ?thesis using 3(2) that by (simp add: rep_move)
qed

lemma keep_left:
  assumes "rep h rb (Nd (Nd x c 0 y) a (-1) l) k"
  obtains h' where "RtlpRebalanceAvlTreeNode h a = Some (True, h')" "rep h' rb (Nd x c 1 (Nd y a (-1) l)) k"
proof -
  obtain h1 where 1: "RtlpPromoteAvlTreeNode h c = Some h1" "rep h1 rb (Nd x c 0 (Nd y a (-1) l)) k" by (rule rep_promote_left[OF assms])
  obtain h2 where 2: "RtlSetBalance h1 c 1 = Some h2" "rep h2 rb (Nd x c 1 (Nd y a (-1) l)) k" by (rule rep_balance[OF 1(2)])
  have "h a = Some \<lparr>Parent = up k, LeftChild = c, RightChild = ptr l, Balance = -1\<rparr>" "h c = Some \<lparr>Parent = a, LeftChild = ptr x, RightChild = ptr y, Balance = 0\<rparr>"
    using assms by (simp_all add: rep_def)
  then have "RtlpRebalanceAvlTreeNode h a = Some (True, h2)" using 1 2 by (simp add: RtlpRebalanceAvlTreeNode_def)
  then show ?thesis using 2(2) that by blast
qed

lemma double_left:
  assumes "rep h rb (Nd (Nd z c 1 (Nd y s bs x)) a (-1) l) k"
  obtains h' where "RtlpRebalanceAvlTreeNode h a = Some (False, h')"
    "rep h' rb (Nd (Nd z c (if bs = 1 then -1 else 0) y) s 0 (Nd x a (if bs = -1 then 1 else 0) l)) k"
proof -
  let ?ba = "if bs = -1 then 1 else 0 :: int" and ?bc = "if bs = 1 then -1 else 0 :: int"
  have f: "h a = Some \<lparr>Parent = up k, LeftChild = c, RightChild = ptr l, Balance = -1\<rparr>" "h c = Some \<lparr>Parent = a, LeftChild = ptr z, RightChild = s, Balance = 1\<rparr>"
    using assms by (simp_all add: rep_def)
  have "rep h rb (Nd z c 1 (Nd y s bs x)) (InLeft a (-1) l # k)" using assms by (simp add: rep_move)
  then obtain h1 where 1: "RtlpPromoteAvlTreeNode h s = Some h1" "rep h1 rb (Nd (Nd z c 1 y) s bs x) (InLeft a (-1) l # k)" by (rule rep_promote_right)
  then have "rep h1 rb (Nd (Nd (Nd z c 1 y) s bs x) a (-1) l) k" by (simp add: rep_move)
  then obtain h2 where 2: "RtlpPromoteAvlTreeNode h1 s = Some h2" "rep h2 rb (Nd (Nd z c 1 y) s bs (Nd x a (-1) l)) k" by (rule rep_promote_left)
  have s: "h2 s = Some \<lparr>Parent = up k, LeftChild = c, RightChild = a, Balance = bs\<rparr>" using rep_node[OF 2(2)] by simp
  from 2(2) have "rep h2 rb (Nd z c 1 y) (InLeft s bs (Nd x a (-1) l) # k)" by (simp add: rep_move)
  then obtain h3 where 3: "RtlSetBalance h2 c ?bc = Some h3" "rep h3 rb (Nd z c ?bc y) (InLeft s bs (Nd x a (-1) l) # k)" by (rule rep_balance)
  then have "rep h3 rb (Nd x a (-1) l) (InRight (Nd z c ?bc y) s bs # k)" by (simp add: rep_move)
  then obtain h4 where 4: "RtlSetBalance h3 a ?ba = Some h4" "rep h4 rb (Nd x a ?ba l) (InRight (Nd z c ?bc y) s bs # k)" by (rule rep_balance)
  then have "rep h4 rb (Nd (Nd z c ?bc y) s bs (Nd x a ?ba l)) k" by (simp add: rep_move)
  then obtain h5 where 5: "RtlSetBalance h4 s 0 = Some h5" "rep h5 rb (Nd (Nd z c ?bc y) s 0 (Nd x a ?ba l)) k" by (rule rep_balance)
  have "RtlpRebalanceAvlTreeNode h a = Some (False, h5)"
    using f 1(1) 2(1) s 3(1) 4(1) 5(1) by (cases "bs = 1"; cases "bs = -1") (simp_all add: RtlpRebalanceAvlTreeNode_def)
  then show ?thesis using 5(2) by (rule that)
qed

section \<open>Rebalancing\<close>

definition balance_of :: "tree \<Rightarrow> int" where
  "balance_of t = (case t of Lf \<Rightarrow> 0 | Nd l a b r \<Rightarrow> b)"

text \<open>What rebalancing promises: the same nodes, a balanced tree, of the height of the higher side, or one more when
  that side was in balance.\<close>

definition rebalanced :: "links \<Rightarrow> int \<Rightarrow> tree \<Rightarrow> nat \<Rightarrow> tree \<Rightarrow> frame list \<Rightarrow> bool \<Rightarrow> links \<Rightarrow> tree \<Rightarrow> bool" where
  "rebalanced h rb t a high k f h' t' \<longleftrightarrow> RtlpRebalanceAvlTreeNode h a = Some (f, h') \<and> rep h' rb t' k \<and> avl t' \<and> nodes t' = nodes t \<and>
     (f \<longleftrightarrow> balance_of high = 0) \<and> height t' = (if f then Suc (height high) else height high) \<and>
     (\<exists>n. h' a = Some n \<and> (\<not> f \<longrightarrow> Parent n = ptr t'))"

lemma rebalance_right:
  assumes "rep h rb (Nd l a 1 r) k" "avl l" "avl r" "height r = height l + 2"
  shows "\<exists>f h' t'. rebalanced h rb (Nd l a 1 r) a r k f h' t'"
proof -
  obtain y c bc x where r: "r = Nd y c bc x" using assms(4) by (cases r) auto
  have b: "bc = 1 \<or> bc = 0 \<or> bc = -1" using assms(3) r by auto
  then consider "bc = 1" | "bc = 0" | y1 s bs y2 where "bc = -1" "y = Nd y1 s bs y2" using assms(3) r by (cases y) auto
  then show ?thesis
  proof cases
    case 1
    obtain h' where h': "RtlpRebalanceAvlTreeNode h a = Some (False, h')" "rep h' rb (Nd (Nd l a 0 y) c 0 x) k"
      by (rule single_right[OF assms(1)[unfolded r 1]])
    have "h' a = Some \<lparr>Parent = c, LeftChild = ptr l, RightChild = ptr y, Balance = 0\<rparr>" using h'(2) by (simp add: rep_def)
    then have "rebalanced h rb (Nd l a 1 r) a r k False h' (Nd (Nd l a 0 y) c 0 x)"
      using h' assms(2-4) r 1 by (auto simp: rebalanced_def balance_of_def)
    then show ?thesis by blast
  next
    case 2
    obtain h' where h': "RtlpRebalanceAvlTreeNode h a = Some (True, h')" "rep h' rb (Nd (Nd l a 1 y) c (-1) x) k"
      by (rule keep_right[OF assms(1)[unfolded r 2]])
    have "h' a = Some \<lparr>Parent = c, LeftChild = ptr l, RightChild = ptr y, Balance = 1\<rparr>" using h'(2) by (simp add: rep_def)
    then have "rebalanced h rb (Nd l a 1 r) a r k True h' (Nd (Nd l a 1 y) c (-1) x)"
      using h' assms(2-4) r 2 by (auto simp: rebalanced_def balance_of_def)
    then show ?thesis by blast
  next
    case 3
    let ?t = "Nd (Nd l a (if bs = 1 then -1 else 0) y1) s 0 (Nd y2 c (if bs = -1 then 1 else 0) x)"
    obtain h' where h': "RtlpRebalanceAvlTreeNode h a = Some (False, h')" "rep h' rb ?t k"
      by (rule double_right[OF assms(1)[unfolded r 3]])
    have "\<exists>n. h' a = Some n \<and> Parent n = s" using h'(2) by (simp add: rep_def)
    then have "rebalanced h rb (Nd l a 1 r) a r k False h' ?t"
      using h' assms(2-4) r 3 by (auto simp: rebalanced_def balance_of_def)
    then show ?thesis by blast
  qed
qed

lemma rebalance_left:
  assumes "rep h rb (Nd r a (-1) l) k" "avl l" "avl r" "height r = height l + 2"
  shows "\<exists>f h' t'. rebalanced h rb (Nd r a (-1) l) a r k f h' t'"
proof -
  obtain x c bc y where r: "r = Nd x c bc y" using assms(4) by (cases r) auto
  have b: "bc = 1 \<or> bc = 0 \<or> bc = -1" using assms(3) r by auto
  then consider "bc = -1" | "bc = 0" | y1 s bs y2 where "bc = 1" "y = Nd y1 s bs y2" using assms(3) r by (cases y) auto
  then show ?thesis
  proof cases
    case 1
    obtain h' where h': "RtlpRebalanceAvlTreeNode h a = Some (False, h')" "rep h' rb (Nd x c 0 (Nd y a 0 l)) k"
      by (rule single_left[OF assms(1)[unfolded r 1]])
    have "h' a = Some \<lparr>Parent = c, LeftChild = ptr y, RightChild = ptr l, Balance = 0\<rparr>" using h'(2) by (simp add: rep_def)
    then have "rebalanced h rb (Nd r a (-1) l) a r k False h' (Nd x c 0 (Nd y a 0 l))"
      using h' assms(2-4) r 1 by (auto simp: rebalanced_def balance_of_def)
    then show ?thesis by blast
  next
    case 2
    obtain h' where h': "RtlpRebalanceAvlTreeNode h a = Some (True, h')" "rep h' rb (Nd x c 1 (Nd y a (-1) l)) k"
      by (rule keep_left[OF assms(1)[unfolded r 2]])
    have "h' a = Some \<lparr>Parent = c, LeftChild = ptr y, RightChild = ptr l, Balance = -1\<rparr>" using h'(2) by (simp add: rep_def)
    then have "rebalanced h rb (Nd r a (-1) l) a r k True h' (Nd x c 1 (Nd y a (-1) l))"
      using h' assms(2-4) r 2 by (auto simp: rebalanced_def balance_of_def)
    then show ?thesis by blast
  next
    case 3
    let ?t = "Nd (Nd x c (if bs = 1 then -1 else 0) y1) s 0 (Nd y2 a (if bs = -1 then 1 else 0) l)"
    obtain h' where h': "RtlpRebalanceAvlTreeNode h a = Some (False, h')" "rep h' rb ?t k"
      by (rule double_left[OF assms(1)[unfolded r 3]])
    have "\<exists>n. h' a = Some n \<and> Parent n = s" using h'(2) by (simp add: rep_def)
    then have "rebalanced h rb (Nd r a (-1) l) a r k False h' ?t"
      using h' assms(2-4) r 3 by (auto simp: rebalanced_def balance_of_def)
    then show ?thesis by blast
  qed
qed

section \<open>Paths\<close>

text \<open>The balance along a path, for a subtree of height \<open>n\<close> at its place, and the height of the whole.\<close>

fun path_avl :: "nat \<Rightarrow> frame list \<Rightarrow> bool" where
  "path_avl n [] = True"
| "path_avl n (InLeft a b r # k) \<longleftrightarrow> b = int (height r) - int n \<and> \<bar>b\<bar> \<le> 1 \<and> avl r \<and> path_avl (Suc (max n (height r))) k"
| "path_avl n (InRight l a b # k) \<longleftrightarrow> b = int n - int (height l) \<and> \<bar>b\<bar> \<le> 1 \<and> avl l \<and> path_avl (Suc (max (height l) n)) k"

fun path_height :: "nat \<Rightarrow> frame list \<Rightarrow> nat" where
  "path_height n [] = n"
| "path_height n (InLeft a b r # k) = path_height (Suc (max n (height r))) k"
| "path_height n (InRight l a b # k) = path_height (Suc (max (height l) n)) k"

lemma avl_plug: "avl (plug t k) \<longleftrightarrow> avl t \<and> path_avl (height t) k"
  by (induction t k rule: plug.induct) auto

lemma height_plug: "height (plug t k) = path_height (height t) k"
  by (induction t k rule: plug.induct) auto

lemma is_left:
  assumes "rep h rb t k" "t \<noteq> Lf"
  shows "RtlIsLeftChild h (ptr t) = Some (case k of InLeft a b r # _ \<Rightarrow> True | _ \<Rightarrow> False)"
    and "RtlIsRightChild h (ptr t) = Some (case k of InLeft a b r # _ \<Rightarrow> False | _ \<Rightarrow> True)"
    and "\<exists>n. h (ptr t) = Some n \<and> Parent n = up k"
proof -
  obtain l a b r where t: "t = Nd l a b r" using assms(2) by (cases t) auto
  have g: "good (before k @ (nodes l @ a # nodes r) @ after k)" using assms(1) t by (simp add: rep_def)
  have h: "h a = Some \<lparr>Parent = up k, LeftChild = ptr l, RightChild = ptr r, Balance = b\<rparr>" using assms(1) t rep_node by blast
  then show "\<exists>n. h (ptr t) = Some n \<and> Parent n = up k" by (simp add: t)
  have p: "path_at h rb a k" using assms(1) t by (simp add: rep_def)
  have n: "ptr u \<noteq> a" if "set (nodes u) \<subseteq> set (before k @ after k)" for u
    using that g ptr_in[of u] by (cases "ptr u = 0") (auto simp: good_def)
  show "RtlIsLeftChild h (ptr t) = Some (case k of InLeft a b r # _ \<Rightarrow> True | _ \<Rightarrow> False)"
    using p h g n by (cases k rule: up.cases) (auto simp: RtlIsLeftChild_def t good_def)
  show "RtlIsRightChild h (ptr t) = Some (case k of InLeft a b r # _ \<Rightarrow> False | _ \<Rightarrow> True)"
    using p h g n by (cases k rule: up.cases) (auto simp: RtlIsRightChild_def t good_def)
qed

end
