(* ===== verification/Avl_Walk.thy ===== *)
theory Avl_Walk
  imports Avl_Balance
begin

text \<open>Walking in the tree: the first and the last node below a place, and the neighbours of a node.\<close>

section \<open>Down\<close>

lemma rep_ptr_0: "rep h rb t k \<Longrightarrow> ptr t = 0 \<longleftrightarrow> t = Lf"
  by (rule ptr_0) (simp add: rep_def good_def)

lemma leftmost_ok:
  assumes "rep h rb t k" "t \<noteq> Lf"
  shows "\<exists>d b r k'. leftmost h (ptr t) = Some d \<and> plug (Nd Lf d b r) k' = plug t k \<and> before k' = before k"
  using assms
proof (induction t arbitrary: k)
  case (Nd l a b r)
  have l: "rep h rb l (InLeft a b r # k)" using Nd.prems(1) by (simp add: rep_move)
  note unf = leftmost.simps[of h a] rep_node[OF Nd.prems(1)] rep_ptr_0[OF l]
  show ?case
  proof (cases "l = Lf")
    case True
    then have "leftmost h a = Some a" by (simp add: unf)
    then show ?thesis using True by (intro exI[of _ a] exI[of _ b] exI[of _ r] exI[of _ k]) simp
  next
    case False
    then show ?thesis using Nd.IH(1)[OF l False] by (simp add: unf)
  qed
qed simp

lemma rightmost_ok:
  assumes "rep h rb t k" "t \<noteq> Lf"
  shows "\<exists>l d b k'. rightmost h (ptr t) = Some d \<and> plug (Nd l d b Lf) k' = plug t k \<and> after k' = after k"
  using assms
proof (induction t arbitrary: k)
  case (Nd l a b r)
  have r: "rep h rb r (InRight l a b # k)" using Nd.prems(1) by (simp add: rep_move)
  note unf = rightmost.simps[of h a] rep_node[OF Nd.prems(1)] rep_ptr_0[OF r]
  show ?case
  proof (cases "r = Lf")
    case True
    then have "rightmost h a = Some a" by (simp add: unf)
    then show ?thesis using True by (intro exI[of _ l] exI[of _ a] exI[of _ b] exI[of _ k]) simp
  next
    case False
    then show ?thesis using Nd.IH(2)[OF r False] by (simp add: unf)
  qed
qed simp

lemma leftmost_hd:
  assumes "rep h rb t k" "t \<noteq> Lf"
  shows "leftmost h (ptr t) = Some (hd (nodes t))"
proof -
  obtain d b r k' where d: "leftmost h (ptr t) = Some d" "plug (Nd Lf d b r) k' = plug t k" "before k' = before k" using leftmost_ok[OF assms] by blast
  have "nodes t @ after k = d # nodes r @ after k'" using arg_cong[OF d(2), of nodes] d(3) by (simp add: nodes_plug)
  moreover have "nodes t \<noteq> []" using assms(2) by (cases t) auto
  ultimately have "hd (nodes t) = d" by (metis hd_append2 list.sel(1))
  with d(1) show ?thesis by simp
qed

lemma rightmost_last:
  assumes "rep h rb t k" "t \<noteq> Lf"
  shows "rightmost h (ptr t) = Some (last (nodes t))"
proof -
  obtain l d b k' where d: "rightmost h (ptr t) = Some d" "plug (Nd l d b Lf) k' = plug t k" "after k' = after k" using rightmost_ok[OF assms] by blast
  have "before k @ nodes t = before k' @ nodes l @ [d]" using arg_cong[OF d(2), of nodes] d(3) by (simp add: nodes_plug)
  moreover have "nodes t \<noteq> []" using assms(2) by (cases t) auto
  ultimately have "last (nodes t) = d" by (metis append_assoc last_appendR last_snoc)
  with d(1) show ?thesis by simp
qed

text \<open>Every node of a tree is at a place.\<close>

lemma focus: "a \<in> set (nodes t) \<Longrightarrow> \<exists>l b r k'. plug t k = plug (Nd l a b r) k'"
proof (induction t arbitrary: k)
  case (Nd l x b r)
  then consider "a = x" | "a \<in> set (nodes l)" | "a \<in> set (nodes r)" by auto
  then show ?case
  proof cases
    case 2
    then show ?thesis using Nd.IH(1)[of "InLeft x b r # k"] by simp
  next
    case 3
    then show ?thesis using Nd.IH(2)[of "InRight l x b # k"] by simp
  qed auto
qed simp

lemma focus_rep:
  assumes "rep h rb t []" "a \<in> set (nodes t)"
  obtains l b r k where "t = plug (Nd l a b r) k" "rep h rb (Nd l a b r) k"
  using focus[OF assms(2), of "[]"] assms(1) rep_top by (metis plug.simps(1))

section \<open>Up\<close>

lemma up_while_right_ok:
  assumes "rep h rb t k" "t \<noteq> Lf"
  shows "\<exists>c. up_while_right h (ptr t) = Some c \<and> (after k = [] \<and> c = BalancedRoot \<or>
    (\<exists>t' a b r k'. c = ptr t' \<and> t' \<noteq> Lf \<and> rep h rb t' (InLeft a b r # k') \<and> after k = a # nodes r @ after k'))"
  using assms
proof (induction k arbitrary: t)
  case Nil
  have t: "ptr t \<noteq> BalancedRoot" using Nil ptr_in[of t] rep_ptr_0[OF Nil(1)] by (auto simp: rep_def good_def)
  have r: "h BalancedRoot = Some \<lparr>Parent = BalancedRoot, LeftChild = 0, RightChild = ptr t, Balance = rb\<rparr>" using Nil by (simp add: rep_def)
  then have "up_while_right h BalancedRoot = Some BalancedRoot" using t by (subst up_while_right.simps) (simp add: RtlIsRightChild_def)
  then have "up_while_right h (ptr t) = Some BalancedRoot"
    using is_left(2,3)[OF Nil] by (subst up_while_right.simps) auto
  then show ?case by simp
next
  case (Cons f k)
  show ?case
  proof (cases f)
    case (InLeft a b r)
    then have "up_while_right h (ptr t) = Some (ptr t)" using is_left(2)[OF Cons.prems] by (subst up_while_right.simps) simp
    then show ?thesis using Cons.prems InLeft by auto
  next
    case (InRight l a b)
    then have "up_while_right h (ptr t) = up_while_right h a"
      using is_left(2,3)[OF Cons.prems] by (subst up_while_right.simps) auto
    then show ?thesis using Cons.IH[of "Nd l a b t"] Cons.prems InRight by (simp add: rep_move)
  qed
qed

lemma RtlRealSuccessor_ok:
  assumes "rep h rb (Nd l a b r) k"
  shows "RtlRealSuccessor h a = Some (case nodes r @ after k of [] \<Rightarrow> 0 | x # _ \<Rightarrow> x)"
proof (cases "r = Lf")
  case False
  have r: "rep h rb r (InRight l a b # k)" using assms by (simp add: rep_move)
  have "nodes r \<noteq> []" using False by (cases r) auto
  then show ?thesis using leftmost_hd[OF r False] rep_node[OF assms] rep_ptr_0[OF r] False
    by (auto simp: RtlRealSuccessor_def neq_Nil_conv)
next
  case True
  obtain c where c: "up_while_right h a = Some c" "after k = [] \<and> c = BalancedRoot \<or>
      (\<exists>t' a b r k'. c = ptr t' \<and> t' \<noteq> Lf \<and> rep h rb t' (InLeft a b r # k') \<and> after k = a # nodes r @ after k')"
    using up_while_right_ok[OF assms tree.distinct(2)] unfolding ptr.simps by blast
  have unf: "RtlRealSuccessor h a = do { l \<leftarrow> RtlIsLeftChild h c; n \<leftarrow> h c; Some (if l then Parent n else 0) }"
    using rep_node[OF assms] True c(1) by (simp add: RtlRealSuccessor_def)
  from c(2) show ?thesis
  proof (elim disjE exE conjE)
    assume "after k = []" "c = BalancedRoot"
    moreover have "h BalancedRoot = Some n \<Longrightarrow> RtlIsLeftChild h BalancedRoot = Some False" for n
      using assms[unfolded rep_top[of h rb _ k]] by (auto simp: rep_def RtlIsLeftChild_def BalancedRoot_def)
    ultimately show ?thesis using unf True rep_root[OF assms] by auto
  next
    fix t' a' b' r' k'
    assume "c = ptr t'" "t' \<noteq> Lf" "rep h rb t' (InLeft a' b' r' # k')" "after k = a' # nodes r' @ after k'"
    then show ?thesis using unf True is_left(1,3)[of h rb t' "InLeft a' b' r' # k'"] by auto
  qed
qed

text \<open>The node before the first one is the root of the table.\<close>

lemma up_while_left_ok:
  assumes "rep h rb t k" "t \<noteq> Lf"
  shows "\<exists>t' k'. up_while_left h (ptr t) = Some (ptr t') \<and> t' \<noteq> Lf \<and> rep h rb t' k' \<and> (\<nexists>a b r k''. k' = InLeft a b r # k'') \<and> before k' = before k"
  using assms
proof (induction k arbitrary: t)
  case Nil
  then have "up_while_left h (ptr t) = Some (ptr t)" using is_left(1)[OF Nil] by (subst up_while_left.simps) simp
  then show ?case using Nil by (intro exI[of _ t] exI[of _ "[]"]) simp
next
  case (Cons f k)
  show ?case
  proof (cases f)
    case (InRight l a b)
    then have "up_while_left h (ptr t) = Some (ptr t)" using is_left(1)[OF Cons.prems] by (subst up_while_left.simps) simp
    then show ?thesis using Cons.prems InRight by (intro exI[of _ t] exI[of _ "f # k"]) simp
  next
    case (InLeft a b r)
    then have "up_while_left h (ptr t) = up_while_left h a"
      using is_left(1,3)[OF Cons.prems] by (subst up_while_left.simps) auto
    then show ?thesis using Cons.IH[of "Nd t a b r"] Cons.prems InLeft by (simp add: rep_move)
  qed
qed

lemma RtlRealPredecessor_ok:
  assumes "rep h rb (Nd l a b r) k"
  shows "RtlRealPredecessor h a = Some (last (BalancedRoot # before k @ nodes l))"
proof (cases "l = Lf")
  case False
  have l: "rep h rb l (InLeft a b r # k)" using assms by (simp add: rep_move)
  have "nodes l \<noteq> []" using False by (cases l) auto
  then show ?thesis using rightmost_last[OF l False] rep_node[OF assms] rep_ptr_0[OF l] False
    by (auto simp: RtlRealPredecessor_def)
next
  case True
  obtain t' k' where c: "up_while_left h a = Some (ptr t')" "t' \<noteq> Lf" "rep h rb t' k'" "\<nexists>a b r k''. k' = InLeft a b r # k''" "before k' = before k"
    using up_while_left_ok[OF assms tree.distinct(2)] unfolding ptr.simps by blast
  have "RtlRealPredecessor h a = Some (up k')"
    using rep_node[OF assms] True c(1,4) is_left(2,3)[OF c(3,2)] by (cases k' rule: up.cases) (auto simp: RtlRealPredecessor_def)
  also have "up k' = last (BalancedRoot # before k')" using c(4) by (cases k' rule: up.cases) auto
  finally show ?thesis using True c(5) by simp
qed

end
