(* ===== verification/Avl_Insert.thy ===== *)
theory Avl_Insert
  imports Avl_Balance
begin

text \<open>Inserting a node: the loop up the tree keeps it balanced, and the depth of the table is the height of the tree.\<close>

text \<open>The loop is entered at a subtree that has grown by one level, and ends with a balanced tree of the same nodes
  whose height has grown exactly when the loop says so.\<close>

definition inserted :: "tree \<Rightarrow> frame list \<Rightarrow> links \<Rightarrow> bool \<Rightarrow> bool" where
  "inserted t k h' d \<longleftrightarrow> (\<exists>t' rb. rep h' rb t' [] \<and> avl t' \<and> nodes t' = nodes (plug t k) \<and>
     height t' = (if d then Suc (path_height (height t - 1) k) else path_height (height t - 1) k))"

lemma inserted_cong:
  "nodes (plug t k) = nodes (plug t0 k0) \<Longrightarrow> path_height (height t - 1) k = path_height (height t0 - 1) k0 \<Longrightarrow> inserted t k h d = inserted t0 k0 h d"
  by (simp add: inserted_def)

lemma insertedI:
  assumes "rep h' rb t' k" "avl t'" "path_avl (height t') k" "nodes (plug t' k) = nodes (plug t k0)"
    and "path_height (height t - 1) k0 = path_height (height t') k"
  shows "inserted t k0 h' False"
  using assms rep_top[of h' rb t' k] avl_plug[of t' k] height_plug[of t' k] unfolding inserted_def
  by (auto intro!: exI[of _ "plug t' k"])

text \<open>A parent that leans to the other side, or to the side that has grown, ends the loop.\<close>

lemma insert_stops_left:
  assumes "rep h (-1) t (InLeft a b r # k)" "t \<noteq> Lf" "avl t" "path_avl (height t - 1) (InLeft a b r # k)" "balance_of t \<noteq> 0 \<or> height t = 1" "b \<noteq> 0"
  shows "\<exists>h' d. avl_insert_loop h (ptr t) a = Some (h', d) \<and> inserted t (InLeft a b r # k) h' d"
proof -
  have rep: "rep h (-1) (Nd t a b r) k" using assms(1) by (simp add: rep_move)
  have pos: "0 < height t" using assms(2) by (cases t) auto
  have p: "b = int (height r) - int (height t - 1)" "\<bar>b\<bar> \<le> 1" "avl r" "path_avl (Suc (max (height t - 1) (height r))) k"
    using assms(4) unfolding path_avl.simps by blast+
  note unf = avl_insert_loop.simps[of h "ptr t" a] is_left(1)[OF assms(1,2)] rep_node[OF rep]
  show ?thesis
  proof (cases "b = 1")
    case True
    obtain h1 where h1: "RtlSetBalance h a 0 = Some h1" "rep h1 (-1) (Nd t a 0 r) k" by (rule rep_balance[OF rep])
    obtain n where "h1 BalancedRoot = Some n" "Balance n = -1" using rep_root[OF h1(2)] by blast
    then have "avl_insert_loop h (ptr t) a = Some (h1, False)" using h1(1) True by (simp add: unf)
    moreover have hr: "height r = height t" using p(1) pos True by simp
    have "inserted t (InLeft a b r # k) h1 False"
      using h1(2) p assms(3) hr by (intro insertedI[of h1 "-1" "Nd t a 0 r" k]) (auto simp: nodes_plug)
    ultimately show ?thesis by blast
  next
    case False
    then have b: "b = -1" using assms(6) p(2) by linarith
    have hr: "height t = height r + 2" using p(1) b pos by simp
    from rebalance_left[OF rep[unfolded b] p(3) assms(3) hr] obtain f h' t' where R: "rebalanced h (-1) (Nd t a (-1) r) a t k f h' t'" by blast
    then have f: "\<not> f" using assms(5) hr by (auto simp: rebalanced_def)
    have "avl_insert_loop h (ptr t) a = Some (h', False)" using R b f by (simp add: unf rebalanced_def)
    moreover have "inserted t (InLeft a b r # k) h' False"
      using R f p(4) hr by (intro insertedI[of h' "-1" t' k]) (auto simp: rebalanced_def nodes_plug max_def)
    ultimately show ?thesis by blast
  qed
qed

lemma insert_stops_right:
  assumes "rep h (-1) t (InRight l a b # k)" "t \<noteq> Lf" "avl t" "path_avl (height t - 1) (InRight l a b # k)" "balance_of t \<noteq> 0 \<or> height t = 1" "b \<noteq> 0"
  shows "\<exists>h' d. avl_insert_loop h (ptr t) a = Some (h', d) \<and> inserted t (InRight l a b # k) h' d"
proof -
  have rep: "rep h (-1) (Nd l a b t) k" using assms(1) by (simp add: rep_move)
  have pos: "0 < height t" using assms(2) by (cases t) auto
  have p: "b = int (height t - 1) - int (height l)" "\<bar>b\<bar> \<le> 1" "avl l" "path_avl (Suc (max (height l) (height t - 1))) k"
    using assms(4) unfolding path_avl.simps by blast+
  note unf = avl_insert_loop.simps[of h "ptr t" a] is_left(1)[OF assms(1,2)] rep_node[OF rep]
  show ?thesis
  proof (cases "b = -1")
    case True
    obtain h1 where h1: "RtlSetBalance h a 0 = Some h1" "rep h1 (-1) (Nd l a 0 t) k" by (rule rep_balance[OF rep])
    obtain n where "h1 BalancedRoot = Some n" "Balance n = -1" using rep_root[OF h1(2)] by blast
    then have "avl_insert_loop h (ptr t) a = Some (h1, False)" using h1(1) True by (simp add: unf)
    moreover have hr: "height l = height t" using p(1) pos True by simp
    have "inserted t (InRight l a b # k) h1 False"
      using h1(2) p assms(3) hr by (intro insertedI[of h1 "-1" "Nd l a 0 t" k]) (auto simp: nodes_plug)
    ultimately show ?thesis by blast
  next
    case False
    then have b: "b = 1" using assms(6) p(2) by linarith
    have hr: "height t = height l + 2" using p(1) b pos by simp
    from rebalance_right[OF rep[unfolded b] p(3) assms(3) hr] obtain f h' t' where R: "rebalanced h (-1) (Nd l a 1 t) a t k f h' t'" by blast
    then have f: "\<not> f" using assms(5) hr by (auto simp: rebalanced_def)
    have "avl_insert_loop h (ptr t) a = Some (h', False)" using R b f by (simp add: unf rebalanced_def)
    moreover have "inserted t (InRight l a b # k) h' False"
      using R f p(4) hr by (intro insertedI[of h' "-1" t' k]) (auto simp: rebalanced_def nodes_plug max_def)
    ultimately show ?thesis by blast
  qed
qed

lemma avl_insert_loop_ok:
  assumes "rep h (-1) t k" "t \<noteq> Lf" "avl t" "path_avl (height t - 1) k" "balance_of t \<noteq> 0 \<or> height t = 1"
  shows "\<exists>h' d. avl_insert_loop h (ptr t) (up k) = Some (h', d) \<and> inserted t k h' d"
  using assms
proof (induction k arbitrary: h t)
  case Nil
  from rep_root_balance[OF Nil(1)] obtain h' where h': "RtlSetBalance h BalancedRoot 0 = Some h'" "rep h' 0 t []" .
  obtain n n' where "h BalancedRoot = Some n" "Balance n = -1" "h' BalancedRoot = Some n'" "Balance n' = 0"
    using rep_root[OF Nil(1)] rep_root[OF h'(2)] by blast
  then have "avl_insert_loop h (ptr t) (up []) = Some (h', True)"
    using is_left(1)[OF Nil(1,2)] h'(1) by (subst avl_insert_loop.simps) simp
  moreover have "0 < height t" using Nil(2) by (cases t) auto
  then have "inserted t [] h' True" using h'(2) Nil(3) unfolding inserted_def by auto
  ultimately show ?case by blast
next
  case (Cons fr k)
  have pos: "0 < height t" using Cons.prems(2) by (cases t) auto
  show ?case
  proof (cases fr)
    case (InLeft a b r)
    show ?thesis
    proof (cases "b = 0")
      case True
      have rep: "rep h (-1) (Nd t a b r) k" using Cons.prems(1) InLeft by (simp add: rep_move)
      obtain h1 where h1: "RtlSetBalance h a (-1) = Some h1" "rep h1 (-1) (Nd t a (-1) r) k" by (rule rep_balance[OF rep])
      have eq: "height r = height t - 1" using Cons.prems(4) InLeft True pos by auto
      have hr: "height r = height t - 1" "avl r" "path_avl (height t) k" using Cons.prems(4) InLeft eq pos by simp_all
      have "\<exists>h' d. avl_insert_loop h1 (ptr (Nd t a (-1) r)) (up k) = Some (h', d) \<and> inserted (Nd t a (-1) r) k h' d"
        using h1(2) Cons.prems(3) hr pos by (intro Cons.IH) (auto simp: balance_of_def max_def)
      moreover have "avl_insert_loop h (ptr t) (up (fr # k)) = avl_insert_loop h1 a (up k)"
        using h1(1) True InLeft is_left(1)[OF Cons.prems(1,2)] rep_node[OF rep] by (subst avl_insert_loop.simps) simp
      moreover have "inserted (Nd t a (-1) r) k h' d = inserted t (fr # k) h' d" for h' d
        using InLeft hr pos by (intro inserted_cong) (auto simp: nodes_plug max_def)
      ultimately show ?thesis by simp
    next
      case False
      show ?thesis using insert_stops_left[OF Cons.prems[unfolded InLeft] False] unfolding InLeft up.simps .
    qed
  next
    case (InRight l a b)
    show ?thesis
    proof (cases "b = 0")
      case True
      have rep: "rep h (-1) (Nd l a b t) k" using Cons.prems(1) InRight by (simp add: rep_move)
      obtain h1 where h1: "RtlSetBalance h a 1 = Some h1" "rep h1 (-1) (Nd l a 1 t) k" by (rule rep_balance[OF rep])
      have eq: "height l = height t - 1" using Cons.prems(4) InRight True pos by auto
      have hr: "height l = height t - 1" "avl l" "path_avl (height t) k" using Cons.prems(4) InRight eq pos by simp_all
      have "\<exists>h' d. avl_insert_loop h1 (ptr (Nd l a 1 t)) (up k) = Some (h', d) \<and> inserted (Nd l a 1 t) k h' d"
        using h1(2) Cons.prems(3) hr pos by (intro Cons.IH) (auto simp: balance_of_def max_def)
      moreover have "avl_insert_loop h (ptr t) (up (fr # k)) = avl_insert_loop h1 a (up k)"
        using h1(1) True InRight is_left(1)[OF Cons.prems(1,2)] rep_node[OF rep] by (subst avl_insert_loop.simps) simp
      moreover have "inserted (Nd l a 1 t) k h' d = inserted t (fr # k) h' d" for h' d
        using InRight hr pos by (intro inserted_cong) (auto simp: nodes_plug max_def)
      ultimately show ?thesis by simp
    next
      case False
      show ?thesis using insert_stops_right[OF Cons.prems[unfolded InRight] False] unfolding InRight up.simps .
    qed
  qed
qed

end
