(* ===== verification/Avl_Delete.thy ===== *)
theory Avl_Delete
  imports Avl_Balance
begin

text \<open>Deleting a node: the loop up the tree keeps it balanced; a node with two children is replaced by its neighbour.\<close>

section \<open>The loop\<close>

fun side :: "frame list \<Rightarrow> int" where
  "side (InLeft a b r # k) = -1"
| "side k = 1"

lemma side_right: "rep h rb t k \<Longrightarrow> t \<noteq> Lf \<Longrightarrow> \<exists>r. RtlIsRightChild h (ptr t) = Some r \<and> (if r then 1 else -1) = side k"
  using is_left(2)[of h rb t k] by (cases k rule: side.cases) auto

text \<open>The loop is entered at a subtree that has lost one level.\<close>

definition deleted :: "tree \<Rightarrow> frame list \<Rightarrow> links \<Rightarrow> bool \<Rightarrow> bool" where
  "deleted t k h' d \<longleftrightarrow> (\<exists>t' rb. rep h' rb t' [] \<and> avl t' \<and> nodes t' = nodes (plug t k) \<and>
     path_height (Suc (height t)) k = (if d then Suc (height t') else height t'))"

lemma deleted_cong:
  "nodes (plug t k) = nodes (plug t0 k0) \<Longrightarrow> path_height (Suc (height t)) k = path_height (Suc (height t0)) k0 \<Longrightarrow> deleted t k h d = deleted t0 k0 h d"
  by (simp add: deleted_def)

lemma deletedI:
  assumes "rep h' rb t' k" "avl t'" "path_avl (height t') k" "nodes (plug t' k) = nodes (plug t k0)"
    and "path_height (Suc (height t)) k0 = path_height (height t') k"
  shows "deleted t k0 h' False"
  using assms rep_top[of h' rb t' k] avl_plug[of t' k] height_plug[of t' k] unfolding deleted_def
  by (auto intro!: exI[of _ "plug t' k"])

lemma delete_up:
  assumes "rep h rb t k" "t \<noteq> Lf"
  shows "do { r \<leftarrow> RtlIsRightChild h (ptr t); p \<leftarrow> h (ptr t); avl_delete_loop h (Parent p) (if r then 1 else -1) } = avl_delete_loop h (up k) (side k)"
  using side_right[OF assms] is_left(3)[OF assms] by auto

lemma delete_rebalanced:
  assumes IH: "\<And>h t. rep h 0 t k \<Longrightarrow> avl t \<Longrightarrow> path_avl (Suc (height t)) k \<Longrightarrow>
      \<exists>h' d. avl_delete_loop h (up k) (side k) = Some (h', d) \<and> deleted t k h' d"
    and R: "rebalanced h 0 t0 a high k f h' t'" and n: "h a = Some n" "Balance n \<noteq> B" "Balance n \<noteq> 0"
    and t0: "t0 \<noteq> Lf" "path_avl (Suc (height high)) k" "nodes (plug t0 k) = nodes (plug t k0)"
      "path_height (Suc (height t)) k0 = path_height (Suc (height high)) k"
  shows "\<exists>h'' d. avl_delete_loop h a B = Some (h'', d) \<and> deleted t k0 h'' d"
proof -
  have r: "RtlpRebalanceAvlTreeNode h a = Some (f, h')" "rep h' 0 t' k" "avl t'" "nodes t' = nodes t0"
      "height t' = (if f then Suc (height high) else height high)"
    using R by (simp_all add: rebalanced_def)
  then have ne: "t' \<noteq> Lf" using t0(1) by (cases t0) auto
  have nn: "nodes (plug t' k) = nodes (plug t k0)" using t0(3) r(4) by (simp add: nodes_plug)
  show ?thesis
  proof (cases f)
    case True
    then have "avl_delete_loop h a B = Some (h', False)" using r(1) n by (simp add: avl_delete_loop.simps[of h a])
    moreover have "deleted t k0 h' False" using r True t0(2,4) nn by (intro deletedI[of h' 0 t' k]) simp_all
    ultimately show ?thesis by blast
  next
    case False
    have "\<exists>h'' d. avl_delete_loop h' (up k) (side k) = Some (h'', d) \<and> deleted t' k h'' d"
      using r False t0(2) by (intro IH) simp_all
    moreover obtain n' where "h' a = Some n'" "Parent n' = ptr t'" using R False by (auto simp: rebalanced_def)
    then have "avl_delete_loop h a B = avl_delete_loop h' (up k) (side k)"
      using r(1) n False delete_up[OF r(2) ne] by (simp add: avl_delete_loop.simps[of h a])
    moreover have "deleted t' k h'' d = deleted t k0 h'' d" for h'' d using r(5) False t0(4) nn by (intro deleted_cong) simp_all
    ultimately show ?thesis by simp
  qed
qed

lemma delete_step_left:
  assumes IH: "\<And>h t. rep h 0 t k \<Longrightarrow> avl t \<Longrightarrow> path_avl (Suc (height t)) k \<Longrightarrow>
      \<exists>h' d. avl_delete_loop h (up k) (side k) = Some (h', d) \<and> deleted t k h' d"
    and pre: "rep h 0 t (InLeft a b r # k)" "avl t" "path_avl (Suc (height t)) (InLeft a b r # k)"
  shows "\<exists>h' d. avl_delete_loop h a (-1) = Some (h', d) \<and> deleted t (InLeft a b r # k) h' d"
proof -
  have rep: "rep h 0 (Nd t a b r) k" using pre(1) by (simp add: rep_move)
  have p: "b = int (height r) - int (Suc (height t))" "\<bar>b\<bar> \<le> 1" "avl r" "path_avl (Suc (max (Suc (height t)) (height r))) k"
    using pre(3) unfolding path_avl.simps by blast+
  note unf = avl_delete_loop.simps[of h a] rep_node[OF rep]
  consider "b = -1" | "b = 0" | "b = 1" using p(2) by linarith
  then show ?thesis
  proof cases
    case 1
    obtain h1 where h1: "RtlSetBalance h a 0 = Some h1" "rep h1 0 (Nd t a 0 r) k" by (rule rep_balance[OF rep])
    have hr: "height r = height t" using p(1) 1 by simp
    have "\<exists>h' d. avl_delete_loop h1 (up k) (side k) = Some (h', d) \<and> deleted (Nd t a 0 r) k h' d"
      using h1(2) pre(2) p hr by (intro IH) simp_all
    moreover have "avl_delete_loop h a (-1) = avl_delete_loop h1 (up k) (side k)"
      using h1(1) 1 side_right[OF h1(2)] by (auto simp: unf)
    moreover have "deleted (Nd t a 0 r) k h' d = deleted t (InLeft a b r # k) h' d" for h' d
      using hr by (intro deleted_cong) (auto simp: nodes_plug)
    ultimately show ?thesis by simp
  next
    case 2
    obtain h1 where h1: "RtlSetBalance h a 1 = Some h1" "rep h1 0 (Nd t a 1 r) k" by (rule rep_balance[OF rep])
    have hr: "height r = Suc (height t)" using p(1) 2 by simp
    obtain n where "h1 BalancedRoot = Some n" "Balance n = 0" using rep_root[OF h1(2)] by blast
    then have "avl_delete_loop h a (-1) = Some (h1, False)" using h1(1) 2 by (simp add: unf)
    moreover have "deleted t (InLeft a b r # k) h1 False"
      using h1(2) p pre(2) hr by (intro deletedI[of h1 0 "Nd t a 1 r" k]) (auto simp: nodes_plug)
    ultimately show ?thesis by blast
  next
    case 3
    have hr: "height r = height t + 2" using p(1) 3 by simp
    from rebalance_right[OF rep[unfolded 3] pre(2) p(3) hr] obtain f h' t' where R: "rebalanced h 0 (Nd t a 1 r) a r k f h' t'" by blast
    then show ?thesis using 3 p(4) hr
      by (intro delete_rebalanced[OF IH R rep_node[OF rep]]) (auto simp: nodes_plug max_def)
  qed
qed

lemma delete_step_right:
  assumes IH: "\<And>h t. rep h 0 t k \<Longrightarrow> avl t \<Longrightarrow> path_avl (Suc (height t)) k \<Longrightarrow>
      \<exists>h' d. avl_delete_loop h (up k) (side k) = Some (h', d) \<and> deleted t k h' d"
    and pre: "rep h 0 t (InRight l a b # k)" "avl t" "path_avl (Suc (height t)) (InRight l a b # k)"
  shows "\<exists>h' d. avl_delete_loop h a 1 = Some (h', d) \<and> deleted t (InRight l a b # k) h' d"
proof -
  have rep: "rep h 0 (Nd l a b t) k" using pre(1) by (simp add: rep_move)
  have p: "b = int (Suc (height t)) - int (height l)" "\<bar>b\<bar> \<le> 1" "avl l" "path_avl (Suc (max (height l) (Suc (height t)))) k"
    using pre(3) unfolding path_avl.simps by blast+
  note unf = avl_delete_loop.simps[of h a] rep_node[OF rep]
  consider "b = 1" | "b = 0" | "b = -1" using p(2) by linarith
  then show ?thesis
  proof cases
    case 1
    obtain h1 where h1: "RtlSetBalance h a 0 = Some h1" "rep h1 0 (Nd l a 0 t) k" by (rule rep_balance[OF rep])
    have hr: "height l = height t" using p(1) 1 by simp
    have "\<exists>h' d. avl_delete_loop h1 (up k) (side k) = Some (h', d) \<and> deleted (Nd l a 0 t) k h' d"
      using h1(2) pre(2) p hr by (intro IH) simp_all
    moreover have "avl_delete_loop h a 1 = avl_delete_loop h1 (up k) (side k)"
      using h1(1) 1 side_right[OF h1(2)] by (auto simp: unf)
    moreover have "deleted (Nd l a 0 t) k h' d = deleted t (InRight l a b # k) h' d" for h' d
      using hr by (intro deleted_cong) (auto simp: nodes_plug)
    ultimately show ?thesis by simp
  next
    case 2
    obtain h1 where h1: "RtlSetBalance h a (-1) = Some h1" "rep h1 0 (Nd l a (-1) t) k" by (rule rep_balance[OF rep])
    have hr: "height l = Suc (height t)" using p(1) 2 by simp
    obtain n where "h1 BalancedRoot = Some n" "Balance n = 0" using rep_root[OF h1(2)] by blast
    then have "avl_delete_loop h a 1 = Some (h1, False)" using h1(1) 2 by (simp add: unf)
    moreover have "deleted t (InRight l a b # k) h1 False"
      using h1(2) p pre(2) hr by (intro deletedI[of h1 0 "Nd l a (-1) t" k]) (auto simp: nodes_plug)
    ultimately show ?thesis by blast
  next
    case 3
    have hr: "height l = height t + 2" using p(1) 3 by simp
    from rebalance_left[OF rep[unfolded 3] pre(2) p(3) hr] obtain f h' t' where R: "rebalanced h 0 (Nd l a (-1) t) a l k f h' t'" by blast
    then show ?thesis using 3 p(4) hr
      by (intro delete_rebalanced[OF IH R rep_node[OF rep]]) (auto simp: nodes_plug max_def)
  qed
qed

lemma avl_delete_loop_ok:
  assumes "rep h 0 t k" "avl t" "path_avl (Suc (height t)) k"
  shows "\<exists>h' d. avl_delete_loop h (up k) (side k) = Some (h', d) \<and> deleted t k h' d"
  using assms
proof (induction k arbitrary: h t)
  case Nil
  from rep_root_balance[OF Nil(1)] obtain h' where h': "RtlSetBalance h BalancedRoot (-1) = Some h'" "rep h' (-1) t []" .
  obtain n n' where "h BalancedRoot = Some n" "Balance n = 0" "h' BalancedRoot = Some n'" "Balance n' = -1"
    using rep_root[OF Nil(1)] rep_root[OF h'(2)] by blast
  then have "avl_delete_loop h (up []) (side []) = Some (h', True)" using h'(1) by (subst avl_delete_loop.simps) simp
  moreover have "deleted t [] h' True" using h'(2) Nil(2) unfolding deleted_def by auto
  ultimately show ?case by blast
next
  case (Cons fr k)
  show ?case
  proof (cases fr)
    case (InLeft a b r)
    show ?thesis using delete_step_left[OF Cons.IH Cons.prems[unfolded InLeft]] unfolding InLeft by simp
  next
    case (InRight l a b)
    show ?thesis using delete_step_right[OF Cons.IH Cons.prems[unfolded InRight]] unfolding InRight by simp
  qed
qed

section \<open>Memory stays allocated\<close>

text \<open>Every result of an operation has the allocated nodes of \<open>h\<close>.\<close>

definition keeps :: "links \<Rightarrow> ('r \<Rightarrow> links) \<Rightarrow> 'r option \<Rightarrow> bool" where
  "keeps h mem f \<longleftrightarrow> (\<forall>y. f = Some y \<longrightarrow> dom (mem y) = dom h)"

lemma keeps_bind: "keeps h id f \<Longrightarrow> (\<And>h1. dom h1 = dom h \<Longrightarrow> keeps h mem (g h1)) \<Longrightarrow> keeps h mem (f \<bind> g)"
  and keeps_read: "(\<And>x. keeps h mem (g' x)) \<Longrightarrow> keeps h mem (f' \<bind> g')"
  and keeps_if: "keeps h mem u \<Longrightarrow> keeps h mem v \<Longrightarrow> keeps h mem (if c then u else v)"
  and keeps_Some: "dom (mem y) = dom h \<Longrightarrow> keeps h mem (Some y)"
  and keeps_dom: "keeps h1 mem u \<Longrightarrow> dom h1 = dom h \<Longrightarrow> keeps h mem u"
  by (cases f; cases f'; simp add: keeps_def)+

lemma keeps_set:
  "dom h1 = dom h \<Longrightarrow> keeps h id (RtlSetParent h1 p v)" "dom h1 = dom h \<Longrightarrow> keeps h id (set_LeftChild h1 p v)"
  "dom h1 = dom h \<Longrightarrow> keeps h id (set_RightChild h1 p v)" "dom h1 = dom h \<Longrightarrow> keeps h id (RtlSetBalance h1 p w)"
  unfolding RtlSetParent_def set_LeftChild_def set_RightChild_def RtlSetBalance_def set_field_def keeps_def
  by (cases "h1 p"; auto)+

lemma promote_keeps: "dom h1 = dom h \<Longrightarrow> keeps h id (RtlpPromoteAvlTreeNode h1 n)"
  unfolding RtlpPromoteAvlTreeNode_def Let_def
  by (rule keeps_bind keeps_read keeps_if keeps_set keeps_Some | simp)+

lemma rebalance_keeps: "keeps h snd (RtlpRebalanceAvlTreeNode h n)"
  unfolding RtlpRebalanceAvlTreeNode_def Let_def
  by (rule promote_keeps keeps_bind keeps_read keeps_if keeps_set keeps_Some | simp)+

lemma keeps_rebalance:
  "(\<And>f h2. dom h2 = dom h1 \<Longrightarrow> keeps h1 mem (g (f, h2))) \<Longrightarrow> keeps h1 mem (RtlpRebalanceAvlTreeNode h1 n \<bind> g)"
proof (cases "RtlpRebalanceAvlTreeNode h1 n")
  case (Some y)
  assume g: "\<And>f h2. dom h2 = dom h1 \<Longrightarrow> keeps h1 mem (g (f, h2))"
  have "dom (snd y) = dom h1" using rebalance_keeps[of h1 n] Some by (simp add: keeps_def)
  then show ?thesis using g[of "snd y" "fst y"] Some by simp
qed (simp add: keeps_def)

lemma delete_loop_keeps: "keeps h fst (avl_delete_loop h p B)"
proof -
  have "dom (fst y) = dom h" if "avl_delete_loop h p B = Some y" for y
  proof (rule avl_delete_loop.raw_induct[where P = "\<lambda>h p B y. dom (fst y) = dom h", OF _ that])
    fix f :: "links \<Rightarrow> nat \<Rightarrow> int \<Rightarrow> (links \<times> bool) option" and h p B y
    assume "\<And>h p B y. f h p B = Some y \<Longrightarrow> dom (fst y) = dom h"
    then have ih: "dom h1 = dom h2 \<Longrightarrow> keeps h2 fst (f h1 p B)" for h1 h2 p B by (simp add: keeps_def)
    assume y: "do {
       n \<leftarrow> h p;
       if Balance n = B then do {
         h \<leftarrow> RtlSetBalance h p 0; r \<leftarrow> RtlIsRightChild h p; f h (Parent n) (if r then 1 else -1) }
       else if Balance n = 0 then do { h \<leftarrow> RtlSetBalance h p (- B); r \<leftarrow> h BalancedRoot; Some (h, Balance r \<noteq> 0) }
       else do {
         (stop, h) \<leftarrow> RtlpRebalanceAvlTreeNode h p;
         if stop then Some (h, False)
         else do {
           n \<leftarrow> h p; let p = Parent n; r \<leftarrow> RtlIsRightChild h p; n \<leftarrow> h p; f h (Parent n) (if r then 1 else -1) } } } = Some y"
      (is "?body = _")
    have "keeps h fst ?body" unfolding Let_def
      by (rule keeps_rebalance ih keeps_bind keeps_read keeps_if keeps_set keeps_Some | simp only: prod.case | simp)+
    with y show "dom (fst y) = dom h" by (simp add: keeps_def)
  qed
  then show ?thesis by (simp add: keeps_def)
qed

section \<open>Unlinking and replacing\<close>

text \<open>A node with at most one child gives its place to it.\<close>

lemma unlink_ok:
  assumes "rep h rb (Nd l d b r) k" "l = Lf \<or> r = Lf" "c = (if l \<noteq> Lf then l else r)"
  obtains h1 h2 q where "h (up k) = Some q" "RtlIsLeftChild h d = Some (LeftChild q = d)" "(if LeftChild q = d then -1 else 1) = side k"
    "(if LeftChild q = d then set_LeftChild h (up k) (ptr c) else set_RightChild h (up k) (ptr c)) = Some h1"
    "(if ptr c \<noteq> 0 then RtlSetParent h1 (ptr c) (up k) else Some h1) = Some h2" "rep h2 rb c k" "h2 d = h d"
proof -
  have g: "good (before k @ (nodes l @ d # nodes r) @ after k)" using assms(1) by (simp add: rep_def)
  have m: "mset (nodes c) = mset (nodes l) + mset (nodes r)" "set (nodes c) \<subseteq> set (nodes l @ d # nodes r)" using assms(2,3) by auto
  have gd: "good (d # before k @ nodes c @ after k)" by (rule good_perm[OF g]) (simp add: m(1))
  have gc: "good (before k @ after k)" "d \<notin> set (before k @ after k)" "d \<noteq> 0" "d \<notin> set (nodes c)" "set (nodes c) \<inter> set (before k @ after k) = {}"
      "BalancedRoot \<notin> set (nodes c)" "distinct (nodes c)" "0 \<notin> set (nodes c)" "good (before k @ nodes c @ after k)"
    using gd by (auto simp: good_def)
  have u: "up k \<noteq> d" "up k \<notin> set (nodes c)" using up_notin[OF g] m(2) by auto
  have t: "path_at h rb d k" "tree_at h d c" using assms by (auto simp: rep_def)
  obtain h1 where h1: "relink h (up k) d (ptr c) = Some h1" "path_at h1 rb (ptr c) k" "\<And>x. x \<noteq> up k \<Longrightarrow> h1 x = h x"
    by (rule relink_ok[OF t(1) gc(1,3,2), of "ptr c"]) auto
  then obtain q where q: "h (up k) = Some q" by (cases "h (up k)") (auto simp: relink_def)
  have L: "RtlIsLeftChild h d = Some (LeftChild q = d)" using rep_node[OF assms(1)] q by (simp add: RtlIsLeftChild_def)
  have "tree_at h1 d c = tree_at h d c" using u(2) by (intro tree_at_cong) (auto intro!: h1(3))
  then have t1: "tree_at h1 d c" using t(2) by simp
  have "rep (reparent h1 c (up k)) rb c k"
    using reparent_ok(2)[OF t1] h1(2) gc path_at_reparent[of c k h1 "up k" rb "ptr c"] by (simp add: rep_def)
  moreover have "reparent h1 c (up k) d = h d" using gc(4) u(1) h1(3)[of d] by (simp add: reparent_other)
  moreover have "(if LeftChild q = d then -1 else 1) = side k"
    using is_left(1)[OF assms(1)] L by (cases k rule: side.cases) (auto split: list.splits frame.splits)
  ultimately show ?thesis using q L h1(1) reparent_ok(1)[OF t1 gc(7,8), of "up k"]
    by (intro that[of q h1 "reparent h1 c (up k)"]) (simp_all add: relink_def)
qed

end
