(* ===== verification/Avl_Nodes.thy ===== *)
theory Avl_Nodes
  imports Avl_Walk Avl_Insert Avl_Delete
begin

text \<open>The whole of inserting a node and of deleting one: the tree stays balanced, its nodes are the old ones in the
  same order with the node added or left out, and the depth of the table is the height of the tree.\<close>

lemma rep_upd: "a \<notin> set (before k @ nodes t @ after k) \<Longrightarrow> a \<noteq> BalancedRoot \<Longrightarrow> rep (h(a := v)) rb t k = rep h rb t k"
  by (simp add: rep_def tree_at_upd path_at_upd)

section \<open>Inserting\<close>

lemma leaf_ok:
  assumes "rep h rb Lf k" "h new = Some \<lparr>Parent = p, LeftChild = 0, RightChild = 0, Balance = 0\<rparr>" "good (new # before k @ after k)"
  shows "\<exists>h'. (if side k = -1 then RtlInsertAsLeftChild h (up k) new else RtlInsertAsRightChild h (up k) new) = Some h' \<and> rep h' rb (Nd Lf new 0 Lf) k"
proof (cases k rule: up.cases)
  case 1
  then show ?thesis using assms
    by (auto simp: RtlInsertAsRightChild_def set_RightChild_def RtlSetParent_def set_field_def rep_def good_def)
next
  case (2 a b r k')
  then show ?thesis using assms
    by (auto simp: RtlInsertAsLeftChild_def set_LeftChild_def RtlSetParent_def set_field_def rep_def good_def tree_at_upd path_at_upd)
next
  case (3 l a b k')
  then show ?thesis using assms
    by (auto simp: RtlInsertAsRightChild_def set_RightChild_def RtlSetParent_def set_field_def rep_def good_def tree_at_upd path_at_upd)
qed

definition search_result :: "frame list \<Rightarrow> TABLE_SEARCH_RESULT" where
  "search_result k = (if k = [] then TableEmptyTree else if side k = -1 then TableInsertAsLeft else TableInsertAsRight)"

lemma RtlpInsertAvlTreeNode_ok:
  assumes "rep (Links T) rb Lf k" "avl (plug Lf k)" "DepthOfTree T = of_nat (height (plug Lf k))"
    and "Links T new \<noteq> None" "good (new # before k @ after k)" "k \<noteq> [] \<Longrightarrow> np = up k"
  shows "\<exists>h' rb' t'. RtlpInsertAvlTreeNode T new np (search_result k) =
      Some (T\<lparr>Links := h', NumberGenericTableElements := NumberGenericTableElements T + 1, DepthOfTree := of_nat (height t')\<rparr>) \<and>
    rep h' rb' t' [] \<and> avl t' \<and> nodes t' = before k @ new # after k"
proof -
  obtain m where m: "Links T new = Some m" using assms(4) by auto
  define h0 where "h0 = (Links T)(new \<mapsto> \<lparr>Parent = Parent m, LeftChild = 0, RightChild = 0, Balance = 0\<rparr>)"
  have n: "new \<noteq> 0" "new \<notin> set (before k @ nodes Lf @ after k)" "new \<noteq> BalancedRoot" using assms(5) by (auto simp: good_def)
  have "rep h0 rb Lf k" unfolding h0_def using rep_upd[OF n(2,3)] assms(1) by blast
  from leaf_ok[OF this _ assms(5)] obtain h1
    where h1: "(if side k = -1 then RtlInsertAsLeftChild h0 (up k) new else RtlInsertAsRightChild h0 (up k) new) = Some h1" "rep h1 rb (Nd Lf new 0 Lf) k"
    by (auto simp: h0_def)
  have init: "do { h \<leftarrow> set_RightChild (Links T) new 0; h \<leftarrow> set_LeftChild h new 0; h \<leftarrow> RtlSetBalance h new 0; f h } = f h0" for f :: "links \<Rightarrow> 'b option"
    using m by (cases m) (simp add: set_RightChild_def set_LeftChild_def RtlSetBalance_def set_field_def h0_def)
  show ?thesis
  proof (cases "k = []")
    case True
    have "RtlpInsertAvlTreeNode T new np (search_result k) =
        Some (T\<lparr>Links := h1, NumberGenericTableElements := NumberGenericTableElements T + 1, DepthOfTree := of_nat (height (Nd Lf new 0 Lf))\<rparr>)"
      using h1(1) True unfolding RtlpInsertAvlTreeNode_def init by (simp add: search_result_def)
    then show ?thesis using h1(2) True by (intro exI[of _ h1] exI[of _ rb] exI[of _ "Nd Lf new 0 Lf"]) simp
  next
    case False
    obtain h2 where h2: "RtlSetBalance h1 BalancedRoot (-1) = Some h2" "rep h2 (-1) (Nd Lf new 0 Lf) k" by (rule rep_root_balance[OF h1(2)])
    obtain h' d where l: "avl_insert_loop h2 new (up k) = Some (h', d)" "inserted (Nd Lf new 0 Lf) k h' d"
      using avl_insert_loop_ok[OF h2(2)] assms(2) by (auto simp: avl_plug)
    then obtain t' rb' where t': "rep h' rb' t' []" "avl t'" "nodes t' = before k @ new # after k"
        "height t' = (if d then Suc (path_height 0 k) else path_height 0 k)" by (auto simp: inserted_def nodes_plug)
    have "(if d then DepthOfTree T + 1 else DepthOfTree T) = of_nat (height t')" using assms(3) t'(4) by (simp add: height_plug)
    then have "RtlpInsertAvlTreeNode T new np (search_result k) =
        Some (T\<lparr>Links := h', NumberGenericTableElements := NumberGenericTableElements T + 1, DepthOfTree := of_nat (height t')\<rparr>)"
      using h1(1) h2(1) l(1) False assms(6) unfolding RtlpInsertAvlTreeNode_def init
      by (cases T; cases "side k = -1"; cases d) (simp_all add: search_result_def Let_def)
    then show ?thesis using t' by blast
  qed
qed

section \<open>Deleting\<close>

text \<open>A node takes the place of another one.\<close>

lemma replace_ok:
  assumes "rep h rb (Nd l a b r) k" "good (d # before k @ nodes l @ a # nodes r @ after k)" "h a = Some n"
  shows "\<exists>h'. do {
      let h = h(d \<mapsto> n);
      isLeft \<leftarrow> RtlIsLeftChild h a;
      h \<leftarrow> (if isLeft then set_LeftChild h (Parent n) d else set_RightChild h (Parent n) d);
      h \<leftarrow> (if LeftChild n \<noteq> 0 then RtlSetParent h (LeftChild n) d else Some h);
      if RightChild n \<noteq> 0 then RtlSetParent h (RightChild n) d else Some h } = Some h' \<and> rep h' rb (Nd l d b r) k"
proof -
  have n: "n = \<lparr>Parent = up k, LeftChild = ptr l, RightChild = ptr r, Balance = b\<rparr>" using rep_node[OF assms(1)] assms(3) by simp
  have t: "path_at h rb a k" "tree_at h a l" "tree_at h a r" using assms(1) by (simp_all add: rep_def)
  have g: "d \<notin> set (nodes l)" "d \<notin> set (nodes r)" "d \<notin> set (before k)" "d \<notin> set (after k)" "d \<noteq> BalancedRoot" "d \<noteq> a" "a \<noteq> d" "a \<noteq> 0"
      "good (before k @ after k)" "a \<notin> set (before k @ after k)" "distinct (nodes l)" "0 \<notin> set (nodes l)" "distinct (nodes r)" "0 \<notin> set (nodes r)"
      "set (nodes l) \<inter> set (nodes r) = {}" "set (nodes r) \<inter> set (nodes l) = {}" "BalancedRoot \<notin> set (nodes l)" "BalancedRoot \<notin> set (nodes r)"
      "set (nodes l) \<inter> set (before k @ after k) = {}" "set (nodes r) \<inter> set (before k @ after k) = {}" "good (before k @ nodes l @ d # nodes r @ after k)"
    using assms(2) unfolding good_def by auto
  have u: "up k \<noteq> d" "up k \<noteq> a" "up k \<notin> set (nodes l)" "up k \<notin> set (nodes r)"
    using up_notin[of k "d # nodes l @ a # nodes r"] good_perm[OF assms(2), of "before k @ (d # nodes l @ a # nodes r) @ after k"] by auto
  define h1 where "h1 = h(d \<mapsto> n)"
  have p1: "path_at h1 rb a k" using t(1) g by (simp add: h1_def path_at_upd)
  obtain h2 where h2: "relink h1 (up k) a d = Some h2" "path_at h2 rb d k" "\<And>x. x \<noteq> up k \<Longrightarrow> h2 x = h1 x"
    by (rule relink_ok[OF p1 g(9,8,10), of d]) auto
  have c: "tree_at h2 a v = tree_at h a v" if "up k \<notin> set (nodes v)" "d \<notin> set (nodes v)" for v
  proof -
    have "tree_at h2 a v = tree_at h1 a v" using that by (intro tree_at_cong) (auto intro!: h2(3))
    then show ?thesis using that by (simp add: h1_def tree_at_upd)
  qed
  define h3 where "h3 = reparent h2 l d"
  have l2: "tree_at h2 a l" and r3: "tree_at h3 a r" using c t u g by (simp_all add: h3_def tree_at_reparent)
  define h4 where "h4 = reparent h3 r d"
  have "RtlIsLeftChild h1 a = do { q \<leftarrow> h1 (up k); Some (LeftChild q = a) }" using assms(3) n g by (simp add: RtlIsLeftChild_def h1_def)
  then have "do { isLeft \<leftarrow> RtlIsLeftChild h1 a; h \<leftarrow> (if isLeft then set_LeftChild h1 (up k) d else set_RightChild h1 (up k) d); f h } = f h2" for f :: "links \<Rightarrow> links option"
    using h2(1) by (cases "h1 (up k)") (simp_all add: relink_def)
  moreover have "Parent n = up k" "LeftChild n = ptr l" "RightChild n = ptr r" by (simp_all add: n)
  moreover have "(if ptr l \<noteq> 0 then RtlSetParent h2 (ptr l) d else Some h2) = Some h3" "(if ptr r \<noteq> 0 then RtlSetParent h3 (ptr r) d else Some h3) = Some h4"
    using reparent_ok(1)[OF l2, of d] reparent_ok(1)[OF r3, of d] g by (simp_all add: h3_def h4_def)
  ultimately have e: "do {
      let h = h(d \<mapsto> n);
      isLeft \<leftarrow> RtlIsLeftChild h a;
      h \<leftarrow> (if isLeft then set_LeftChild h (Parent n) d else set_RightChild h (Parent n) d);
      h \<leftarrow> (if LeftChild n \<noteq> 0 then RtlSetParent h (LeftChild n) d else Some h);
      if RightChild n \<noteq> 0 then RtlSetParent h (RightChild n) d else Some h } = Some h4"
    unfolding Let_def h1_def[symmetric] by (simp only: bind.bind_lunit)
  have "h4 d = Some \<lparr>Parent = up k, LeftChild = ptr l, RightChild = ptr r, Balance = b\<rparr>"
    using h2(3)[of d] u(1) g by (simp add: h4_def h3_def reparent_other h1_def n)
  moreover have "tree_at h4 d l" "tree_at h4 d r" "path_at h4 rb d k"
    using reparent_ok(2)[OF l2, of d] reparent_ok(2)[OF r3, of d] h2(2) g by (simp_all add: h4_def h3_def tree_at_reparent path_at_reparent)
  ultimately have "rep h4 rb (Nd l d b r) k" using g by (simp add: rep_def)
  with e show ?thesis by blast
qed

lemma replace_in_tree:
  assumes "rep h rb t []" "avl t" "nodes t = xs @ a # ys" "good (d # nodes t)" "h d \<noteq> None"
  shows "\<exists>h' t'. do { n \<leftarrow> h a; _ \<leftarrow> h d; let h = h(d \<mapsto> n); isLeft \<leftarrow> RtlIsLeftChild h a;
       h \<leftarrow> (if isLeft then set_LeftChild h (Parent n) d else set_RightChild h (Parent n) d);
       h \<leftarrow> (if LeftChild n \<noteq> 0 then RtlSetParent h (LeftChild n) d else Some h);
       if RightChild n \<noteq> 0 then RtlSetParent h (RightChild n) d else Some h } = Some h' \<and>
    rep h' rb t' [] \<and> avl t' \<and> height t' = height t \<and> nodes t' = xs @ d # ys"
proof -
  obtain l b r k where f: "t = plug (Nd l a b r) k" "rep h rb (Nd l a b r) k" by (rule focus_rep[OF assms(1), of a]) (use assms(3) in auto)
  have "a \<notin> set xs" "a \<notin> set ys" using assms(4) unfolding assms(3) good_def by auto
  moreover have "xs @ a # ys = (before k @ nodes l) @ a # nodes r @ after k" using assms(3) f(1) by (simp add: nodes_plug)
  ultimately have eq: "before k @ nodes l = xs" "nodes r @ after k = ys" using append_Cons_eq_iff[of a xs ys "before k @ nodes l" "nodes r @ after k"] by blast+
  have "good (d # before k @ nodes l @ a # nodes r @ after k)" using assms(4) f(1) by (simp add: nodes_plug)
  moreover obtain n where n: "h a = Some n" using rep_node[OF f(2)] by blast
  moreover obtain m where m: "h d = Some m" using assms(5) by blast
  ultimately obtain h' where h': "do { n \<leftarrow> h a; _ \<leftarrow> h d; let h = h(d \<mapsto> n); isLeft \<leftarrow> RtlIsLeftChild h a;
       h \<leftarrow> (if isLeft then set_LeftChild h (Parent n) d else set_RightChild h (Parent n) d);
       h \<leftarrow> (if LeftChild n \<noteq> 0 then RtlSetParent h (LeftChild n) d else Some h);
       if RightChild n \<noteq> 0 then RtlSetParent h (RightChild n) d else Some h } = Some h'" "rep h' rb (Nd l d b r) k"
    using replace_ok[OF f(2) _ n, of d] by auto
  let ?t = "plug (Nd l d b r) k"
  have "avl ?t" "height ?t = height t" using assms(2) f(1) by (auto simp: avl_plug height_plug)
  moreover have "nodes ?t = xs @ d # ys" by (simp add: nodes_plug eq[symmetric])
  ultimately show ?thesis using h' rep_top[of h' rb "Nd l d b r" k] by blast
qed

text \<open>The node that leaves its place is the node itself or a neighbour with at most one child.\<close>

definition picked :: "tree \<Rightarrow> nat \<Rightarrow> tree \<Rightarrow> frame list \<Rightarrow> nat \<Rightarrow> tree \<Rightarrow> tree \<Rightarrow> frame list \<Rightarrow> bool" where
  "picked l a r k d l' r' k' \<longleftrightarrow> (l' = Lf \<or> r' = Lf) \<and>
     (if d = a then before k' @ nodes l' @ nodes r' @ after k' = before k @ nodes l @ nodes r @ after k
      else \<exists>xs ys. before k' @ nodes l' @ nodes r' @ after k' = xs @ a # ys \<and> before k @ nodes l @ nodes r @ after k = xs @ d # ys)"

lemma pick_ok:
  assumes "rep h rb (Nd l a b r) k" "h a = Some n"
  shows "\<exists>d l' b' r' k'. (if LeftChild n = 0 \<or> RightChild n = 0 then Some a
      else if Balance n \<ge> 0 then leftmost h (RightChild n) else rightmost h (LeftChild n)) = Some d \<and>
    plug (Nd l' d b' r') k' = plug (Nd l a b r) k \<and> picked l a r k d l' r' k'"
proof -
  have n: "n = \<lparr>Parent = up k, LeftChild = ptr l, RightChild = ptr r, Balance = b\<rparr>" using rep_node[OF assms(1)] assms(2) by simp
  have l: "rep h rb l (InLeft a b r # k)" and r: "rep h rb r (InRight l a b # k)" using assms(1) by (simp_all add: rep_move)
  have g: "a \<notin> set (before k @ nodes l)" "a \<notin> set (nodes r @ after k)" using assms(1) by (auto simp: rep_def good_def)
  note z = rep_ptr_0[OF l] rep_ptr_0[OF r]
  consider "l = Lf \<or> r = Lf" | "l \<noteq> Lf" "r \<noteq> Lf" "b \<ge> 0" | "l \<noteq> Lf" "r \<noteq> Lf" "\<not> b \<ge> 0" by blast
  then show ?thesis
  proof cases
    case 1
    then show ?thesis using z by (intro exI[of _ a] exI[of _ l] exI[of _ b] exI[of _ r] exI[of _ k]) (auto simp: n picked_def)
  next
    case 2
    obtain d b' r' k' where d: "leftmost h (ptr r) = Some d" "plug (Nd Lf d b' r') k' = plug r (InRight l a b # k)" "before k' = before k @ nodes l @ [a]"
      using leftmost_ok[OF r 2(2)] by auto
    have e: "nodes r @ after k = d # nodes r' @ after k'" using arg_cong[OF d(2), of nodes] d(3) by (simp add: nodes_plug)
    have "d \<noteq> a" using g(2) unfolding e by auto
    then have "picked l a r k d Lf r' k'" unfolding picked_def d(3)
      by simp (intro exI[of _ "before k @ nodes l"] exI[of _ "nodes r' @ after k'"], simp add: e)
    then show ?thesis using d(1,2) z 2 by (intro exI[of _ d] exI[of _ Lf] exI[of _ b'] exI[of _ r'] exI[of _ k']) (simp add: n)
  next
    case 3
    obtain l' d b' k' where d: "rightmost h (ptr l) = Some d" "plug (Nd l' d b' Lf) k' = plug l (InLeft a b r # k)" "after k' = a # nodes r @ after k"
      using rightmost_ok[OF l 3(1)] by auto
    have e: "before k @ nodes l = before k' @ nodes l' @ [d]" using arg_cong[OF d(2), of nodes] d(3) by (simp add: nodes_plug)
    have "d \<noteq> a" using g(1) unfolding e by auto
    moreover have "before k @ nodes l @ nodes r @ after k = (before k' @ nodes l') @ d # nodes r @ after k" using e by (metis append.assoc append_Cons append_Nil)
    ultimately have "picked l a r k d l' Lf k'" unfolding picked_def d(3)
      by simp (intro exI[of _ "before k' @ nodes l'"] exI[of _ "nodes r @ after k"], simp)
    then show ?thesis using d(1,2) z 3 by (intro exI[of _ d] exI[of _ l'] exI[of _ b'] exI[of _ Lf] exI[of _ k']) (simp add: n)
  qed
qed

lemma remove_ok:
  assumes "rep h rb (Nd l d b r) k" "l = Lf \<or> r = Lf" "avl (plug (Nd l d b r) k)" "h d = Some n"
  shows "\<exists>h' s rb' t'. do {
      isLeft \<leftarrow> RtlIsLeftChild h d;
      let Child = (if LeftChild n \<noteq> 0 then LeftChild n else RightChild n);
      h \<leftarrow> (if isLeft then set_LeftChild h (Parent n) Child else set_RightChild h (Parent n) Child);
      h \<leftarrow> (if Child \<noteq> 0 then RtlSetParent h Child (Parent n) else Some h);
      h \<leftarrow> RtlSetBalance h BalancedRoot 0;
      avl_delete_loop h (Parent n) (if isLeft then -1 else 1) } = Some (h', s) \<and>
    rep h' rb' t' [] \<and> avl t' \<and> nodes t' = before k @ nodes l @ nodes r @ after k \<and> h' d \<noteq> None \<and>
    height (plug (Nd l d b r) k) = (if s then Suc (height t') else height t')"
proof -
  define c where "c = (if l \<noteq> Lf then l else r)"
  obtain h1 h2 q where h: "h (up k) = Some q" "RtlIsLeftChild h d = Some (LeftChild q = d)" "(if LeftChild q = d then -1 else 1) = side k"
      "(if LeftChild q = d then set_LeftChild h (up k) (ptr c) else set_RightChild h (up k) (ptr c)) = Some h1"
      "(if ptr c \<noteq> 0 then RtlSetParent h1 (ptr c) (up k) else Some h1) = Some h2" "rep h2 rb c k" "h2 d = h d"
    by (rule unlink_ok[OF assms(1,2) c_def])
  obtain h3 where h3: "RtlSetBalance h2 BalancedRoot 0 = Some h3" "rep h3 0 c k" by (rule rep_root_balance[OF h(6)])
  have c: "avl c" "height (Nd l d b r) = Suc (height c)" "nodes c = nodes l @ nodes r" using assms(2,3) by (auto simp: c_def avl_plug)
  have p: "path_avl (Suc (height c)) k" using assms(3) c(2) by (simp only: avl_plug)
  obtain h' s where l: "avl_delete_loop h3 (up k) (side k) = Some (h', s)" "deleted c k h' s" using avl_delete_loop_ok[OF h3(2) c(1) p] by blast
  obtain t' rb' where t': "rep h' rb' t' []" "avl t'" "nodes t' = nodes (plug c k)"
      "path_height (Suc (height c)) k = (if s then Suc (height t') else height t')" using l(2) by (auto simp: deleted_def)
  have "d \<in> dom h3" using h3(1) h(7) assms(4) by (auto simp: RtlSetBalance_def set_field_def split: bind_splits)
  then have "h' d \<noteq> None" using delete_loop_keeps[of h3 "up k" "side k"] l(1) by (auto simp: keeps_def)
  moreover have "height (plug (Nd l d b r) k) = (if s then Suc (height t') else height t')" using t'(4) c(2) by (simp only: height_plug)
  moreover have n: "Parent n = up k" "(if LeftChild n \<noteq> 0 then LeftChild n else RightChild n) = ptr c"
    using rep_node[OF assms(1)] assms(1,2,4) rep_ptr_0[of h rb l "InLeft d b r # k"] by (auto simp: c_def rep_move)
  have "do {
      isLeft \<leftarrow> RtlIsLeftChild h d;
      let Child = (if LeftChild n \<noteq> 0 then LeftChild n else RightChild n);
      h \<leftarrow> (if isLeft then set_LeftChild h (Parent n) Child else set_RightChild h (Parent n) Child);
      h \<leftarrow> (if Child \<noteq> 0 then RtlSetParent h Child (Parent n) else Some h);
      h \<leftarrow> RtlSetBalance h BalancedRoot 0;
      avl_delete_loop h (Parent n) (if isLeft then -1 else 1) } = Some (h', s)"
    unfolding n Let_def h(2) bind.bind_lunit h(3,4,5) h3(1) l(1) ..
  ultimately show ?thesis using t' c(3) by (intro exI[of _ h'] exI[of _ s] exI[of _ rb'] exI[of _ t']) (simp add: nodes_plug)
qed

lemma RtlpDeleteAvlTreeNode_ok:
  assumes "rep (Links T) rb (Nd l a b r) k" "avl (plug (Nd l a b r) k)" "DepthOfTree T = of_nat (height (plug (Nd l a b r) k))"
  shows "\<exists>h' rb' t'. RtlpDeleteAvlTreeNode T a = Some (T\<lparr>Links := h', DepthOfTree := of_nat (height t')\<rparr>) \<and>
    rep h' rb' t' [] \<and> avl t' \<and> nodes t' = before k @ nodes l @ nodes r @ after k"
proof -
  let ?h = "Links T"
  obtain n where n: "?h a = Some n" using rep_node[OF assms(1)] by blast
  obtain d l' b' r' k' where d: "(if LeftChild n = 0 \<or> RightChild n = 0 then Some a
      else if Balance n \<ge> 0 then leftmost ?h (RightChild n) else rightmost ?h (LeftChild n)) = Some d"
      "plug (Nd l' d b' r') k' = plug (Nd l a b r) k" "picked l a r k d l' r' k'"
    using pick_ok[OF assms(1) n] by blast
  have rd: "rep ?h rb (Nd l' d b' r') k'" using assms(1) d(2) rep_top by metis
  obtain m where m: "?h d = Some m" using rep_node[OF rd] by blast
  have lr: "l' = Lf \<or> r' = Lf" using d(3) by (simp add: picked_def)
  let ?B = "do {
      isLeft \<leftarrow> RtlIsLeftChild ?h d;
      let Child = (if LeftChild m \<noteq> 0 then LeftChild m else RightChild m);
      h \<leftarrow> (if isLeft then set_LeftChild ?h (Parent m) Child else set_RightChild ?h (Parent m) Child);
      h \<leftarrow> (if Child \<noteq> 0 then RtlSetParent h Child (Parent m) else Some h);
      h \<leftarrow> RtlSetBalance h BalancedRoot 0;
      avl_delete_loop h (Parent m) (if isLeft then -1 else 1) }"
  obtain h' s rb' t' where R: "?B = Some (h', s)" "rep h' rb' t' []" "avl t'" "nodes t' = before k' @ nodes l' @ nodes r' @ after k'" "h' d \<noteq> None"
      "height (plug (Nd l' d b' r') k') = (if s then Suc (height t') else height t')"
    using remove_ok[OF rd lr _ m] assms(2) d(2) by auto
  have D: "(if s then DepthOfTree T - 1 else DepthOfTree T) = of_nat (height t')" using R(6) assms(3) d(2) by simp
  let ?R = "\<lambda>h. do { n \<leftarrow> h a; _ \<leftarrow> h d; let h = h(d \<mapsto> n); isLeft \<leftarrow> RtlIsLeftChild h a;
       h \<leftarrow> (if isLeft then set_LeftChild h (Parent n) d else set_RightChild h (Parent n) d);
       h \<leftarrow> (if LeftChild n \<noteq> 0 then RtlSetParent h (LeftChild n) d else Some h);
       if RightChild n \<noteq> 0 then RtlSetParent h (RightChild n) d else Some h }"
  have "RtlpDeleteAvlTreeNode T a = do { (h, s) \<leftarrow> ?B; h \<leftarrow> (if a = d then Some h else ?R h);
      Some (T\<lparr>DepthOfTree := if s then DepthOfTree T - 1 else DepthOfTree T, Links := h\<rparr>) }"
    unfolding RtlpDeleteAvlTreeNode_def Let_def n bind.bind_lunit d(1) m by (cases "a = d") (simp_all add: bind_assoc cong: if_cong)
  then have e: "RtlpDeleteAvlTreeNode T a = do { h \<leftarrow> (if a = d then Some h' else ?R h'); Some (T\<lparr>Links := h, DepthOfTree := of_nat (height t')\<rparr>) }"
    unfolding R(1) using D by (cases T) simp
  show ?thesis
  proof (cases "d = a")
    case True
    then show ?thesis using R(2,3,4) d(3) e by (auto simp: picked_def)
  next
    case False
    then obtain xs ys where xy: "nodes t' = xs @ a # ys" "before k @ nodes l @ nodes r @ after k = xs @ d # ys" using d(3) R(4) by (auto simp: picked_def)
    have g: "good (before k @ nodes l @ a # nodes r @ after k)" using assms(1) by (simp add: rep_def)
    have "mset (before k @ nodes l @ a # nodes r @ after k) = add_mset a (mset (xs @ d # ys))" by (simp flip: xy(2))
    then have gd: "good (d # nodes t')" using xy(1) by (intro good_perm[OF g]) simp
    obtain h2 t2 where h2: "?R h' = Some h2" "rep h2 rb' t2 []" "avl t2" "height t2 = height t'" "nodes t2 = xs @ d # ys"
      using replace_in_tree[OF R(2,3) xy(1) gd R(5)] by blast
    have "RtlpDeleteAvlTreeNode T a = Some (T\<lparr>Links := h2, DepthOfTree := of_nat (height t2)\<rparr>)"
      using False unfolding e h2(1,4) by simp
    then show ?thesis using h2(2,3,5) xy(2) by (intro exI[of _ h2] exI[of _ rb'] exI[of _ t2]) simp
  qed
qed

end
