(* ===== verification/Avl_Table.thy ===== *)
theory Avl_Table
  imports Avl_Nodes
begin

text \<open>The operations of an AVL table and what they do to the ordered list of its elements, each with the address of
  its node. The compare routine orders the data by a key.\<close>

definition compare_by :: "('a \<Rightarrow> 'k::linorder) \<Rightarrow> 'a \<Rightarrow> 'a \<Rightarrow> RTL_GENERIC_COMPARE_RESULTS" where
  "compare_by key x y = (if key x < key y then GenericLessThan else if key y < key x then GenericGreaterThan else GenericEqual)"

section \<open>Searching\<close>

text \<open>The place where an element with the key of \<open>x\<close> would go.\<close>

definition place_for :: "('a \<Rightarrow> 'k::linorder) \<Rightarrow> (nat \<rightharpoonup> 'a) \<Rightarrow> 'a \<Rightarrow> frame list \<Rightarrow> bool" where
  "place_for key d x k \<longleftrightarrow> (\<forall>a \<in> set (before k). key (the (d a)) < key x) \<and> (\<forall>a \<in> set (after k). key x < key (the (d a)))"

lemma place_forD:
  assumes "place_for key d x k"
  shows "a \<in> set (before k) \<Longrightarrow> key (the (d a)) < key x" "a \<in> set (after k) \<Longrightarrow> key x < key (the (d a))"
  using assms by (simp_all add: place_for_def)

lemma place_for_neq: "place_for key d x k \<Longrightarrow> a \<in> set (nodes (plug Lf k)) \<Longrightarrow> key (the (d a)) \<noteq> key x"
  by (auto simp: place_for_def nodes_plug dest: bspec)

definition ordered :: "('a \<Rightarrow> 'k::linorder) \<Rightarrow> (nat \<rightharpoonup> 'a) \<Rightarrow> nat list \<Rightarrow> bool" where
  "ordered key d as \<longleftrightarrow> (\<forall>a \<in> set as. d a \<noteq> None) \<and> sorted_wrt (\<lambda>a b. key (the (d a)) < key (the (d b))) as"

lemma find_loop_ok:
  assumes "rep h rb t k" "t \<noteq> Lf" "ordered key d (nodes t)" "place_for key d x k"
  shows "(\<exists>a \<in> set (nodes t). key (the (d a)) = key x \<and> avl_find_loop (compare_by key) h d x (ptr t) = Some (TableFoundNode, a)) \<or>
    (\<exists>k'. avl_find_loop (compare_by key) h d x (ptr t) = Some (search_result k', up k') \<and> k' \<noteq> [] \<and> plug Lf k' = plug t k \<and> place_for key d x k')"
  using assms
proof (induction t arbitrary: k)
  case (Nd l a b r)
  have l: "rep h rb l (InLeft a b r # k)" and r: "rep h rb r (InRight l a b # k)" using Nd.prems(1) by (simp_all add: rep_move)
  obtain v where v: "d a = Some v" using Nd.prems(3) by (auto simp: ordered_def)
  have o: "ordered key d (nodes l)" "ordered key d (nodes r)" "\<forall>c \<in> set (nodes l). key (the (d c)) < key v" "\<forall>c \<in> set (nodes r). key v < key (the (d c))"
    using Nd.prems(3) v by (auto simp: ordered_def sorted_wrt_append)
  note unf = avl_find_loop.simps[of "compare_by key" h d x a] v rep_node[OF Nd.prems(1)] compare_by_def[of key x v] rep_ptr_0[OF l] rep_ptr_0[OF r]
  consider "key x = key v" | "key x < key v" | "key v < key x" by fastforce
  then show ?case
  proof cases
    case 1
    then show ?thesis using v by (auto simp: unf)
  next
    case 2
    then have p: "place_for key d x (InLeft a b r # k)" using Nd.prems(4) o(4) v by (auto simp: place_for_def)
    show ?thesis
    proof (cases "l = Lf")
      case True
      then show ?thesis using 2 p by (intro disjI2 exI[of _ "InLeft a b r # k"]) (simp add: unf search_result_def)
    next
      case False
      then show ?thesis using Nd.IH(1)[OF l False o(1) p] 2 by (auto simp: unf)
    qed
  next
    case 3
    then have "\<not> key x < key v" by simp
    note unf = unf this
    have p: "place_for key d x (InRight l a b # k)" using 3 Nd.prems(4) o(3) v by (auto simp: place_for_def)
    show ?thesis
    proof (cases "r = Lf")
      case True
      then show ?thesis using 3 p by (intro disjI2 exI[of _ "InRight l a b # k"]) (simp add: unf search_result_def)
    next
      case False
      then show ?thesis using Nd.IH(2)[OF r False o(2) p] 3 by (auto simp: unf)
    qed
  qed
qed simp

section \<open>The elements of a table\<close>

text \<open>How many elements are before the key of \<open>x\<close>, and whether it is there.\<close>

definition rank :: "('a \<Rightarrow> 'k::linorder) \<Rightarrow> 'a \<Rightarrow> (nat \<times> 'a) list \<Rightarrow> nat" where
  "rank key x xs = length (takeWhile (\<lambda>p. key (snd p) < key x) xs)"

definition occurs :: "('a \<Rightarrow> 'k::linorder) \<Rightarrow> 'a \<Rightarrow> (nat \<times> 'a) list \<Rightarrow> bool" where
  "occurs key x xs \<longleftrightarrow> list_ex (\<lambda>p. key (snd p) = key x) xs"

lemma rank_append:
  assumes "\<forall>p \<in> set ys. key (snd p) < key x" "zs \<noteq> [] \<Longrightarrow> \<not> key (snd (hd zs)) < key x"
  shows "rank key x (ys @ zs) = length ys"
proof -
  have "takeWhile (\<lambda>p. key (snd p) < key x) ys = ys" using assms(1) by (simp add: takeWhile_eq_all_conv)
  then show ?thesis using assms by (cases zs) (simp_all add: rank_def takeWhile_append2 del: takeWhile_eq_all_conv)
qed

text \<open>A table with the elements \<open>xs\<close> of which the first \<open>n\<close> have been enumerated.\<close>

definition table_rel :: "('a \<Rightarrow> 'k::linorder) \<Rightarrow> 'a RTL_AVL_TABLE \<Rightarrow> (nat \<times> 'a) list \<times> nat \<Rightarrow> bool" where
  "table_rel key T = (\<lambda>(xs, n). (\<exists>rb t. rep (Links T) rb t [] \<and> avl t \<and> nodes t = map fst xs \<and> DepthOfTree T = of_nat (height t)) \<and>
     (\<forall>(a, v) \<in> set xs. UserData T a = Some v) \<and> sorted_wrt (\<lambda>p q. key (snd p) < key (snd q)) xs \<and>
     (\<forall>a \<in> set (map fst xs). a < 2 ^ 32) \<and> NumberGenericTableElements T = of_nat (length xs) \<and>
     n \<le> length xs \<and> (if n = 0 then RestartKey T \<in> {0, BalancedRoot} else RestartKey T = fst (xs ! (n - 1))))"

lemma table_relE:
  assumes "table_rel key T (xs, n)"
  obtains rb t where "rep (Links T) rb t []" "avl t" "nodes t = map fst xs" "DepthOfTree T = of_nat (height t)"
  using assms unfolding table_rel_def by blast

lemma table_good:
  assumes "table_rel key T (xs, n)"
  shows "good (map fst xs)" "length xs < 2 ^ 32 - 1" "NumberGenericTableElements T = 0 \<longleftrightarrow> xs = []"
proof -
  obtain rb t where t: "rep (Links T) rb t []" "nodes t = map fst xs" using table_relE[OF assms] by metis
  then show g: "good (map fst xs)" by (simp add: rep_def)
  have s: "set (map fst xs) \<subseteq> {2..<2 ^ 32}"
  proof
    fix a assume a: "a \<in> set (map fst xs)"
    then have "a < 2 ^ 32" using assms unfolding table_rel_def by blast
    moreover have "a \<noteq> 0 \<and> a \<noteq> 1" using a g unfolding good_def BalancedRoot_def by metis
    ultimately show "a \<in> {2..<2 ^ 32}" by auto
  qed
  have "length (map fst xs) = card (set (map fst xs))" using g unfolding good_def by (metis distinct_card)
  also have "\<dots> \<le> card {2..<2 ^ 32 :: nat}" by (rule card_mono[OF _ s]) simp
  finally show l: "length xs < 2 ^ 32 - 1" by simp
  have "NumberGenericTableElements T = of_nat (length xs)" using assms by (simp add: table_rel_def)
  then show "NumberGenericTableElements T = 0 \<longleftrightarrow> xs = []" using l nat_dvd_not_less[of "length xs" "2 ^ 32"] by (cases xs) (simp_all add: word_of_nat_eq_0_iff del: of_nat_Suc)
qed

lemma table_data:
  assumes "table_rel key T (xs, n)"
  shows "p \<in> set xs \<Longrightarrow> UserData T (fst p) = Some (snd p)" "sorted_wrt (\<lambda>p q. key (snd p) < key (snd q)) xs"
  using assms by (auto simp: table_rel_def)

lemma table_ordered:
  assumes "table_rel key T (xs, n)"
  shows "ordered key (UserData T) (map fst xs)"
  using sorted_wrt_mono_rel[OF _ table_data(2)[OF assms], of "\<lambda>p q. key (the (UserData T (fst p))) < key (the (UserData T (fst q)))"]
    table_data(1)[OF assms] by (fastforce simp: ordered_def sorted_wrt_map)

lemma find_found:
  assumes R: "table_rel key T (xs, n)" and "occurs key x xs"
  shows "rank key x xs < length xs" "key (snd (xs ! rank key x xs)) = key x"
    "RtlpFindAvlTableNodeOrParent (compare_by key) T x np = Some (TableFoundNode, fst (xs ! rank key x xs))"
proof -
  obtain p where p: "p \<in> set xs" "key (snd p) = key x" using assms(2) by (auto simp: occurs_def list_ex_iff)
  then obtain ys zs where xs: "xs = ys @ p # zs" by (meson split_list)
  note d = table_data(1)[OF R] and s = table_data(2)[OF R]
  have r: "rank key x xs = length ys" unfolding xs using s p(2) by (intro rank_append) (auto simp: xs sorted_wrt_append)
  then show "rank key x xs < length xs" "key (snd (xs ! rank key x xs)) = key x" using p by (simp_all add: xs)
  obtain rb t where t: "rep (Links T) rb t []" "nodes t = map fst xs" using table_relE[OF R] by metis
  have t0: "t \<noteq> Lf" using t(2) xs by (cases t) auto
  have rt: "Links T BalancedRoot = Some \<lparr>Parent = BalancedRoot, LeftChild = 0, RightChild = ptr t, Balance = rb\<rparr>" using t by (simp add: rep_def)
  have f: "RtlpFindAvlTableNodeOrParent (compare_by key) T x np = avl_find_loop (compare_by key) (Links T) (UserData T) x (ptr t)"
    using table_good(3)[OF R] xs rt by (simp add: RtlpFindAvlTableNodeOrParent_def)
  have only: "a = fst p" if a: "a \<in> set (nodes t)" "key (the (UserData T a)) = key x" for a
  proof -
    from a obtain q where q: "q \<in> set xs" "fst q = a" using t(2) by auto
    then have "key (snd q) = key x" using a d[OF q(1)] by simp
    then have "q = p" using q(1) s p(2) by (auto simp: xs sorted_wrt_append)
    then show ?thesis using q by simp
  qed
  have fp: "fst p \<in> set (nodes t)" "key (the (UserData T (fst p))) = key x" using p t(2) d[OF p(1)] by simp_all
  have no: "\<not> place_for key (UserData T) x k" if "plug Lf k = plug t []" for k
    using fp place_for_neq[of key "UserData T" x k "fst p"] that by auto
  have "place_for key (UserData T) x []" "ordered key (UserData T) (nodes t)" using table_ordered[OF R] t(2) by (simp_all add: place_for_def)
  from find_loop_ok[OF t(1) t0 this(2,1)]
  have "avl_find_loop (compare_by key) (Links T) (UserData T) x (ptr t) = Some (TableFoundNode, fst p)" using only no by blast
  then show "RtlpFindAvlTableNodeOrParent (compare_by key) T x np = Some (TableFoundNode, fst (xs ! rank key x xs))" using f r by (simp add: xs)
qed

lemma find_missing:
  assumes R: "table_rel key T (xs, n)" and "\<not> occurs key x xs"
  shows "\<exists>k rb. RtlpFindAvlTableNodeOrParent (compare_by key) T x np = Some (search_result k, if k = [] then np else up k) \<and>
    rep (Links T) rb Lf k \<and> avl (plug Lf k) \<and> DepthOfTree T = of_nat (height (plug Lf k)) \<and>
    before k = map fst (take (rank key x xs) xs) \<and> after k = map fst (drop (rank key x xs) xs)"
proof -
  obtain rb t where t: "rep (Links T) rb t []" "avl t" "nodes t = map fst xs" "DepthOfTree T = of_nat (height t)" by (rule table_relE[OF R])
  have at: ?thesis if f: "RtlpFindAvlTableNodeOrParent (compare_by key) T x np = Some (search_result k, if k = [] then np else up k)"
    and k: "plug Lf k = t" "place_for key (UserData T) x k" for k
  proof -
    have m: "map fst xs = before k @ after k" using t(3) k(1) by (auto simp: nodes_plug)
    obtain ys zs where xs: "xs = ys @ zs" "map fst ys = before k" "map fst zs = after k" using m[unfolded map_eq_append_conv] by auto
    have "\<forall>p \<in> set ys. key (snd p) < key x"
    proof
      fix p assume "p \<in> set ys"
      then have "fst p \<in> set (before k)" "p \<in> set xs" by (simp_all add: xs(1) flip: xs(2))
      then show "key (snd p) < key x" using place_forD(1)[OF k(2), of "fst p"] table_data(1)[OF R, of p] by simp
    qed
    moreover have "\<not> key (snd (hd zs)) < key x" if "zs \<noteq> []"
    proof -
      have "fst (hd zs) \<in> set (after k)" "hd zs \<in> set xs" using that by (simp_all add: xs(1) flip: xs(3))
      then have "key x < key (snd (hd zs))" using place_forD(2)[OF k(2), of "fst (hd zs)"] table_data(1)[OF R, of "hd zs"] by simp
      then show ?thesis by simp
    qed
    ultimately have "rank key x xs = length ys" unfolding xs(1) by (rule rank_append)
    then show ?thesis using f t k(1) xs rep_top[of "Links T" rb Lf k] by (intro exI[of _ k] exI[of _ rb]) simp
  qed
  show ?thesis
  proof (cases "t = Lf")
    case True
    then show ?thesis using at[of "[]"] table_good(3)[OF R] t(3) by (simp add: RtlpFindAvlTableNodeOrParent_def search_result_def place_for_def)
  next
    case False
    then have "xs \<noteq> []" using t(3) by (cases t) auto
    moreover have "Links T BalancedRoot = Some \<lparr>Parent = BalancedRoot, LeftChild = 0, RightChild = ptr t, Balance = rb\<rparr>" using t(1) by (simp add: rep_def)
    ultimately have f: "RtlpFindAvlTableNodeOrParent (compare_by key) T x np = avl_find_loop (compare_by key) (Links T) (UserData T) x (ptr t)"
      using table_good(3)[OF R] by (simp add: RtlpFindAvlTableNodeOrParent_def)
    have "key (the (UserData T a)) \<noteq> key x" if a: "a \<in> set (nodes t)" for a
    proof -
      obtain p where "p \<in> set xs" "fst p = a" using a t(3) by auto
      then show ?thesis using assms(2) table_data(1)[OF R, of p] by (auto simp: occurs_def list_ex_iff)
    qed
    moreover have "place_for key (UserData T) x []" "ordered key (UserData T) (nodes t)" using table_ordered[OF R] t(3) by (simp_all add: place_for_def)
    note find_loop_ok[OF t(1) False this(2,1)]
    ultimately obtain k where "avl_find_loop (compare_by key) (Links T) (UserData T) x (ptr t) = Some (search_result k, up k)" "k \<noteq> []" "plug Lf k = plug t []"
        "place_for key (UserData T) x k" by blast
    then show ?thesis using at[of k] f by simp
  qed
qed

section \<open>Changes of the elements\<close>

definition insert_at :: "nat \<Rightarrow> 'b \<Rightarrow> 'b list \<Rightarrow> 'b list" where
  "insert_at i p xs = take i xs @ p # drop i xs"

definition remove_at :: "nat \<Rightarrow> 'b list \<Rightarrow> 'b list" where
  "remove_at i xs = take i xs @ drop (Suc i) xs"

lemma insert_at_nth: "i \<le> length xs \<Longrightarrow> insert_at i p xs ! j = (if j < i then xs ! j else if j = i then p else xs ! (j - 1))"
  by (auto simp: insert_at_def nth_append min_def nth_Cons')

lemma remove_at_nth: "i < length xs \<Longrightarrow> remove_at i xs ! j = (if j < i then xs ! j else xs ! Suc j)"
  by (simp add: remove_at_def nth_append min_def)

lemma length_at: "i \<le> length xs \<Longrightarrow> length (insert_at i p xs) = Suc (length xs)" "i < length xs \<Longrightarrow> length (remove_at i xs) = length xs - 1"
  by (simp_all add: insert_at_def remove_at_def)

lemma set_at: "set (insert_at i p xs) = insert p (set xs)" "set (remove_at i xs) \<subseteq> set xs"
  using set_append[of "take i xs" "drop i xs"] set_take_subset[of i xs] set_drop_subset[of "Suc i" xs] by (auto simp: insert_at_def remove_at_def)

lemma rank_le: "rank key x xs \<le> length xs"
  by (simp add: rank_def length_takeWhile_le)

lemma sorted_insert_at:
  assumes "sorted_wrt (\<lambda>p q. key (snd p) < key (snd q)) xs" "\<not> occurs key x xs"
  shows "sorted_wrt (\<lambda>p q. key (snd p) < key (snd q)) (insert_at (rank key x xs) (a, x) xs)"
proof -
  let ?t = "takeWhile (\<lambda>p. key (snd p) < key x) xs" and ?d = "dropWhile (\<lambda>p. key (snd p) < key x) xs"
  have e: "take (rank key x xs) xs = ?t" "drop (rank key x xs) xs = ?d" by (simp_all add: rank_def takeWhile_eq_take[symmetric] dropWhile_eq_drop[symmetric])
  have s: "sorted_wrt (\<lambda>p q. key (snd p) < key (snd q)) (?t @ ?d)" using assms(1) by simp
  have "key x < key (snd p)" if p: "p \<in> set ?d" for p
  proof -
    have h: "?d \<noteq> []" using p by (auto simp del: dropWhile_eq_Nil_conv)
    have "hd ?d \<in> set xs" using h by (meson hd_in_set set_dropWhileD)
    then have "key (snd (hd ?d)) \<noteq> key x" using assms(2) by (simp add: occurs_def list_ex_iff)
    then have k: "key x < key (snd (hd ?d))" using hd_dropWhile[OF h] by simp
    show ?thesis
    proof (cases "p = hd ?d")
      case False
      obtain q qs where d: "?d = q # qs" using h unfolding neq_Nil_conv by blast
      then have "p \<in> set qs" "hd ?d = q" using False p by auto
      then have "key (snd (hd ?d)) < key (snd p)" using s unfolding d sorted_wrt_append by simp
      then show ?thesis using k by simp
    qed (use k in simp)
  qed
  then show ?thesis using s unfolding insert_at_def e sorted_wrt_append by (auto dest: set_takeWhileD)
qed

lemma sorted_remove_at:
  assumes "sorted_wrt R xs" "i < length xs"
  shows "sorted_wrt R (remove_at i xs)"
  using assms(1) by (subst (asm) id_take_nth_drop[OF assms(2)]) (simp add: remove_at_def sorted_wrt_append)

section \<open>The operations\<close>

lemma table_relI:
  assumes "rep (Links T) rb t []" "avl t" "nodes t = map fst xs" "DepthOfTree T = of_nat (height t)"
    and "\<And>p. p \<in> set xs \<Longrightarrow> UserData T (fst p) = Some (snd p)" "sorted_wrt (\<lambda>p q. key (snd p) < key (snd q)) xs"
    and "\<And>p. p \<in> set xs \<Longrightarrow> fst p < 2 ^ 32" "NumberGenericTableElements T = of_nat (length xs)"
    and "n \<le> length xs" "if n = 0 then RestartKey T \<in> {0, BalancedRoot} else RestartKey T = fst (xs ! (n - 1))"
  shows "table_rel key T (xs, n)"
  unfolding table_rel_def using assms by fastforce

lemma table_cursor:
  assumes "table_rel key T (xs, n)"
  shows "n \<le> length xs" "if n = 0 then RestartKey T \<in> {0, BalancedRoot} else RestartKey T = fst (xs ! (n - 1))"
    "NumberGenericTableElements T = of_nat (length xs)" "p \<in> set xs \<Longrightarrow> fst p < 2 ^ 32"
  using assms by (auto simp: table_rel_def)

text \<open>The place of the element with index \<open>i\<close>.\<close>

lemma focus_element:
  assumes R: "table_rel key T (xs, n)" and i: "i < length xs"
  obtains rb l b r k where "rep (Links T) rb (Nd l (fst (xs ! i)) b r) k" "avl (plug (Nd l (fst (xs ! i)) b r) k)"
    "DepthOfTree T = of_nat (height (plug (Nd l (fst (xs ! i)) b r) k))"
    "map fst (take i xs) = before k @ nodes l" "map fst (drop (Suc i) xs) = nodes r @ after k"
proof -
  let ?a = "fst (xs ! i)"
  obtain rb t where t: "rep (Links T) rb t []" "avl t" "nodes t = map fst xs" "DepthOfTree T = of_nat (height t)" by (rule table_relE[OF R])
  have a: "?a \<in> set (nodes t)" using i t(3) by auto
  obtain l b r k where k: "t = plug (Nd l ?a b r) k" "rep (Links T) rb (Nd l ?a b r) k" by (rule focus_rep[OF t(1) a])
  have xs: "map fst xs = map fst (take i xs) @ ?a # map fst (drop (Suc i) xs)" by (subst (1) id_take_nth_drop[OF i]) simp
  have g: "good (map fst (take i xs) @ ?a # map fst (drop (Suc i) xs))" using table_good(1)[OF R] xs by simp
  have "?a \<notin> set (map fst (take i xs))" "?a \<notin> set (map fst (drop (Suc i) xs))" using g unfolding good_def by auto
  moreover have "map fst (take i xs) @ ?a # map fst (drop (Suc i) xs) = (before k @ nodes l) @ ?a # nodes r @ after k"
    using xs t(3) k(1) by (simp add: nodes_plug)
  ultimately have "map fst (take i xs) = before k @ nodes l" "map fst (drop (Suc i) xs) = nodes r @ after k"
    using append_Cons_eq_iff[of ?a "map fst (take i xs)" "map fst (drop (Suc i) xs)" "before k @ nodes l" "nodes r @ after k"] by blast+
  then show ?thesis using k t(2,4) by (intro that[of rb l b r k]) simp_all
qed

lemma element_address:
  assumes "table_rel key T (xs, n)" "i < length xs"
  shows "fst (xs ! i) \<noteq> 0" "fst (xs ! i) \<noteq> BalancedRoot" "fst (xs ! i) \<notin> set (map fst (remove_at i xs))"
proof -
  have "fst (xs ! i) \<in> set (map fst xs)" using assms(2) by simp
  then show "fst (xs ! i) \<noteq> 0" "fst (xs ! i) \<noteq> BalancedRoot" using table_good(1)[OF assms(1)] unfolding good_def by metis+
  have "distinct (map fst (take i xs @ xs ! i # drop (Suc i) xs))"
    using table_good(1)[OF assms(1)] id_take_nth_drop[OF assms(2)] by (simp add: good_def)
  then show "fst (xs ! i) \<notin> set (map fst (remove_at i xs))" by (auto simp: remove_at_def)
qed

lemma insert_new:
  assumes R: "table_rel key T (xs, n)" and new: "\<not> occurs key x xs" and a: "a \<noteq> 0" "a \<noteq> BalancedRoot" "a \<notin> fst ` set xs" "a < 2 ^ 32"
  shows "\<exists>T'. RtlInsertElementGenericTableAvl (compare_by key) T x a = Some (a, True, T') \<and>
    table_rel key T' (insert_at (rank key x xs) (a, x) xs, if rank key x xs < n then Suc n else n)"
proof -
  let ?i = "rank key x xs" and ?z = "\<lparr>Parent = 0, LeftChild = 0, RightChild = 0, Balance = 0\<rparr>"
  obtain k rb where k: "RtlpFindAvlTableNodeOrParent (compare_by key) T x 0 = Some (search_result k, if k = [] then 0 else up k)"
      "rep (Links T) rb Lf k" "avl (plug Lf k)" "DepthOfTree T = of_nat (height (plug Lf k))"
      "before k = map fst (take ?i xs)" "after k = map fst (drop ?i xs)" using find_missing[OF R new, of 0] by blast
  have ba: "before k @ after k = map fst xs" unfolding k(5,6) by (simp flip: map_append)
  have g: "good (a # before k @ after k)" using table_good(1)[OF R] a unfolding ba by (simp add: good_def)
  let ?T = "T\<lparr>Links := (Links T)(a \<mapsto> ?z)\<rparr>"
  have "a \<notin> set (before k @ nodes Lf @ after k)" using g by (simp add: good_def)
  then have r: "rep (Links ?T) rb Lf k" using rep_upd[of a k Lf "Links T" "Some ?z" rb] a(2) k(2) by simp
  obtain h' rb' t' where t': "RtlpInsertAvlTreeNode ?T a (if k = [] then 0 else up k) (search_result k) =
      Some (?T\<lparr>Links := h', NumberGenericTableElements := NumberGenericTableElements ?T + 1, DepthOfTree := of_nat (height t')\<rparr>)"
      "rep h' rb' t' []" "avl t'" "nodes t' = before k @ a # after k"
    using RtlpInsertAvlTreeNode_ok[OF r k(3) _ _ g, of "if k = [] then 0 else up k"] k(4) by auto
  define T' where "T' = ?T\<lparr>Links := h', NumberGenericTableElements := NumberGenericTableElements ?T + 1, DepthOfTree := of_nat (height t'),
    UserData := (UserData T)(a \<mapsto> x)\<rparr>"
  have "search_result k \<noteq> TableFoundNode" by (simp add: search_result_def)
  then have "RtlInsertElementGenericTableAvl (compare_by key) T x a = Some (a, True, T')"
    using k(1) t'(1) a(1) by (simp add: RtlInsertElementGenericTableAvl_def RtlInsertElementGenericTableFullAvl_def T'_def)
  moreover have "table_rel key T' (insert_at ?i (a, x) xs, if ?i < n then Suc n else n)"
  proof (rule table_relI[of T' rb' t'])
    show "rep (Links T') rb' t' []" "avl t'" "nodes t' = map fst (insert_at ?i (a, x) xs)" "DepthOfTree T' = of_nat (height t')"
      using t' k(5,6) by (simp_all add: T'_def insert_at_def)
    show "UserData T' (fst p) = Some (snd p)" "fst p < 2 ^ 32" if "p \<in> set (insert_at ?i (a, x) xs)" for p
      using that table_data(1)[OF R, of p] table_cursor(4)[OF R, of p] a by (auto simp: T'_def set_at)
    show "sorted_wrt (\<lambda>p q. key (snd p) < key (snd q)) (insert_at ?i (a, x) xs)" by (rule sorted_insert_at[OF table_data(2)[OF R] new])
    show "NumberGenericTableElements T' = of_nat (length (insert_at ?i (a, x) xs))" using table_cursor(3)[OF R] by (simp add: T'_def length_at rank_le)
    show "(if ?i < n then Suc n else n) \<le> length (insert_at ?i (a, x) xs)" using table_cursor(1)[OF R] by (simp add: length_at rank_le)
    have "RestartKey T' = RestartKey T" by (simp add: T'_def)
    then show "if (if ?i < n then Suc n else n) = 0 then RestartKey T' \<in> {0, BalancedRoot}
        else RestartKey T' = fst (insert_at ?i (a, x) xs ! ((if ?i < n then Suc n else n) - 1))"
      using table_cursor(2)[OF R] by (auto simp: insert_at_nth rank_le split: if_splits)
  qed
  ultimately show ?thesis by blast
qed

lemma cursor_remove:
  assumes "distinct (map fst xs)" "i < length xs" "n \<le> length xs" "if n = 0 then c \<in> {0, r} else c = fst (xs ! (n - 1))" "a = fst (xs ! i)" "a \<noteq> 0" "a \<noteq> r"
    and m: "m = (if i < n then n - 1 else n)" and c': "c' = (if a = c then last (r # map fst (take i xs)) else c)"
  shows "if m = 0 then c' \<in> {0, r} else c' = fst (remove_at i xs ! (m - 1))"
proof (cases "n = 0")
  case True
  then show ?thesis using assms(4,6,7) by (auto simp: m c')
next
  case False
  have "fst (xs ! i) = fst (xs ! (n - 1)) \<longleftrightarrow> i = n - 1"
    using nth_eq_iff_index_eq[OF assms(1), of i "n - 1"] assms(2,3) False by simp
  then have ac: "a = c \<longleftrightarrow> i = n - 1" using assms(4,5) False by simp
  show ?thesis
  proof (cases "i = n - 1")
    case True
    then have "m = i" "c' = last (r # map fst (take i xs))" using False ac by (auto simp: m c')
    moreover have "last (map fst (take i xs)) = fst (xs ! (i - 1))" if "0 < i" using that assms(2) by (subst last_conv_nth) auto
    ultimately show ?thesis using assms(2) by (auto simp: remove_at_nth)
  next
    case i: False
    then have "c' = fst (xs ! (n - 1))" using ac assms(4) False by (simp add: c')
    then show ?thesis using i False assms(2,3) by (auto simp: m remove_at_nth Suc_diff_Suc numeral_2_eq_2)
  qed
qed

lemma remove_found:
  assumes R: "table_rel key T (xs, n)" and old: "occurs key x xs"
  shows "\<exists>T'. RtlDeleteElementGenericTableAvl (compare_by key) T x = Some (True, T') \<and>
    table_rel key T' (remove_at (rank key x xs) xs, if rank key x xs < n then n - 1 else n)"
proof -
  let ?i = "rank key x xs"
  note f = find_found[OF R old]
  define a where "a = fst (xs ! ?i)"
  obtain rb l b r k where k: "rep (Links T) rb (Nd l a b r) k" "avl (plug (Nd l a b r) k)" "DepthOfTree T = of_nat (height (plug (Nd l a b r) k))"
      and e: "map fst (take ?i xs) = before k @ nodes l" "map fst (drop (Suc ?i) xs) = nodes r @ after k"
    unfolding a_def by (rule focus_element[OF R f(1)])
  note az = element_address[OF R f(1), folded a_def]
  define Key where "Key = (if a = RestartKey T then last (BalancedRoot # map fst (take ?i xs)) else RestartKey T)"
  have Key: "(if a = RestartKey T then RtlRealPredecessor (Links T) a else Some (RestartKey T)) = Some Key"
    unfolding Key_def e(1) RtlRealPredecessor_ok[OF k(1)] by (simp only: if_distrib[of Some])
  let ?T = "T\<lparr>RestartKey := Key, DeleteCount := DeleteCount T + 1\<rparr>"
  obtain h' rb' t' where t': "RtlpDeleteAvlTreeNode ?T a = Some (?T\<lparr>Links := h', DepthOfTree := of_nat (height t')\<rparr>)"
      "rep h' rb' t' []" "avl t'" "nodes t' = before k @ nodes l @ nodes r @ after k"
    using RtlpDeleteAvlTreeNode_ok[of ?T rb l a b r k] k by auto
  define T' where "T' = ?T\<lparr>Links := h'(a := None), DepthOfTree := of_nat (height t'), NumberGenericTableElements := NumberGenericTableElements T - 1,
    WhichOrderedElement := 0, OrderedPointer := 0, UserData := (UserData T)(a := None)\<rparr>"
  have "RtlDeleteElementGenericTableAvl (compare_by key) T x = Some (True, T')"
    unfolding RtlDeleteElementGenericTableAvl_def f(3)[of 0, folded a_def] bind.bind_lunit prod.case Key Let_def t'(1)
    by (cases T) (simp add: T'_def)
  moreover have "table_rel key T' (remove_at ?i xs, if ?i < n then n - 1 else n)"
  proof (rule table_relI[of T' rb' t'])
    have n': "nodes t' = map fst (remove_at ?i xs)" using t'(4) e by (simp add: remove_at_def)
    have a': "a \<notin> set (nodes t')" using az(3) by (simp add: n')
    from a' az(2) show "rep (Links T') rb' t' []" using t'(2) rep_upd[of a "[]" t' h' None rb'] by (simp add: T'_def)
    show "avl t'" "nodes t' = map fst (remove_at ?i xs)" "DepthOfTree T' = of_nat (height t')" using t'(3) n' by (simp_all add: T'_def)
    show "UserData T' (fst p) = Some (snd p)" "fst p < 2 ^ 32" if p: "p \<in> set (remove_at ?i xs)" for p
    proof -
      have "p \<in> set xs" "fst p \<in> set (nodes t')" using p set_at(2)[of ?i xs] unfolding n' by auto
      then show "UserData T' (fst p) = Some (snd p)" "fst p < 2 ^ 32" using a' table_data(1)[OF R, of p] table_cursor(4)[OF R, of p] by (auto simp: T'_def)
    qed
    show "sorted_wrt (\<lambda>p q. key (snd p) < key (snd q)) (remove_at ?i xs)" by (rule sorted_remove_at[OF table_data(2)[OF R] f(1)])
    show "NumberGenericTableElements T' = of_nat (length (remove_at ?i xs))" using table_cursor(3)[OF R] f(1) by (simp add: T'_def length_at of_nat_diff)
    show "(if ?i < n then n - 1 else n) \<le> length (remove_at ?i xs)" using table_cursor(1)[OF R] f(1) by (auto simp: length_at)
    have rk: "RestartKey T' = Key" by (simp add: T'_def)
    show "if (if ?i < n then n - 1 else n) = 0 then RestartKey T' \<in> {0, BalancedRoot}
        else RestartKey T' = fst (remove_at ?i xs ! ((if ?i < n then n - 1 else n) - 1))"
      unfolding rk using table_good(1)[OF R] by (intro cursor_remove[OF _ f(1) table_cursor(1,2)[OF R] a_def az(1,2) refl Key_def]) (simp add: good_def)
  qed
  ultimately show ?thesis by blast
qed

lemma enumerate_ok:
  assumes R: "table_rel key T (xs, n)"
  shows "\<exists>T'. RtlEnumerateGenericTableAvl T False = Some (if n < length xs then fst (xs ! n) else 0, T') \<and>
    table_rel key T' (xs, if n < length xs then Suc n else n)"
proof -
  let ?c = "if n < length xs then fst (xs ! n) else 0"
  obtain rb t where t: "rep (Links T) rb t []" "avl t" "nodes t = map fst xs" "DepthOfTree T = of_nat (height t)" by (rule table_relE[OF R])
  have rt: "Links T BalancedRoot = Some \<lparr>Parent = BalancedRoot, LeftChild = 0, RightChild = ptr t, Balance = rb\<rparr>" using t(1) by (simp add: rep_def)
  have R': "table_rel key (T\<lparr>RestartKey := c\<rparr>) (xs, m)" if "m \<le> length xs" "if m = 0 then c \<in> {0, BalancedRoot} else c = fst (xs ! (m - 1))" for m c
    using R that unfolding table_rel_def by (cases "m = 0") simp_all
  have e: "RtlIsGenericTableEmptyAvl T \<longleftrightarrow> xs = []" using table_good(3)[OF R] by (simp add: RtlIsGenericTableEmptyAvl_def)
  have first: "leftmost (Links T) (ptr t) = Some (fst (xs ! 0))" if "xs \<noteq> []"
  proof -
    have "t \<noteq> Lf" using that t(3) by (cases t) auto
    then show ?thesis using leftmost_hd[OF t(1)] t(3) that by (simp add: hd_map hd_conv_nth)
  qed
  consider "xs = []" | "xs \<noteq> []" "RestartKey T = 0" "n = 0" | "xs \<noteq> []" "RestartKey T = BalancedRoot" "n = 0" | "0 < n" "xs \<noteq> []" "RestartKey T = fst (xs ! (n - 1))"
    using table_cursor(1,2)[OF R] by (cases "n = 0"; cases "xs = []"; auto)
  then show ?thesis
  proof cases
    case 1
    then show ?thesis using e R by (simp add: RtlEnumerateGenericTableAvl_def RtlEnumerateGenericTableWithoutSplayingAvl_def)
  next
    case 2
    then show ?thesis using e first rt R'[of 1 "fst (xs ! 0)"]
      by (simp add: RtlEnumerateGenericTableAvl_def RtlEnumerateGenericTableWithoutSplayingAvl_def Suc_le_eq)
  next
    case 3
    have "0 < ptr t" using t(1,3) 3(1) rep_ptr_0[OF t(1)] by (cases t) auto
    then have "RtlRealSuccessor (Links T) BalancedRoot = Some (fst (xs ! 0))" using rt first[OF 3(1)] by (simp add: RtlRealSuccessor_def)
    moreover have "fst (xs ! 0) \<noteq> 0" using element_address(1)[OF R, of 0] 3(1) by simp
    ultimately show ?thesis using e 3 R'[of 1 "fst (xs ! 0)"]
      by (simp add: RtlEnumerateGenericTableAvl_def RtlEnumerateGenericTableWithoutSplayingAvl_def BalancedRoot_def Suc_le_eq)
  next
    case 4
    have nl: "n - 1 < length xs" using 4(1) table_cursor(1)[OF R] by simp
    define a where "a = fst (xs ! (n - 1))"
    obtain rb l b r k where k: "rep (Links T) rb (Nd l a b r) k" "map fst (drop n xs) = nodes r @ after k"
      unfolding a_def by (rule focus_element[OF R nl]) (use 4(1) in simp)
    have s: "RtlRealSuccessor (Links T) a = Some ?c" unfolding RtlRealSuccessor_ok[OF k(1)] k(2)[symmetric]
      by (cases "n < length xs") (simp_all add: Cons_nth_drop_Suc[symmetric])
    have az: "a \<noteq> 0" "RestartKey T = a" using element_address(1)[OF R nl] 4(3) by (simp_all add: a_def)
    have c0: "n < length xs \<Longrightarrow> fst (xs ! n) \<noteq> 0" by (rule element_address(1)[OF R])
    have "RtlEnumerateGenericTableAvl T False = Some (?c, T\<lparr>RestartKey := if n < length xs then ?c else a\<rparr>)"
      using e 4(2) s az c0 by (cases "n < length xs") (simp_all add: RtlEnumerateGenericTableAvl_def RtlEnumerateGenericTableWithoutSplayingAvl_def)
    moreover have "table_rel key (T\<lparr>RestartKey := if n < length xs then ?c else a\<rparr>) (xs, if n < length xs then Suc n else n)"
      using 4(1) table_cursor(1)[OF R] by (intro R') (auto simp: a_def)
    ultimately show ?thesis by blast
  qed
qed

lemma enumerate_restart: "RtlEnumerateGenericTableAvl T True = RtlEnumerateGenericTableAvl (T\<lparr>RestartKey := 0\<rparr>) False"
  by (simp add: RtlEnumerateGenericTableAvl_def)

lemma table_restart: "table_rel key T (xs, n) \<Longrightarrow> table_rel key (T\<lparr>RestartKey := 0\<rparr>) (xs, 0)"
  unfolding table_rel_def by simp

end
