(* ===== verification/Avl_Props.thy ===== *)
theory Avl_Props
  imports Avl_Table Refinement
begin

text \<open>What AVL tables promise: they are ordered lists with an enumeration position, on a balanced tree whose depth the
  table knows.\<close>

section \<open>Specification\<close>

text \<open>Insertion has the address that the allocate routine returns, 0 when it fails.\<close>

datatype 'a table_op = Insert 'a nat | Remove 'a | Lookup 'a | FirstMatch 'a | Enumerate bool

datatype table_out = Inserted nat bool | Removed bool | At nat

fun table_impl :: "('a \<Rightarrow> 'k::linorder) \<Rightarrow> 'a RTL_AVL_TABLE \<Rightarrow> 'a table_op \<Rightarrow> (table_out \<times> 'a RTL_AVL_TABLE) option" where
  "table_impl key T (Insert x a) = do { (p, new, T) \<leftarrow> RtlInsertElementGenericTableAvl (compare_by key) T x a; Some (Inserted p new, T) }"
| "table_impl key T (Remove x) = do { (b, T) \<leftarrow> RtlDeleteElementGenericTableAvl (compare_by key) T x; Some (Removed b, T) }"
| "table_impl key T (Lookup x) = do { p \<leftarrow> RtlLookupElementGenericTableAvl (compare_by key) T x; Some (At p, T) }"
| "table_impl key T (FirstMatch x) = do { (p, _) \<leftarrow> RtlLookupFirstMatchingElementGenericTableAvl (compare_by key) T x; Some (At p, T) }"
| "table_impl key T (Enumerate Restart) = do { (p, T) \<leftarrow> RtlEnumerateGenericTableAvl T Restart; Some (At p, T) }"

text \<open>The elements in the order of their keys, with their addresses, and how many of them the enumeration has passed.\<close>

definition address :: "('a \<Rightarrow> 'k::linorder) \<Rightarrow> 'a \<Rightarrow> (nat \<times> 'a) list \<Rightarrow> nat" where
  "address key x xs = (if occurs key x xs then fst (xs ! rank key x xs) else 0)"

fun table_spec :: "('a \<Rightarrow> 'k::linorder) \<Rightarrow> (nat \<times> 'a) list \<times> nat \<Rightarrow> 'a table_op \<Rightarrow> table_out \<times> (nat \<times> 'a) list \<times> nat" where
  "table_spec key (xs, n) (Insert x a) =
     (if occurs key x xs \<or> a = 0 then (Inserted (address key x xs) False, xs, n)
      else (Inserted a True, insert_at (rank key x xs) (a, x) xs, if rank key x xs < n then Suc n else n))"
| "table_spec key (xs, n) (Remove x) =
     (if occurs key x xs then (Removed True, remove_at (rank key x xs) xs, if rank key x xs < n then n - 1 else n)
      else (Removed False, xs, n))"
| "table_spec key (xs, n) (Lookup x) = (At (address key x xs), xs, n)"
| "table_spec key (xs, n) (FirstMatch x) = (At (address key x xs), xs, n)"
| "table_spec key (xs, n) (Enumerate Restart) =
     (let m = if Restart then 0 else n in if m < length xs then (At (fst (xs ! m)), xs, Suc m) else (At 0, xs, m))"

text \<open>The allocate routine fails or returns memory that is not in use.\<close>

fun table_allowed :: "(nat \<times> 'a) list \<times> nat \<Rightarrow> 'a table_op \<Rightarrow> bool" where
  "table_allowed (xs, n) (Insert x a) \<longleftrightarrow> a = 0 \<or> a \<noteq> BalancedRoot \<and> a \<notin> fst ` set xs \<and> a < 2 ^ 32"
| "table_allowed (xs, n) op = True"

section \<open>Simulation\<close>

lemma search_result_missing: "search_result k \<noteq> TableFoundNode" "TableFoundNode \<noteq> search_result k"
  by (simp_all add: search_result_def)

lemma first_match_ok:
  assumes R: "table_rel key T (xs, n)" and o: "occurs key x xs"
  shows "first_match_loop (compare_by key) T x (fst (xs ! rank key x xs)) = Some (fst (xs ! rank key x xs))"
proof -
  let ?i = "rank key x xs"
  note f = find_found[OF R o]
  obtain rb l b r k where k: "rep (Links T) rb (Nd l (fst (xs ! ?i)) b r) k" "map fst (take ?i xs) = before k @ nodes l"
    by (rule focus_element[OF R f(1)])
  have p: "RtlRealPredecessor (Links T) (fst (xs ! ?i)) = Some (last (BalancedRoot # map fst (take ?i xs)))"
    unfolding RtlRealPredecessor_ok[OF k(1)] k(2) ..
  show ?thesis
  proof (cases "?i = 0")
    case True
    have "Links T BalancedRoot = Some \<lparr>Parent = BalancedRoot, LeftChild = 0, RightChild = ptr (plug (Nd l (fst (xs ! ?i)) b r) k), Balance = rb\<rparr>"
      using k(1) unfolding rep_top[of "Links T" rb _ k] by (simp add: rep_def)
    then show ?thesis using p True by (subst first_match_loop.simps) (simp add: BalancedRoot_def)
  next
    case False
    let ?q = "xs ! (?i - 1)"
    have q: "?i - 1 < length xs" using f(1) by simp
    have "last (BalancedRoot # map fst (take ?i xs)) = fst ?q" using False f(1) by (auto simp: last_conv_nth)
    then have p': "RtlRealPredecessor (Links T) (fst (xs ! ?i)) = Some (fst ?q)" using p by simp
    obtain rb l b r k where k: "rep (Links T) rb (Nd l (fst ?q) b r) k" by (rule focus_element[OF R q])
    have "key (snd ?q) < key (snd (xs ! ?i))" using sorted_wrt_nth_less[OF table_data(2)[OF R], of "?i - 1" ?i] f(1) False by simp
    then have "compare_by key x (snd ?q) \<noteq> GenericEqual" using f(2) by (simp add: compare_by_def)
    moreover have "up k \<noteq> fst ?q" using up_notin[of k "nodes (Nd l (fst ?q) b r)"] k by (auto simp: rep_def)
    ultimately show ?thesis using p' rep_node[OF k] table_data(1)[OF R, of ?q] q element_address(1)[OF R q]
      by (subst first_match_loop.simps) simp
  qed
qed

lemma table_simulates:
  assumes "table_rel key T a" "table_allowed a op"
  shows "\<exists>T'. table_impl key T op = Some (fst (table_spec key a op), T') \<and> table_rel key T' (snd (table_spec key a op))"
proof (cases a)
  case (Pair xs n)
  have R: "table_rel key T (xs, n)" using assms(1) Pair by simp
  show ?thesis
  proof (cases op)
    case (Insert x p)
    show ?thesis
    proof (cases "occurs key x xs \<or> p = 0")
      case True
      then show ?thesis using R Pair Insert find_found(3)[OF R, of x 0] find_missing[OF R, of x 0]
        by (cases "occurs key x xs")
          (auto simp: RtlInsertElementGenericTableAvl_def RtlInsertElementGenericTableFullAvl_def address_def search_result_missing)
    next
      case False
      then show ?thesis using insert_new[OF R, of x p] assms(2) Pair Insert by auto
    qed
  next
    case (Remove x)
    show ?thesis
    proof (cases "occurs key x xs")
      case True
      then show ?thesis using remove_found[OF R True] Pair Remove by auto
    next
      case False
      then show ?thesis using find_missing[OF R False, of 0] R Pair Remove by (auto simp: RtlDeleteElementGenericTableAvl_def search_result_missing)
    qed
  next
    case (Lookup x)
    show ?thesis using R Pair Lookup find_found(3)[OF R, of x 0] find_missing[OF R, of x 0]
      by (cases "occurs key x xs")
        (auto simp: RtlLookupElementGenericTableAvl_def RtlLookupElementGenericTableFullAvl_def address_def search_result_missing)
  next
    case (FirstMatch x)
    show ?thesis using R Pair FirstMatch find_found(3)[OF R, of x 0] find_missing[OF R, of x 0] first_match_ok[OF R, of x]
      by (cases "occurs key x xs")
        (auto simp: RtlLookupFirstMatchingElementGenericTableAvl_def address_def search_result_missing)
  next
    case (Enumerate b)
    show ?thesis using enumerate_ok[OF R] enumerate_ok[OF table_restart[OF R]] Pair Enumerate
      by (cases b) (auto simp: enumerate_restart split: if_splits)
  qed
qed

interpretation avl: guarded_refinement "table_rel key" "table_impl key" "table_spec key" table_allowed for key
  by unfold_locales (rule table_simulates)

lemma table_init: "table_rel key RtlInitializeGenericTableAvl ([], 0)"
  by (rule table_relI[where t = Lf and rb = 0]) (simp_all add: RtlInitializeGenericTableAvl_def rep_def good_def)

lemma table_runs:
  assumes "allowed_run (table_spec key) table_allowed ([], 0) ops"
  obtains T where "run_impl (table_impl key) RtlInitializeGenericTableAvl ops = Some (fst (run_spec (table_spec key) ([], 0) ops), T)"
    "table_rel key T (snd (run_spec (table_spec key) ([], 0) ops))"
  using avl.run_guarded[OF table_init assms] by blast

lemma reached_table:
  assumes "allowed_run (table_spec key) table_allowed ([], 0) ops" "run_impl (table_impl key) RtlInitializeGenericTableAvl ops = Some (os, T)"
  obtains xs n where "table_rel key T (xs, n)"
proof -
  obtain T' where "run_impl (table_impl key) RtlInitializeGenericTableAvl ops = Some (fst (run_spec (table_spec key) ([], 0) ops), T')"
      and R: "table_rel key T' (snd (run_spec (table_spec key) ([], 0) ops))" by (rule table_runs[OF assms(1)])
  then have "T' = T" using assms(2) by simp
  then show ?thesis using that R by (cases "snd (run_spec (table_spec key) ([], 0) ops)") auto
qed

section \<open>Claims\<close>

text \<open>C1: From an initialised table on, whatever the operations are (insertion with an allocation that succeeds or fails,
  deletion, the two lookups, enumeration with or without a restart) and in whatever order, the table returns what the
  ordered list with its enumeration position returns: an insertion of a key that is there gives its node and changes nothing, a
  lookup finds the node of its key, and the enumeration goes on from its position whatever is inserted
  or deleted meanwhile, the element it returned last included. No operation faults or runs forever.\<close>

theorem avl_table_refines:
  assumes "allowed_run (table_spec key) table_allowed ([], 0) ops"
  shows "\<exists>T. run_impl (table_impl key) RtlInitializeGenericTableAvl ops = Some (fst (run_spec (table_spec key) ([], 0) ops), T) \<and>
    table_rel key T (snd (run_spec (table_spec key) ([], 0) ops))"
  by (rule table_runs[OF assms]) blast

lemmas spec_eval = rank_def occurs_def insert_at_def remove_at_def address_def BalancedRoot_def

theorem avl_table_refines_witness:
  "\<exists>T. run_impl (table_impl (\<lambda>x. x :: nat)) RtlInitializeGenericTableAvl
      [Insert 5 8, Insert 3 16, Insert 5 24, Enumerate True, Remove 3, Enumerate False, Lookup 3] =
    Some ([Inserted 8 True, Inserted 16 True, Inserted 8 False, At 16, Removed True, At 8, At 0], T)"
proof -
  let ?ops = "[Insert 5 8, Insert 3 16, Insert 5 24, Enumerate True, Remove 3, Enumerate False, Lookup 3] :: nat table_op list"
  have r: "fst (run_spec (table_spec (\<lambda>x. x)) ([], 0) ?ops) = [Inserted 8 True, Inserted 16 True, Inserted 8 False, At 16, Removed True, At 8, At 0]"
    by (simp add: spec_eval)
  have "allowed_run (table_spec (\<lambda>x. x)) table_allowed ([], 0) ?ops" by (simp add: spec_eval)
  from avl_table_refines[OF this] show ?thesis unfolding r by blast
qed

text \<open>C7: Whatever has been inserted and deleted, the nodes of the table are linked in both directions into one tree under
  its root node; each node has as its balance the height of its right subtree less that of its left one, which is -1, 0
  or 1; the count of elements is the number of nodes and the depth is the height of the tree.\<close>

theorem avl_table_balanced:
  assumes "allowed_run (table_spec key) table_allowed ([], 0) ops"
  shows "\<exists>os T rb t. run_impl (table_impl key) RtlInitializeGenericTableAvl ops = Some (os, T) \<and> rep (Links T) rb t [] \<and> avl t \<and>
    unat (NumberGenericTableElements T) = length (nodes t) \<and> DepthOfTree T = of_nat (height t)"
proof -
  obtain T where T: "run_impl (table_impl key) RtlInitializeGenericTableAvl ops = Some (fst (run_spec (table_spec key) ([], 0) ops), T)"
      "table_rel key T (snd (run_spec (table_spec key) ([], 0) ops))" by (rule table_runs[OF assms])
  obtain xs n where R: "table_rel key T (xs, n)" by (rule reached_table[OF assms T(1)])
  obtain rb t where t: "rep (Links T) rb t []" "avl t" "nodes t = map fst xs" "DepthOfTree T = of_nat (height t)" by (rule table_relE[OF R])
  have "unat (NumberGenericTableElements T) = length xs" using table_cursor(3)[OF R] table_good(2)[OF R] by (simp add: unat_of_nat)
  then show ?thesis using T(1) t by (intro exI[of _ T] exI[of _ rb] exI[of _ t] exI) auto
qed

theorem avl_table_balanced_witness:
  "\<exists>os T rb t. run_impl (table_impl (\<lambda>x. x :: nat)) RtlInitializeGenericTableAvl [Insert 1 8, Insert 2 16, Insert 3 24, Remove 2] = Some (os, T) \<and>
    rep (Links T) rb t [] \<and> avl t \<and> unat (NumberGenericTableElements T) = length (nodes t) \<and> DepthOfTree T = of_nat (height t)"
  by (rule avl_table_balanced) (simp add: spec_eval)

subsection \<open>Depth\<close>

text \<open>The smallest number of nodes of a balanced tree, by its height; \<open>a\<close> and \<open>b\<close> are those of two heights that
  follow one another.\<close>

primrec min_iter :: "nat \<Rightarrow> int \<Rightarrow> int \<Rightarrow> int" where
  "min_iter 0 a b = a"
| "min_iter (Suc n) a b = min_iter n b (a + b + 1)"

definition min_nodes :: "nat \<Rightarrow> int" where
  "min_nodes n = min_iter n 0 1"

lemma min_iter_rec: "min_iter (Suc (Suc n)) a b = min_iter n a b + min_iter (Suc n) a b + 1"
proof (induction n arbitrary: a b)
  case (Suc n)
  show ?case unfolding min_iter.simps(2)[of "Suc (Suc n)" a b] min_iter.simps(2)[of n a b] min_iter.simps(2)[of "Suc n" a b] by (rule Suc)
qed simp

lemma min_nodes_rec: "min_nodes 0 = 0" "min_nodes (Suc 0) = 1" "min_nodes (Suc (Suc n)) = min_nodes n + min_nodes (Suc n) + 1"
  unfolding min_nodes_def min_iter_rec by simp_all

lemma min_nodes_nonneg: "0 \<le> min_nodes n \<and> 0 \<le> min_nodes (Suc n)"
  by (induction n) (simp_all add: min_nodes_rec)

lemma min_nodes_mono: "m \<le> n \<Longrightarrow> min_nodes m \<le> min_nodes n"
proof (induction rule: dec_induct)
  case (step n)
  have "min_nodes n \<le> min_nodes (Suc n)" using min_nodes_nonneg[of "n - 1"] by (cases n) (simp_all add: min_nodes_rec)
  with step show ?case by simp
qed simp

lemma min_nodes_Suc: "h \<le> Suc h' \<Longrightarrow> min_nodes (Suc h) \<le> min_nodes h + min_nodes h' + 1"
  using min_nodes_nonneg[of h'] by (cases h) (simp_all add: min_nodes_rec min_nodes_mono)

lemma avl_min_nodes: "avl t \<Longrightarrow> min_nodes (height t) \<le> int (length (nodes t))"
proof (induction t)
  case (Nd l a b r)
  then have d: "height l \<le> Suc (height r)" "height r \<le> Suc (height l)" by auto
  have "min_nodes (Suc (max (height l) (height r))) \<le> min_nodes (height l) + min_nodes (height r) + 1"
    using min_nodes_Suc[OF d(1)] min_nodes_Suc[OF d(2)] by (simp add: max_def add.commute)
  then show ?case using Nd by simp
qed (simp add: min_nodes_rec)

lemma min_iter_numeral: "min_iter (numeral k) a b = min_iter (pred_numeral k) b (a + b + 1)"
  by (simp add: numeral_eq_Suc)

lemma min_nodes_46: "min_nodes 46 = 4807526975"
  by (simp add: min_nodes_def min_iter_numeral)

text \<open>C35: The depth of a table is at most 45: a search follows at most 45 links, however many of the
  elements that fit into 32-bit memory have been inserted.\<close>

theorem avl_depth_bound:
  assumes "allowed_run (table_spec key) table_allowed ([], 0) ops"
  shows "\<exists>os T. run_impl (table_impl key) RtlInitializeGenericTableAvl ops = Some (os, T) \<and> DepthOfTree T \<le> 45"
proof -
  obtain T where T: "run_impl (table_impl key) RtlInitializeGenericTableAvl ops = Some (fst (run_spec (table_spec key) ([], 0) ops), T)"
      by (rule table_runs[OF assms])
  obtain xs n where R: "table_rel key T (xs, n)" by (rule reached_table[OF assms T])
  obtain rb t where t: "rep (Links T) rb t []" "avl t" "nodes t = map fst xs" "DepthOfTree T = of_nat (height t)" by (rule table_relE[OF R])
  have "min_nodes (height t) \<le> int (length xs)" using avl_min_nodes[OF t(2)] t(3) by simp
  then have "min_nodes (height t) < min_nodes 46" using table_good(2)[OF R] by (simp add: min_nodes_46)
  then have "height t \<le> 45" using min_nodes_mono[of 46 "height t"] by (cases "height t \<le> 45") simp_all
  then show ?thesis using T t(4) by (simp add: word_le_nat_alt unat_of_nat)
qed

theorem avl_depth_bound_witness:
  "\<exists>os T. run_impl (table_impl (\<lambda>x. x :: nat)) RtlInitializeGenericTableAvl [Insert 1 8, Insert 2 16, Insert 3 24] = Some (os, T) \<and> DepthOfTree T \<le> 45"
  by (rule avl_depth_bound) (simp add: spec_eval)

subsection \<open>Enumeration\<close>

lemma run_spec_Cons: "fst (run_spec g a (op # ops)) = fst (g a op) # fst (run_spec g (snd (g a op)) ops)"
  by (simp add: case_prod_beta Let_def)

lemma spec_enumerates:
  fixes xs :: "(nat \<times> 'a) list"
  shows "n \<le> length xs \<Longrightarrow> fst (run_spec (table_spec key) (xs, n) (replicate (Suc (length xs - n)) (Enumerate False))) = map (\<lambda>p. At (fst p)) (drop n xs) @ [At 0]"
proof (induction "length xs - n" arbitrary: n)
  case (Suc m)
  then have n: "n < length xs" "length xs - n = Suc (length xs - Suc n)" by simp_all
  let ?r = "replicate (Suc (length xs - Suc n)) (Enumerate False) :: 'a table_op list"
  have r: "fst (run_spec (table_spec key) (xs, Suc n) ?r) = map (\<lambda>p. At (fst p)) (drop (Suc n) xs) @ [At 0]" using Suc.hyps(1)[of "Suc n"] Suc.hyps(2) n(1) by simp
  have "table_spec key (xs, n) (Enumerate False) = (At (fst (xs ! n)), xs, Suc n)" using n(1) by simp
  moreover have "replicate (Suc (length xs - n)) (Enumerate False) = Enumerate False # ?r" using n(2) by simp
  ultimately have "fst (run_spec (table_spec key) (xs, n) (replicate (Suc (length xs - n)) (Enumerate False))) =
      At (fst (xs ! n)) # map (\<lambda>p. At (fst p)) (drop (Suc n) xs) @ [At 0]" using r by (simp only: run_spec_Cons fst_conv snd_conv)
  then show ?case using n(1) by (simp add: Cons_nth_drop_Suc[symmetric] del: run_spec.simps replicate.simps)
qed simp

lemma enumerations_allowed: "list_all (\<lambda>op. \<exists>b. op = Enumerate b) ops \<Longrightarrow> allowed_run (table_spec key) table_allowed a ops"
  by (induction ops arbitrary: a) (auto simp: table_allowed.simps elim!: table_allowed.elims)

text \<open>C36: After any operations, an enumeration that starts again returns every element of the table once, in the order of the
  keys, and then no element.\<close>

theorem avl_enumerates_all:
  assumes "allowed_run (table_spec key) table_allowed ([], 0) ops" "snd (run_spec (table_spec key) ([], 0) ops) = (xs, n)"
  shows "\<exists>os T T'. run_impl (table_impl key) RtlInitializeGenericTableAvl ops = Some (os, T) \<and> sorted_wrt (\<lambda>p q. key (snd p) < key (snd q)) xs \<and>
    run_impl (table_impl key) T (Enumerate True # replicate (length xs) (Enumerate False)) = Some (map (\<lambda>p. At (fst p)) xs @ [At 0], T')"
proof -
  let ?es = "replicate (Suc (length xs)) (Enumerate False)" and ?rs = "Enumerate True # replicate (length xs) (Enumerate False)"
  obtain T where T: "run_impl (table_impl key) RtlInitializeGenericTableAvl ops = Some (fst (run_spec (table_spec key) ([], 0) ops), T)"
      and R: "table_rel key T (xs, n)" by (rule table_runs[OF assms(1), unfolded assms(2)])
  have "run_spec (table_spec key) (xs, n) ?rs = run_spec (table_spec key) (xs, 0) ?es" by simp
  then have "fst (run_spec (table_spec key) (xs, n) ?rs) = map (\<lambda>p. At (fst p)) xs @ [At 0]" using spec_enumerates[of 0 xs key] by simp
  moreover have "allowed_run (table_spec key) table_allowed (xs, n) ?rs" by (rule enumerations_allowed) (simp add: list_all_iff, blast)
  ultimately show ?thesis using T avl.run_guarded[OF R] table_data(2)[OF R] by metis
qed

theorem avl_enumerates_all_witness:
  "\<exists>os T T'. run_impl (table_impl (\<lambda>x. x :: nat)) RtlInitializeGenericTableAvl [Insert 7 8, Insert 2 16, Insert 5 24, Remove 7] = Some (os, T) \<and>
    run_impl (table_impl (\<lambda>x. x)) T [Enumerate True, Enumerate False, Enumerate False] = Some ([At 16, At 24, At 0], T')"
proof -
  let ?ops = "[Insert 7 8, Insert 2 16, Insert 5 24, Remove 7] :: nat table_op list"
  have "allowed_run (table_spec (\<lambda>x. x)) table_allowed ([], 0) ?ops" "snd (run_spec (table_spec (\<lambda>x. x)) ([], 0) ?ops) = ([(16, 2), (24, 5)], 0)"
    by (simp_all add: spec_eval)
  from avl_enumerates_all[OF this] show ?thesis by (simp add: numeral_2_eq_2)
qed

text \<open>A client that deletes every element it enumerates.\<close>

fun drain :: "bool \<Rightarrow> (nat \<times> 'a) list \<Rightarrow> 'a table_op list" where
  "drain Restart [] = [Enumerate Restart]"
| "drain Restart (p # xs) = Enumerate Restart # Remove (snd p) # drain False xs"

lemma spec_drains:
  "sorted_wrt (\<lambda>p q. key (snd p) < key (snd q)) xs \<Longrightarrow> Restart \<or> n = 0 \<Longrightarrow>
   run_spec (table_spec key) (xs, n) (drain Restart xs) = (concat (map (\<lambda>p. [At (fst p), Removed True]) xs) @ [At 0], [], 0) \<and>
   allowed_run (table_spec key) table_allowed (xs, n) (drain Restart xs)"
proof (induction xs arbitrary: Restart n)
  case (Cons p xs)
  have "table_spec key (p # xs, n) (Enumerate Restart) = (At (fst p), p # xs, 1)" using Cons.prems(2) by auto
  moreover have "table_spec key (p # xs, 1) (Remove (snd p)) = (Removed True, xs, 0)" by (simp add: rank_def occurs_def remove_at_def)
  ultimately show ?case using Cons.IH[of False 0] Cons.prems(1) by simp
qed auto

text \<open>C37: A client that enumerates without a restart and deletes each element it gets misses none: it gets every element once, in
  order, every deletion succeeds, and then the enumeration ends with an empty table of depth 0.\<close>

theorem avl_drains:
  assumes "allowed_run (table_spec key) table_allowed ([], 0) ops" "snd (run_spec (table_spec key) ([], 0) ops) = (xs, n)"
  shows "\<exists>os T T'. run_impl (table_impl key) RtlInitializeGenericTableAvl ops = Some (os, T) \<and>
    run_impl (table_impl key) T (drain True xs) = Some (concat (map (\<lambda>p. [At (fst p), Removed True]) xs) @ [At 0], T') \<and>
    RtlIsGenericTableEmptyAvl T' \<and> DepthOfTree T' = 0"
proof -
  obtain T where T: "run_impl (table_impl key) RtlInitializeGenericTableAvl ops = Some (fst (run_spec (table_spec key) ([], 0) ops), T)"
      and R: "table_rel key T (xs, n)" by (rule table_runs[OF assms(1), unfolded assms(2)])
  note d = spec_drains[OF table_data(2)[OF R], of True n, simplified]
  obtain T' where T': "run_impl (table_impl key) T (drain True xs) = Some (concat (map (\<lambda>p. [At (fst p), Removed True]) xs) @ [At 0], T')"
      and R': "table_rel key T' ([], 0)" using avl.run_guarded[OF R, of "drain True xs"] d by auto
  obtain rb t where "nodes t = []" "DepthOfTree T' = of_nat (height t)" using table_relE[OF R'] by (metis list.simps(8))
  then have "DepthOfTree T' = 0" by (cases t) simp_all
  moreover have "RtlIsGenericTableEmptyAvl T'" using table_good(3)[OF R'] by (simp add: RtlIsGenericTableEmptyAvl_def)
  ultimately show ?thesis using T T' by blast
qed

theorem avl_drains_witness:
  "\<exists>os T T'. run_impl (table_impl (\<lambda>x. x :: nat)) RtlInitializeGenericTableAvl [Insert 7 8, Insert 2 16, Enumerate True] = Some (os, T) \<and>
    run_impl (table_impl (\<lambda>x. x)) T [Enumerate True, Remove 2, Enumerate False, Remove 7, Enumerate False] = Some ([At 16, Removed True, At 8, Removed True, At 0], T') \<and>
    RtlIsGenericTableEmptyAvl T' \<and> DepthOfTree T' = 0"
proof -
  let ?ops = "[Insert 7 8, Insert 2 16, Enumerate True] :: nat table_op list"
  have "allowed_run (table_spec (\<lambda>x. x)) table_allowed ([], 0) ?ops" "snd (run_spec (table_spec (\<lambda>x. x)) ([], 0) ?ops) = ([(16, 2), (8, 7)], 1)"
    by (simp_all add: spec_eval)
  from avl_drains[OF this] show ?thesis by simp
qed

end
