(* ===== verification/Srw.thy ===== *)
theory Srw
  imports Prelude
begin

text \<open>Slim reader-writer locks of the native extension library, \<open>oca/extensions/ntext/rtl/synch.c\<close>.

  The lock is one word. Its low four bits are flags: held, threads wait, the queue is being worked on, and
  more than one thread held the lock shared when the queue began. Without waiting threads the other bits count the
  threads that hold the lock shared; with waiting threads they are the address of the wait node that
  came last. Wait nodes are in the frames of the waiting threads.

  Each access to the lock word and to a node that another thread may change at the same time is a step. The
  links of queued nodes are written only by the thread that has set the \<open>SRWF_Link\<close> flag, so its walk along the
  queue is one step with the interlocked operation that follows it. Backing off and spinning only pass time.\<close>

abbreviation (input) "SRWF_Hold \<equiv> (1 :: 32 word)"
abbreviation (input) "SRWF_Wait \<equiv> (2 :: 32 word)"
abbreviation (input) "SRWF_Link \<equiv> (4 :: 32 word)"
abbreviation (input) "SRWF_Many \<equiv> (8 :: 32 word)"

definition has :: "32 word \<Rightarrow> 32 word \<Rightarrow> bool" where
  "has w f \<longleftrightarrow> w AND f \<noteq> 0"

text \<open>\<open>SRWM_ITEM\<close>.\<close>

definition item :: "32 word \<Rightarrow> 32 word" where
  "item w = w AND 0xFFFFFFF0"

text \<open>Bit 0 of the flags is \<open>NODEF_EXCL\<close>, bit 1 \<open>NODEF_SPIN\<close>.\<close>

record SRW_WAIT_NODE =
  node_prev :: "32 word"
  node_head :: "32 word"
  node_next :: "32 word"
  shareSnapshot :: "32 word"
  node_flags :: "32 word"

type_synonym srw_nodes = "32 word \<rightharpoonup> SRW_WAIT_NODE"

definition set_node :: "srw_nodes \<Rightarrow> 32 word \<Rightarrow> (SRW_WAIT_NODE \<Rightarrow> SRW_WAIT_NODE) \<Rightarrow> srw_nodes option" where
  "set_node h p f = do { n \<leftarrow> h p; Some (h(p \<mapsto> f n)) }"

section \<open>Threads\<close>

text \<open>Where a thread is; the words are values of its variable \<open>OldStatus\<close>. \<open>True\<close> is for exclusive access. Work on the
  queue goes on with waiting, or with the return to the caller.\<close>

datatype srw_ret = ToCaller | ToWait bool "32 word"

datatype srw_pc =
  Idle
| Reread bool
| Acquire bool "32 word"
| Waiting bool "32 word"
| Blocked bool "32 word"
| HoldX
| HoldS
| ReleaseX "32 word"
| ReleaseS "32 word"
| Clear "32 word"
| RereadTry
| TryS "32 word"
| Compress "32 word" srw_ret
| Wake "32 word" srw_ret
| Dequeue "32 word" "32 word" srw_ret
| Signal "32 word" srw_ret
| Key "32 word" "32 word" srw_ret

primrec resume :: "srw_ret \<Rightarrow> srw_pc" where
  "resume ToCaller = Idle"
| "resume (ToWait e old) = Waiting e old"

record srw =
  Ptr :: "32 word"
  Nodes :: srw_nodes
  pcs :: "nat \<Rightarrow> srw_pc"

abbreviation goto :: "nat \<Rightarrow> srw_pc \<Rightarrow> srw \<Rightarrow> srw" where
  "goto t p s \<equiv> s\<lparr>pcs := (pcs s)(t := p)\<rparr>"

section \<open>The queue\<close>

text \<open>From a node back to the first one that knows the head of the queue, setting the links forward: the result has that
  node and the head.\<close>

partial_function (option) link_loop :: "srw_nodes \<Rightarrow> 32 word \<Rightarrow> (srw_nodes \<times> 32 word \<times> 32 word) option" where
  "link_loop h Curr = do {
     n \<leftarrow> h Curr;
     if node_head n \<noteq> 0 then Some (h, Curr, node_head n)
     else do {
       h \<leftarrow> set_node h (node_prev n) (node_next_update (\<lambda>_. Curr));
       link_loop h (node_prev n) } }"

partial_function (option) head_loop :: "srw_nodes \<Rightarrow> 32 word \<Rightarrow> 32 word option" where
  "head_loop h Curr = do {
     n \<leftarrow> h Curr;
     if node_head n = 0 then head_loop h (node_prev n) else Some (node_head n) }"

text \<open>\<open>RtlpSrwWake\<close>: giving up the queue while the lock is held; finding the head of the queue; taking the first node or all of
  them off; waking their threads.\<close>

definition wake_step :: "nat \<Rightarrow> 32 word \<Rightarrow> srw_ret \<Rightarrow> srw \<Rightarrow> srw option" where
  "wake_step t OldStatus k s =
     (if has OldStatus SRWF_Hold then
        Some (if Ptr s = OldStatus then (goto t (resume k) s)\<lparr>Ptr := OldStatus - SRWF_Link\<rparr> else goto t (Wake (Ptr s) k) s)
      else do {
        let tail = item OldStatus;
        (h, Curr, first) \<leftarrow> link_loop (Nodes s) tail;
        h \<leftarrow> (if tail \<noteq> Curr then set_node h tail (node_head_update (\<lambda>_. first)) else Some h);
        Some ((goto t (Dequeue OldStatus first k) s)\<lparr>Nodes := h\<rparr>) })"

definition dequeue_step :: "nat \<Rightarrow> 32 word \<Rightarrow> 32 word \<Rightarrow> srw_ret \<Rightarrow> srw \<Rightarrow> srw option" where
  "dequeue_step t OldStatus first k s = do {
     let tail = item OldStatus;
     n \<leftarrow> Nodes s first;
     if node_next n \<noteq> 0 \<and> has (node_flags n) 1 then do {
       h \<leftarrow> set_node (Nodes s) tail (node_head_update (\<lambda>_. node_next n));
       h \<leftarrow> set_node h first (node_next_update (\<lambda>_. 0));
       Some ((goto t (Signal first k) s)\<lparr>Nodes := h, Ptr := Ptr s AND NOT SRWF_Link\<rparr>) }
     else if Ptr s = OldStatus then Some ((goto t (Signal first k) s)\<lparr>Ptr := 0\<rparr>)
     else do {
       h \<leftarrow> set_node (Nodes s) tail (node_head_update (\<lambda>_. first));
       Some ((goto t (Wake (Ptr s) k) s)\<lparr>Nodes := h\<rparr>) } }"

definition signal_next :: "32 word \<Rightarrow> srw_ret \<Rightarrow> srw_pc" where
  "signal_next p k = (if p \<noteq> 0 then Signal p k else resume k)"

text \<open>A thread that has not gone to sleep yet only loses its spin flag.\<close>

definition signal_step :: "nat \<Rightarrow> 32 word \<Rightarrow> srw_ret \<Rightarrow> srw \<Rightarrow> srw option" where
  "signal_step t first k s = do {
     n \<leftarrow> Nodes s first;
     if has (node_flags n) 2 then
       Some ((goto t (signal_next (node_next n) k) s)\<lparr>Nodes := (Nodes s)(first \<mapsto> n\<lparr>node_flags := node_flags n AND NOT 2\<rparr>)\<rparr>)
     else Some (goto t (Key first (node_next n) k) s) }"

text \<open>\<open>RtlpSrwCompressQueue\<close>.\<close>

definition compress_step :: "nat \<Rightarrow> 32 word \<Rightarrow> srw_ret \<Rightarrow> srw \<Rightarrow> srw option" where
  "compress_step t OldStatus k s =
     (if has OldStatus SRWF_Hold then do {
        let tail = item OldStatus;
        h \<leftarrow> (if tail \<noteq> 0 then do {
               (h, _, first) \<leftarrow> link_loop (Nodes s) tail;
               set_node h tail (node_head_update (\<lambda>_. first)) }
             else Some (Nodes s));
        let s = s\<lparr>Nodes := h\<rparr>;
        Some (if Ptr s = OldStatus then (goto t (resume k) s)\<lparr>Ptr := OldStatus - SRWF_Link\<rparr> else goto t (Compress (Ptr s) k) s) }
      else wake_step t OldStatus k s)"

section \<open>Acquiring\<close>

text \<open>The node of a thread that has to wait, the new value of the lock and whether the queue has to be compressed. The node is at
  \<open>a\<close>; \<open>junk\<close> is what its field \<open>prev\<close> holds when it is not set.\<close>

definition exclusive_node :: "32 word \<Rightarrow> 32 word \<Rightarrow> 32 word \<Rightarrow> SRW_WAIT_NODE \<times> 32 word \<times> bool" where
  "exclusive_node a junk OldStatus =
     (if has OldStatus SRWF_Wait then
        (\<lparr>node_prev = item OldStatus, node_head = 0, node_next = 0, shareSnapshot = 0, node_flags = 3\<rparr>,
         a OR (OldStatus AND SRWF_Many) OR 7, \<not> has OldStatus SRWF_Link)
      else
        (\<lparr>node_prev = junk, node_head = a, node_next = 0, shareSnapshot = drop_bit 4 OldStatus, node_flags = 3\<rparr>,
         if drop_bit 4 OldStatus > 1 then a OR 11 else a OR 3, False))"

definition shared_node :: "32 word \<Rightarrow> 32 word \<Rightarrow> 32 word \<Rightarrow> SRW_WAIT_NODE \<times> 32 word \<times> bool" where
  "shared_node a junk OldStatus =
     (if has OldStatus SRWF_Wait then
        (\<lparr>node_prev = item OldStatus, node_head = 0, node_next = 0, shareSnapshot = 0, node_flags = 2\<rparr>,
         a OR (OldStatus AND 9) OR 6, \<not> has OldStatus SRWF_Link)
      else
        (\<lparr>node_prev = junk, node_head = a, node_next = 0, shareSnapshot = 0, node_flags = 2\<rparr>, a OR 3, False))"

definition enqueue_step :: "nat \<Rightarrow> bool \<Rightarrow> 32 word \<Rightarrow> 32 word \<Rightarrow> SRW_WAIT_NODE \<times> 32 word \<times> bool \<Rightarrow> srw \<Rightarrow> srw" where
  "enqueue_step t e a OldStatus = (\<lambda>(node, NewStatus, IsOptimize) s.
     let s = s\<lparr>Nodes := (Nodes s)(a \<mapsto> node)\<rparr> in
     if Ptr s = OldStatus then
       (goto t (if IsOptimize then Compress NewStatus (ToWait e OldStatus) else Waiting e OldStatus) s)\<lparr>Ptr := NewStatus\<rparr>
     else goto t (Reread e) s)"

text \<open>The lock is taken; the frame with the node is left.\<close>

definition take_step :: "nat \<Rightarrow> bool \<Rightarrow> 32 word \<Rightarrow> 32 word \<Rightarrow> 32 word \<Rightarrow> srw \<Rightarrow> srw" where
  "take_step t e a OldStatus NewStatus s =
     (if Ptr s = OldStatus then
        (goto t (if e then HoldX else HoldS) s)\<lparr>Ptr := NewStatus, Nodes := (Nodes s)(a := None)\<rparr>
      else goto t (Reread e) s)"

definition RtlAcquireSRWLockExclusive_step :: "nat \<Rightarrow> 32 word \<Rightarrow> 32 word \<Rightarrow> 32 word \<Rightarrow> srw \<Rightarrow> srw" where
  "RtlAcquireSRWLockExclusive_step t a junk OldStatus s =
     (if has OldStatus SRWF_Hold then enqueue_step t True a OldStatus (exclusive_node a junk OldStatus) s
      else take_step t True a OldStatus (OldStatus + SRWF_Hold) s)"

definition RtlAcquireSRWLockShared_step :: "nat \<Rightarrow> 32 word \<Rightarrow> 32 word \<Rightarrow> 32 word \<Rightarrow> srw \<Rightarrow> srw" where
  "RtlAcquireSRWLockShared_step t a junk OldStatus s =
     (if has OldStatus SRWF_Hold \<and> (has OldStatus SRWF_Wait \<or> item OldStatus = 0)
      then enqueue_step t False a OldStatus (shared_node a junk OldStatus) s
      else take_step t False a OldStatus (if has OldStatus SRWF_Wait then OldStatus + SRWF_Hold else (OldStatus + 16) OR SRWF_Hold) s)"

text \<open>Going to sleep, unless the spin flag is gone.\<close>

definition sleep_step :: "nat \<Rightarrow> bool \<Rightarrow> 32 word \<Rightarrow> 32 word \<Rightarrow> srw \<Rightarrow> srw option" where
  "sleep_step t e a OldStatus s = do {
     n \<leftarrow> Nodes s a;
     Some (if has (node_flags n) 2
       then (goto t (Blocked e OldStatus) s)\<lparr>Nodes := (Nodes s)(a \<mapsto> n\<lparr>node_flags := node_flags n AND NOT 2\<rparr>)\<rparr>
       else goto t (Acquire e OldStatus) s) }"

text \<open>The first attempts: setting bit 0, and replacing a free lock.\<close>

definition RtlAcquireSRWLockExclusive :: "nat \<Rightarrow> srw \<Rightarrow> srw" where
  "RtlAcquireSRWLockExclusive t s =
     (if has (Ptr s) SRWF_Hold then goto t (Reread True) s else (goto t HoldX s)\<lparr>Ptr := Ptr s OR SRWF_Hold\<rparr>)"

definition RtlAcquireSRWLockShared :: "nat \<Rightarrow> srw \<Rightarrow> srw" where
  "RtlAcquireSRWLockShared t s =
     (if Ptr s = 0 then (goto t HoldS s)\<lparr>Ptr := 0x11\<rparr> else goto t (Acquire False (Ptr s)) s)"

definition RtlTryAcquireSRWLockExclusive :: "nat \<Rightarrow> srw \<Rightarrow> srw" where
  "RtlTryAcquireSRWLockExclusive t s =
     (if has (Ptr s) SRWF_Hold then s else (goto t HoldX s)\<lparr>Ptr := Ptr s OR SRWF_Hold\<rparr>)"

definition RtlTryAcquireSRWLockShared :: "nat \<Rightarrow> srw \<Rightarrow> srw" where
  "RtlTryAcquireSRWLockShared t s =
     (if Ptr s = 0 then (goto t HoldS s)\<lparr>Ptr := 0x11\<rparr> else goto t (TryS (Ptr s)) s)"

definition RtlTryAcquireSRWLockShared_step :: "nat \<Rightarrow> 32 word \<Rightarrow> srw \<Rightarrow> srw" where
  "RtlTryAcquireSRWLockShared_step t OldStatus s =
     (if has OldStatus SRWF_Hold \<and> (has OldStatus SRWF_Wait \<or> item OldStatus = 0) then goto t Idle s
      else
        let NewStatus = (if has OldStatus SRWF_Wait then OldStatus + SRWF_Hold else OldStatus + 16) in
        if Ptr s = OldStatus then (goto t HoldS s)\<lparr>Ptr := NewStatus\<rparr> else goto t RereadTry s)"

section \<open>Releasing\<close>

definition RtlReleaseSRWLockExclusive :: "nat \<Rightarrow> srw \<Rightarrow> srw" where
  "RtlReleaseSRWLockExclusive t s =
     (let OldStatus = Ptr s in
      (goto t (if has OldStatus SRWF_Wait \<and> \<not> has OldStatus SRWF_Link then ReleaseX (OldStatus - SRWF_Hold) else Idle) s)
        \<lparr>Ptr := OldStatus - SRWF_Hold\<rparr>)"

definition RtlReleaseSRWLockExclusive_step :: "nat \<Rightarrow> 32 word \<Rightarrow> srw \<Rightarrow> srw" where
  "RtlReleaseSRWLockExclusive_step t OldStatus s =
     (if Ptr s = OldStatus then (goto t (Wake (OldStatus + SRWF_Link) ToCaller) s)\<lparr>Ptr := OldStatus + SRWF_Link\<rparr>
      else goto t Idle s)"

definition RtlReleaseSRWLockShared :: "nat \<Rightarrow> srw \<Rightarrow> srw" where
  "RtlReleaseSRWLockShared t s =
     (if Ptr s = 0x11 then (goto t Idle s)\<lparr>Ptr := 0\<rparr> else goto t (ReleaseS (Ptr s)) s)"

text \<open>The last loop: the lock is no longer held.\<close>

definition clear_step :: "nat \<Rightarrow> 32 word \<Rightarrow> srw \<Rightarrow> srw" where
  "clear_step t OldStatus s =
     (let NewStatus = OldStatus AND NOT 9 in
      if has OldStatus SRWF_Link then
        (if Ptr s = OldStatus then (goto t Idle s)\<lparr>Ptr := NewStatus\<rparr> else goto t (Clear (Ptr s)) s)
      else
        let NewStatus = NewStatus OR SRWF_Link in
        if Ptr s = OldStatus then (goto t (Wake NewStatus ToCaller) s)\<lparr>Ptr := NewStatus\<rparr> else goto t (Clear (Ptr s)) s)"

definition RtlReleaseSRWLockShared_step :: "nat \<Rightarrow> 32 word \<Rightarrow> srw \<Rightarrow> srw option" where
  "RtlReleaseSRWLockShared_step t OldStatus s =
     (if \<not> has OldStatus SRWF_Wait then
        let NewStatus = (if item OldStatus \<le> 16 then 0 else OldStatus - 16) in
        Some (if Ptr s = OldStatus then (goto t Idle s)\<lparr>Ptr := NewStatus\<rparr> else goto t (ReleaseS (Ptr s)) s)
      else if has OldStatus SRWF_Many then do {
        head \<leftarrow> head_loop (Nodes s) (item OldStatus);
        n \<leftarrow> Nodes s head;
        let count = shareSnapshot n - 1;
        Some ((goto t (if count > 0 then Idle else Clear OldStatus) s)\<lparr>Nodes := (Nodes s)(head \<mapsto> n\<lparr>shareSnapshot := count\<rparr>)\<rparr>) }
      else Some (clear_step t OldStatus s))"

section \<open>Steps\<close>

text \<open>What a thread does inside a routine; a step on memory that is gone is \<open>None\<close>.\<close>

fun srw_next :: "(nat \<Rightarrow> 32 word) \<Rightarrow> 32 word \<Rightarrow> nat \<Rightarrow> srw_pc \<Rightarrow> srw \<Rightarrow> srw option" where
  "srw_next addr junk t (Reread e) s = Some (goto t (Acquire e (Ptr s)) s)"
| "srw_next addr junk t (Acquire e old) s =
     Some (if e then RtlAcquireSRWLockExclusive_step t (addr t) junk old s else RtlAcquireSRWLockShared_step t (addr t) junk old s)"
| "srw_next addr junk t (Waiting e old) s = sleep_step t e (addr t) old s"
| "srw_next addr junk t (ReleaseX old) s = Some (RtlReleaseSRWLockExclusive_step t old s)"
| "srw_next addr junk t (ReleaseS old) s = RtlReleaseSRWLockShared_step t old s"
| "srw_next addr junk t (Clear old) s = Some (clear_step t old s)"
| "srw_next addr junk t RereadTry s = Some (goto t (TryS (Ptr s)) s)"
| "srw_next addr junk t (TryS old) s = Some (RtlTryAcquireSRWLockShared_step t old s)"
| "srw_next addr junk t (Compress old k) s = compress_step t old k s"
| "srw_next addr junk t (Wake old k) s = wake_step t old k s"
| "srw_next addr junk t (Dequeue old first k) s = dequeue_step t old first k s"
| "srw_next addr junk t (Signal first k) s = signal_step t first k s"
| "srw_next addr junk t p s = Some s"

text \<open>The steps of threads below \<open>N\<close>. \<open>NtReleaseKeyedEvent\<close> and \<open>NtWaitForKeyedEvent\<close> meet at a key, the address of a node.\<close>

inductive srw_step :: "(nat \<Rightarrow> 32 word) \<Rightarrow> nat \<Rightarrow> srw \<Rightarrow> srw \<Rightarrow> bool" for addr N where
  acquire_exclusive: "t < N \<Longrightarrow> pcs s t = Idle \<Longrightarrow> srw_step addr N s (RtlAcquireSRWLockExclusive t s)"
| acquire_shared: "t < N \<Longrightarrow> pcs s t = Idle \<Longrightarrow> srw_step addr N s (RtlAcquireSRWLockShared t s)"
| try_exclusive: "t < N \<Longrightarrow> pcs s t = Idle \<Longrightarrow> srw_step addr N s (RtlTryAcquireSRWLockExclusive t s)"
| try_shared: "t < N \<Longrightarrow> pcs s t = Idle \<Longrightarrow> srw_step addr N s (RtlTryAcquireSRWLockShared t s)"
| release_exclusive: "t < N \<Longrightarrow> pcs s t = HoldX \<Longrightarrow> srw_step addr N s (RtlReleaseSRWLockExclusive t s)"
| release_shared: "t < N \<Longrightarrow> pcs s t = HoldS \<Longrightarrow> srw_step addr N s (RtlReleaseSRWLockShared t s)"
| inside: "t < N \<Longrightarrow> srw_next addr junk t (pcs s t) s = Some s' \<Longrightarrow> srw_step addr N s s'"
| keyed_event: "t < N \<Longrightarrow> u < N \<Longrightarrow> pcs s t = Key p nxt k \<Longrightarrow> pcs s u = Blocked e old \<Longrightarrow> addr u = p \<Longrightarrow>
    srw_step addr N s (goto u (Acquire e old) (goto t (signal_next nxt k) s))"

definition RtlInitializeSRWLock :: srw where
  "RtlInitializeSRWLock = \<lparr>Ptr = 0, Nodes = Map.empty, pcs = (\<lambda>_. Idle)\<rparr>"

inductive srw_reach :: "(nat \<Rightarrow> 32 word) \<Rightarrow> nat \<Rightarrow> srw \<Rightarrow> bool" for addr N where
  init: "srw_reach addr N RtlInitializeSRWLock"
| step: "srw_reach addr N s \<Longrightarrow> srw_step addr N s s' \<Longrightarrow> srw_reach addr N s'"

end
