(* ===== verification/Srw_Words.thy ===== *)
theory Srw_Words
  imports Srw
begin

text \<open>The fields of the lock word and what the arithmetic of the routines does to them.\<close>

lemma item_NOT: "item w = w AND NOT 15"
proof -
  have "0xFFFFFFF0 + 16 = (0 :: 32 word)" by simp
  then have "0xFFFFFFF0 = (- 16 :: 32 word)" by (simp only: eq_neg_iff_add_eq_0)
  moreover have "NOT 15 = (- 16 :: 32 word)" by simp
  ultimately show ?thesis unfolding item_def by (simp only:)
qed

lemma has_or: "has (a OR b) f \<longleftrightarrow> has a f \<or> has b f"
  by (simp add: has_def bit.conj_disj_distrib2 or_eq_0_iff)

lemma has_and: "has (w AND c) f \<longleftrightarrow> has w (c AND f)"
  by (simp add: has_def and.assoc)

lemma item_or: "item (a OR b) = item a OR item b"
  by (simp add: item_def bit.conj_disj_distrib2)

lemma item_and: "item (w AND c) = item w AND c"
  by (simp add: item_def ac_simps)

lemma has_0 [simp]: "\<not> has w 0" "\<not> has 0 f" "item 0 = 0"
  by (simp_all add: has_def item_def)

lemma has_consts: "has 1 1" "\<not> has 1 2" "\<not> has 1 4" "\<not> has 1 8" "item 1 = 0"
    "\<not> has 4 1" "\<not> has 4 2" "has 4 4" "\<not> has 4 8" "item 4 = 0"
    "has 7 1" "has 7 2" "has 7 4" "\<not> has 7 8" "item 7 = 0" "has 11 1" "has 11 2" "\<not> has 11 4" "has 11 8" "item 11 = 0"
    "has 3 1" "has 3 2" "\<not> has 3 4" "\<not> has 3 8" "item 3 = 0" "\<not> has 6 1" "has 6 2" "has 6 4" "\<not> has 6 8" "item 6 = 0" "has 2 2" "\<not> has 2 1"
  by (simp_all add: has_def item_def)

definition aligned :: "32 word \<Rightarrow> bool" where
  "aligned a \<longleftrightarrow> a AND 15 = 0"

lemma aligned_item:
  assumes "aligned a"
  shows "item a = a"
proof -
  have "a AND (15 OR NOT 15) = a" unfolding bit.disj_cancel_right by simp
  then have "(a AND 15) OR (a AND NOT 15) = a" unfolding bit.conj_disj_distrib .
  then have "0 OR (a AND NOT 15) = a" unfolding assms[unfolded aligned_def] .
  then show ?thesis unfolding item_NOT or.left_neutral .
qed

lemma aligned_has:
  assumes "aligned a"
  shows "\<not> has a 1" "\<not> has a 2" "\<not> has a 4" "\<not> has a 8"
proof -
  have n: "\<not> has a (15 AND f)" for f using assms unfolding has_def aligned_def and.assoc[symmetric] by simp
  show "\<not> has a 1" "\<not> has a 2" "\<not> has a 4" "\<not> has a 8" using n[of 1] n[of 2] n[of 4] n[of 8] by simp_all
qed

lemma has_NOT:
  "\<not> has (w AND NOT 1) 1" "has (w AND NOT 1) 2 = has w 2" "has (w AND NOT 1) 4 = has w 4" "has (w AND NOT 1) 8 = has w 8" "item (w AND NOT 1) = item w"
  "has (w AND NOT 4) 1 = has w 1" "has (w AND NOT 4) 2 = has w 2" "\<not> has (w AND NOT 4) 4" "has (w AND NOT 4) 8 = has w 8" "item (w AND NOT 4) = item w"
  "\<not> has (w AND NOT 9) 1" "has (w AND NOT 9) 2 = has w 2" "has (w AND NOT 9) 4 = has w 4" "\<not> has (w AND NOT 9) 8" "item (w AND NOT 9) = item w"
  by (simp_all add: has_and item_def and.assoc)

lemma has_add:
  "\<not> has w 1 \<Longrightarrow> w + 1 = w OR 1" "has w 1 \<Longrightarrow> w - 1 = w AND NOT 1"
  "\<not> has w 4 \<Longrightarrow> w + 4 = w OR 4" "has w 4 \<Longrightarrow> w - 4 = w AND NOT 4"
proof -
  show "\<not> has w 1 \<Longrightarrow> w + 1 = w OR 1" "\<not> has w 4 \<Longrightarrow> w + 4 = w OR 4" unfolding has_def by (rule disjunctive_add_eq_or, simp)+
  have b: "w AND 2 ^ n \<noteq> 0 \<Longrightarrow> NOT w AND 2 ^ n = 0" for n by (simp add: and_exp_eq_0_iff_not_bit bit_not_iff)
  show "has w 1 \<Longrightarrow> w - 1 = w AND NOT 1" using b[of 0] unfolding has_def by (intro disjunctive_diff_eq_and_not) simp
  show "has w 4 \<Longrightarrow> w - 4 = w AND NOT 4" using b[of 2] unfolding has_def by (intro disjunctive_diff_eq_and_not) simp
qed

lemma has_sub8: "has (w AND 8) 1 = False" "has (w AND 8) 2 = False" "has (w AND 8) 4 = False" "has (w AND 8) 8 = has w 8" "item (w AND 8) = 0"
    "has (w AND 9) 1 = has w 1" "has (w AND 9) 2 = False" "has (w AND 9) 4 = False" "has (w AND 9) 8 = has w 8" "item (w AND 9) = 0"
  by (simp_all add: has_and item_def and.assoc)

lemmas srw_fields = has_or item_or has_consts has_NOT has_NOT[simplified] has_sub8

section \<open>A lock without waiting threads\<close>

text \<open>The word of a lock held shared by \<open>c\<close> threads.\<close>

definition shared_word :: "nat \<Rightarrow> 32 word" where
  "shared_word c = of_nat (16 * c + 1)"

lemma unat_shared: "c < 2 ^ 28 \<Longrightarrow> unat (shared_word c) = 16 * c + 1"
  by (simp add: shared_word_def unat_of_nat take_bit_nat_eq_self del: of_nat_add of_nat_mult of_nat_Suc)

lemma shared_word_eq: "shared_word c = push_bit 4 (of_nat c) OR 1"
proof -
  have "push_bit 4 (of_nat c) AND (1 :: 32 word) = 0" by (rule bit_eqI) (auto simp: bit_simps)
  then have "push_bit 4 (of_nat c) + 1 = push_bit 4 (of_nat c) OR (1 :: 32 word)" by (rule disjunctive_add_eq_or)
  then show ?thesis by (simp add: shared_word_def push_bit_eq_mult ac_simps)
qed

lemma shared_fields [simp]:
  "has (shared_word c) 1" "\<not> has (shared_word c) 2" "\<not> has (shared_word c) 4" "\<not> has (shared_word c) 8" "item (shared_word c) = of_nat (16 * c)"
proof -
  have m: "15 = (mask 4 :: 32 word)" by (simp add: mask_eq_exp_minus_1)
  have a: "aligned (push_bit 4 x)" for x :: "32 word" unfolding aligned_def m by (rule bit_eqI) (auto simp: bit_simps)
  note f = aligned_has[OF a[of "of_nat c"]] aligned_item[OF a[of "of_nat c"]]
  show "has (shared_word c) 1" "\<not> has (shared_word c) 2" "\<not> has (shared_word c) 4" "\<not> has (shared_word c) 8" "item (shared_word c) = of_nat (16 * c)"
    using f unfolding shared_word_eq by (simp_all add: srw_fields push_bit_eq_mult)
qed

lemma shared_drop:
  assumes "c < 2 ^ 28"
  shows "drop_bit 4 (shared_word c) = of_nat c"
proof -
  have "unat (drop_bit 4 (shared_word c)) = drop_bit 4 (16 * c + 1)" by (simp only: unat_drop_bit_eq unat_shared[OF assms])
  also have "\<dots> = c" by (simp add: drop_bit_eq_div)
  also have "\<dots> = unat (of_nat c :: 32 word)" using assms by (simp add: unat_of_nat take_bit_nat_eq_self)
  finally show ?thesis by (simp only: word_unat_eq_iff)
qed

lemma shared_item:
  assumes "c < 2 ^ 28"
  shows "item (shared_word c) \<le> 16 \<longleftrightarrow> c \<le> 1" "item (shared_word c) = 0 \<longleftrightarrow> c = 0"
proof -
  have u: "unat (item (shared_word c)) = 16 * c" unfolding shared_fields(5)
    using assms by (simp add: unat_of_nat take_bit_nat_eq_self del: of_nat_mult)
  show "item (shared_word c) \<le> 16 \<longleftrightarrow> c \<le> 1" unfolding word_le_nat_alt u by simp
  show "item (shared_word c) = 0 \<longleftrightarrow> c = 0" unfolding word_unat_eq_iff u by simp
qed

lemma shared_step:
  "shared_word c + 16 = shared_word (Suc c)" "0 < c \<Longrightarrow> shared_word c - 16 = shared_word (c - 1)" "(shared_word c + 16) OR 1 = shared_word (Suc c)"
proof -
  show s: "shared_word c + 16 = shared_word (Suc c)" by (simp add: shared_word_def)
  show "0 < c \<Longrightarrow> shared_word c - 16 = shared_word (c - 1)" by (cases c) (simp_all add: shared_word_def)
  show "(shared_word c + 16) OR 1 = shared_word (Suc c)" unfolding s by (simp only: shared_word_eq or.assoc or.idem)
qed

end
