(* ===== verification/Srw_Queue.thy ===== *)
theory Srw_Queue
  imports Srw_Words
begin

text \<open>The queue of wait nodes: \<open>q\<close> has their addresses, the head first. Up to index \<open>j\<close> the nodes are linked forward, and the node
  there knows the head; the nodes after it only have their links back.\<close>

definition queue_node :: "srw_nodes \<Rightarrow> 32 word list \<Rightarrow> nat \<Rightarrow> nat \<Rightarrow> bool" where
  "queue_node h q j i \<longleftrightarrow> (\<exists>n. h (q ! i) = Some n \<and> (0 < i \<longrightarrow> node_prev n = q ! (i - 1)) \<and> node_next n = (if i < j then q ! Suc i else 0) \<and>
     (i = j \<longrightarrow> node_head n = q ! 0) \<and> (j < i \<longrightarrow> node_head n = 0))"

definition queue_ok :: "srw_nodes \<Rightarrow> 32 word list \<Rightarrow> nat \<Rightarrow> bool" where
  "queue_ok h q j \<longleftrightarrow> j < length q \<and> distinct q \<and> 0 \<notin> set q \<and> (\<forall>i < length q. queue_node h q j i)"

text \<open>No node has been taken off yet: whoever knows a head knows the right one.\<close>

definition fresh_ok :: "srw_nodes \<Rightarrow> 32 word list \<Rightarrow> bool" where
  "fresh_ok h q \<longleftrightarrow> (\<forall>i < length q. \<exists>n. h (q ! i) = Some n \<and> (node_head n = q ! 0 \<or> 0 < i \<and> node_head n = 0))"

text \<open>Nodes taken off are linked forward.\<close>

definition linked :: "srw_nodes \<Rightarrow> 32 word list \<Rightarrow> bool" where
  "linked h as \<longleftrightarrow> (\<forall>i < length as. \<exists>n. h (as ! i) = Some n \<and> node_next n = (if Suc i < length as then as ! Suc i else 0))"

text \<open>Work on the queue changes only links.\<close>

definition relinked :: "srw_nodes \<Rightarrow> srw_nodes \<Rightarrow> 32 word list \<Rightarrow> bool" where
  "relinked h h' q \<longleftrightarrow> (\<forall>p. p \<notin> set q \<longrightarrow> h' p = h p) \<and>
     (\<forall>p \<in> set q. \<exists>n n'. h p = Some n \<and> h' p = Some n' \<and> node_flags n' = node_flags n \<and> shareSnapshot n' = shareSnapshot n \<and>
        (node_head n' = node_head n \<or> node_head n' = q ! 0))"

lemma queue_nonzero: "queue_ok h q j \<Longrightarrow> i < length q \<Longrightarrow> q ! i \<noteq> 0"
  by (metis nth_mem queue_ok_def)

section \<open>Walks\<close>

lemma head_loop_ok:
  assumes "queue_ok h q j" "fresh_ok h q" "i < length q"
  shows "head_loop h (q ! i) = Some (q ! 0)"
  using assms(3)
proof (induction i)
  case 0
  then show ?case using assms(1,2) queue_nonzero[OF assms(1), of 0] by (subst head_loop.simps) (auto simp: fresh_ok_def)
next
  case (Suc i)
  obtain n where n: "h (q ! Suc i) = Some n" "node_head n = q ! 0 \<or> node_head n = 0" using assms(2) Suc.prems by (auto simp: fresh_ok_def)
  have p: "node_prev n = q ! i" using assms(1) Suc.prems n(1) by (auto simp: queue_ok_def queue_node_def)
  show ?case using n p Suc queue_nonzero[OF assms(1), of 0] by (subst head_loop.simps) auto
qed

definition link_pre :: "srw_nodes \<Rightarrow> 32 word list \<Rightarrow> nat \<Rightarrow> nat \<Rightarrow> bool" where
  "link_pre h q j i \<longleftrightarrow> (\<forall>m. j \<le> m \<longrightarrow> m \<le> i \<longrightarrow> (\<exists>n. h (q ! m) = Some n \<and>
     (if m = j then node_head n = q ! 0 else node_head n = 0 \<and> node_prev n = q ! (m - 1))))"

lemma link_loop_ok:
  assumes "link_pre h q j i" "j \<le> i" "i < length q" "distinct q" "q ! 0 \<noteq> 0"
  shows "\<exists>h'. link_loop h (q ! i) = Some (h', q ! j, q ! 0) \<and> (\<forall>p. p \<notin> set q \<longrightarrow> h' p = h p) \<and>
    (\<forall>m < length q. h' (q ! m) = (if j \<le> m \<and> m < i then map_option (node_next_update (\<lambda>_. q ! Suc m)) (h (q ! m)) else h (q ! m)))"
  using assms(1-3)
proof (induction "i - j" arbitrary: h i)
  case 0
  then have "i = j" by simp
  then obtain n where "h (q ! i) = Some n" "node_head n = q ! 0" using 0(2) by (auto simp: link_pre_def)
  then have "link_loop h (q ! i) = Some (h, q ! j, q ! 0)" using assms(5) \<open>i = j\<close> by (subst link_loop.simps) simp
  then show ?case using \<open>i = j\<close> by auto
next
  case (Suc d)
  obtain n where n: "h (q ! i) = Some n" "node_head n = 0" "node_prev n = q ! (i - 1)" using Suc.hyps(2) Suc.prems by (auto simp: link_pre_def)
  have i: "j \<le> i - 1" "i - 1 < i" "Suc (i - 1) = i" using Suc.hyps(2) by auto
  have dd: "d = i - 1 - j" and il: "i - 1 < length q" using Suc.hyps(2) Suc.prems(3) by simp_all
  obtain n' where n': "h (q ! (i - 1)) = Some n'" using Suc.prems(1) i(1) by (auto simp: link_pre_def)
  define h1 where "h1 = h(q ! (i - 1) \<mapsto> n'\<lparr>node_next := q ! i\<rparr>)"
  have ne: "q ! m = q ! (i - 1) \<longleftrightarrow> m = i - 1" if "m < length q" for m using that Suc.prems(3) assms(4) by (simp add: nth_eq_iff_index_eq)
  have pre: "link_pre h1 q j (i - 1)" using Suc.prems(1,3) i n' by (auto simp: link_pre_def h1_def ne)
  have l: "link_loop h (q ! i) = link_loop h1 (q ! (i - 1))" using n n' by (subst link_loop.simps) (simp add: set_node_def h1_def)
  obtain h' where h': "link_loop h1 (q ! (i - 1)) = Some (h', q ! j, q ! 0)" "\<forall>p. p \<notin> set q \<longrightarrow> h' p = h1 p"
      "\<forall>m < length q. h' (q ! m) = (if j \<le> m \<and> m < i - 1 then map_option (node_next_update (\<lambda>_. q ! Suc m)) (h1 (q ! m)) else h1 (q ! m))"
    using Suc.hyps(1)[OF dd pre i(1) il] by blast
  have "\<forall>p. p \<notin> set q \<longrightarrow> h' p = h p" using h'(2) Suc.prems(3) by (auto simp: h1_def)
  moreover have "h' (q ! m) = (if j \<le> m \<and> m < i then map_option (node_next_update (\<lambda>_. q ! Suc m)) (h (q ! m)) else h (q ! m))" if m: "m < length q" for m
    using h'(3)[rule_format, OF m] ne[OF m] n' i by (auto simp: h1_def)
  ultimately show ?case using l h'(1) by auto
qed

text \<open>Linking the queue up to a node that then knows the head.\<close>

lemma queue_link:
  assumes q: "queue_ok h q j" and i: "j \<le> i" "i < length q"
  shows "\<exists>h' h''. link_loop h (q ! i) = Some (h', q ! j, q ! 0) \<and> set_node h' (q ! i) (node_head_update (\<lambda>_. q ! 0)) = Some h'' \<and>
    queue_ok h'' q i \<and> relinked h h'' q \<and> (i = j \<longrightarrow> h'' = h')"
proof -
  have d: "distinct q" "j < length q" using q by (simp_all add: queue_ok_def)
  have z: "q ! 0 \<noteq> 0" by (rule queue_nonzero[OF q]) (use d(2) in linarith)
  have qn: "queue_node h q j m" if "m < length q" for m using q that by (simp add: queue_ok_def)
  have pre: "link_pre h q j i" unfolding link_pre_def
  proof (intro allI impI)
    fix m assume "j \<le> m" "m \<le> i"
    then show "\<exists>n. h (q ! m) = Some n \<and> (if m = j then node_head n = q ! 0 else node_head n = 0 \<and> node_prev n = q ! (m - 1))"
      using qn[of m] i by (auto simp: queue_node_def)
  qed
  obtain h' where h': "link_loop h (q ! i) = Some (h', q ! j, q ! 0)" "\<forall>p. p \<notin> set q \<longrightarrow> h' p = h p"
      "\<forall>m < length q. h' (q ! m) = (if j \<le> m \<and> m < i then map_option (node_next_update (\<lambda>_. q ! Suc m)) (h (q ! m)) else h (q ! m))"
    using link_loop_ok[OF pre i d(1) z] by blast
  obtain n where n: "h (q ! i) = Some n" using qn[OF i(2)] by (auto simp: queue_node_def)
  then have n': "h' (q ! i) = Some n" using h'(3) i by simp
  define h'' where "h'' = h'(q ! i \<mapsto> n\<lparr>node_head := q ! 0\<rparr>)"
  have s: "set_node h' (q ! i) (node_head_update (\<lambda>_. q ! 0)) = Some h''" using n' by (simp add: set_node_def h''_def)
  have h2: "h'' (q ! m) = (if m = i then Some (n\<lparr>node_head := q ! 0\<rparr>) else h' (q ! m))" if "m < length q" for m
    using that d(1) i by (simp add: h''_def nth_eq_iff_index_eq)
  have "queue_node h'' q i m" if m: "m < length q" for m
    using qn[OF m] h2[OF m] h'(3)[rule_format, OF m] n i by (cases "m < j"; cases "m < i"; auto simp: queue_node_def)
  then have "queue_ok h'' q i" using q i by (simp add: queue_ok_def)
  moreover have "relinked h h'' q" unfolding relinked_def
  proof (intro conjI allI impI ballI)
    fix p assume "p \<notin> set q"
    then show "h'' p = h p" using h'(2) i by (auto simp: h''_def)
  next
    fix p assume "p \<in> set q"
    then obtain m where m: "m < length q" "p = q ! m" by (metis in_set_conv_nth)
    then show "\<exists>n n'. h p = Some n \<and> h'' p = Some n' \<and> node_flags n' = node_flags n \<and> shareSnapshot n' = shareSnapshot n \<and>
        (node_head n' = node_head n \<or> node_head n' = q ! 0)"
      using qn[OF m(1)] h2[OF m(1)] h'(3)[rule_format, OF m(1)] n by (auto simp: queue_node_def)
  qed
  moreover have "h'' = h'" if "i = j"
  proof -
    have "node_head n = q ! 0" using qn[OF i(2)] n that by (auto simp: queue_node_def)
    then have "n\<lparr>node_head := q ! 0\<rparr> = n" by simp
    then show ?thesis using n' by (simp add: h''_def fun_upd_idem)
  qed
  ultimately show ?thesis using h'(1) s by blast
qed

section \<open>Changes\<close>

lemma queue_cong:
  assumes "queue_ok h q j" "\<And>p. p \<in> set q \<Longrightarrow> \<exists>n n'. h p = Some n \<and> h' p = Some n' \<and> node_prev n' = node_prev n \<and> node_next n' = node_next n \<and> node_head n' = node_head n"
  shows "queue_ok h' q j"
proof -
  have "queue_node h' q j i" if "i < length q" for i
    using assms(1) assms(2)[OF nth_mem[OF that]] that by (fastforce simp: queue_ok_def queue_node_def)
  then show ?thesis using assms(1) by (simp add: queue_ok_def)
qed

lemma fresh_cong:
  assumes "fresh_ok h q" "\<And>p. p \<in> set q \<Longrightarrow> \<exists>n n'. h p = Some n \<and> h' p = Some n' \<and> (node_head n' = node_head n \<or> node_head n' = q ! 0)"
  shows "fresh_ok h' q"
  unfolding fresh_ok_def
proof (intro allI impI)
  fix i assume i: "i < length q"
  show "\<exists>n. h' (q ! i) = Some n \<and> (node_head n = q ! 0 \<or> 0 < i \<and> node_head n = 0)"
    using assms(1) assms(2)[OF nth_mem[OF i]] i by (fastforce simp: fresh_ok_def)
qed

lemma linked_cong:
  assumes "linked h as" "\<And>p. p \<in> set as \<Longrightarrow> \<exists>n n'. h p = Some n \<and> h' p = Some n' \<and> node_next n' = node_next n"
  shows "linked h' as"
  unfolding linked_def
proof (intro allI impI)
  fix i assume i: "i < length as"
  show "\<exists>n. h' (as ! i) = Some n \<and> node_next n = (if Suc i < length as then as ! Suc i else 0)"
    using assms(1) assms(2)[OF nth_mem[OF i]] i by (fastforce simp: linked_def)
qed

lemma queue_first: "aligned a \<Longrightarrow> a \<noteq> 0 \<Longrightarrow> node_head n = a \<Longrightarrow> node_next n = 0 \<Longrightarrow> queue_ok (h(a \<mapsto> n)) [a] 0 \<and> fresh_ok (h(a \<mapsto> n)) [a]"
  by (simp add: queue_ok_def queue_node_def fresh_ok_def)

lemma queue_append:
  assumes "queue_ok h q j" "a \<notin> set q" "a \<noteq> 0" "node_prev n = last q" "node_head n = 0" "node_next n = 0"
  shows "queue_ok (h(a \<mapsto> n)) (q @ [a]) j" "fresh_ok h q \<Longrightarrow> fresh_ok (h(a \<mapsto> n)) (q @ [a])"
proof -
  have l: "j < length q" "last q = q ! (length q - 1)" using assms(1) by (cases "q = []"; auto simp: queue_ok_def last_conv_nth)+
  have ne: "q ! i \<noteq> a" if "i < length q" for i using assms(2) that nth_mem by blast
  have "queue_node (h(a \<mapsto> n)) (q @ [a]) j i" if "i < Suc (length q)" for i
  proof (cases "i = length q")
    case True
    then show ?thesis using assms(4-6) l by (auto simp: queue_node_def nth_append)
  next
    case False
    then have "queue_node h q j i" "q ! i \<noteq> a" "i < length q" using assms(1) that ne by (auto simp: queue_ok_def)
    then show ?thesis using l by (auto simp: queue_node_def nth_append)
  qed
  then show "queue_ok (h(a \<mapsto> n)) (q @ [a]) j" using assms(1-3) by (simp add: queue_ok_def)
  show "fresh_ok (h(a \<mapsto> n)) (q @ [a])" if "fresh_ok h q"
    using that assms(5) ne l unfolding fresh_ok_def by (fastforce simp: nth_append less_Suc_eq)
qed

lemma queue_head_node:
  assumes "queue_ok h q j"
  obtains n where "h (q ! 0) = Some n" "node_next n \<noteq> 0 \<longleftrightarrow> 0 < j" "0 < j \<Longrightarrow> node_next n = q ! 1"
proof -
  have l: "0 < length q" using assms by (auto simp: queue_ok_def)
  then obtain n where n: "h (q ! 0) = Some n" "node_next n = (if 0 < j then q ! 1 else 0)" using assms by (auto simp: queue_ok_def queue_node_def)
  moreover have "0 < j \<Longrightarrow> q ! 1 \<noteq> 0" by (rule queue_nonzero[OF assms]) (use assms in \<open>simp add: queue_ok_def\<close>)
  ultimately show ?thesis using that by auto
qed

text \<open>Taking off the first node.\<close>

lemma queue_tl:
  assumes q: "queue_ok h q j" and j: "0 < j"
  shows "\<exists>h' h''. set_node h (q ! j) (node_head_update (\<lambda>_. q ! 1)) = Some h' \<and> set_node h' (q ! 0) (node_next_update (\<lambda>_. 0)) = Some h'' \<and>
    queue_ok h'' (tl q) (j - 1) \<and> linked h'' [q ! 0] \<and>
    (\<forall>p. p \<notin> set q \<longrightarrow> h'' p = h p) \<and> (\<forall>p \<in> set q. \<exists>n n'. h p = Some n \<and> h'' p = Some n' \<and> node_flags n' = node_flags n)"
proof -
  have d: "distinct q" "j < length q" "0 \<notin> set q" using q by (simp_all add: queue_ok_def)
  then have q0: "q \<noteq> []" by auto
  have qn: "queue_node h q j m" if "m < length q" for m using q that by (simp add: queue_ok_def)
  obtain n where n: "h (q ! j) = Some n" using qn[OF d(2)] by (auto simp: queue_node_def)
  obtain m where m: "h (q ! 0) = Some m" using qn[of 0] d(2) by (cases "q = []"; auto simp: queue_node_def)
  have ne: "q ! x = q ! y \<longleftrightarrow> x = y" if "x < length q" "y < length q" for x y using that d(1) by (simp add: nth_eq_iff_index_eq)
  define h' where "h' = h(q ! j \<mapsto> n\<lparr>node_head := q ! 1\<rparr>)"
  define h'' where "h'' = h'(q ! 0 \<mapsto> m\<lparr>node_next := 0\<rparr>)"
  have m': "h' (q ! 0) = Some m" using m j d(2) q0 ne[of 0 j] by (simp add: h'_def)
  have s: "set_node h (q ! j) (node_head_update (\<lambda>_. q ! 1)) = Some h'" "set_node h' (q ! 0) (node_next_update (\<lambda>_. 0)) = Some h''"
    using n m' by (simp_all add: set_node_def h'_def h''_def)
  have v: "h'' (q ! x) = (if x = 0 then Some (m\<lparr>node_next := 0\<rparr>) else if x = j then Some (n\<lparr>node_head := q ! 1\<rparr>) else h (q ! x))" if "x < length q" for x
    using that d(2) q0 ne[of x 0] ne[of x j] j by (auto simp: h''_def h'_def)
  have "queue_node h'' (tl q) (j - 1) i" if i: "i < length (tl q)" for i
  proof -
    have x: "Suc i < length q" "tl q ! i = q ! Suc i" using i by (simp_all add: nth_tl)
    have "tl q ! 0 = q ! 1" "0 < i \<Longrightarrow> tl q ! (i - 1) = q ! i" "i < j - 1 \<Longrightarrow> tl q ! Suc i = q ! Suc (Suc i)" using x d(2) by (simp_all add: nth_tl)
    then show ?thesis using qn[OF x(1)] v[OF x(1)] n j x by (auto simp: queue_node_def)
  qed
  moreover have "0 \<notin> set (tl q)" using d(3) list.set_sel(2)[OF q0] by blast
  ultimately have "queue_ok h'' (tl q) (j - 1)" using d j by (simp add: queue_ok_def distinct_tl)
  moreover have "linked h'' [q ! 0]" using v[of 0] q0 by (auto simp: linked_def)
  moreover have "\<exists>n n'. h p = Some n \<and> h'' p = Some n' \<and> node_flags n' = node_flags n" if p: "p \<in> set q" for p
  proof -
    obtain x where "x < length q" "p = q ! x" using p by (metis in_set_conv_nth)
    then show ?thesis using v[of x] qn[of x] n m by (auto simp: queue_node_def)
  qed
  moreover have "h'' p = h p" if "p \<notin> set q" for p using that d(2) q0 nth_mem[of 0 q] nth_mem[of j q] by (auto simp: h''_def h'_def)
  ultimately show ?thesis using s by blast
qed

text \<open>A queue that is linked to its end can be taken off as a whole.\<close>

lemma queue_linked: "queue_ok h q (length q - 1) \<Longrightarrow> linked h q"
  unfolding queue_ok_def linked_def queue_node_def by fastforce

end
