(* ===== verification/Srw_Inv.thy ===== *)
theory Srw_Inv
  imports Srw_Queue
begin

text \<open>The invariant of a lock. \<open>q\<close> has the addresses of the queued nodes, linked up to index \<open>j\<close>; \<open>d t\<close> has those that thread \<open>t\<close> has
  taken off the queue and not woken yet.\<close>

section \<open>Threads\<close>

fun to_wait :: "srw_ret \<Rightarrow> bool" where
  "to_wait ToCaller = False"
| "to_wait (ToWait e old) = True"

text \<open>A node of the thread is in use; it sleeps; it holds the lock shared; it is the last to release it; it has the right to change
  the queue.\<close>

fun waits :: "srw_pc \<Rightarrow> bool" where
  "waits (Waiting e old) = True"
| "waits (Blocked e old) = True"
| "waits (Compress old k) = to_wait k"
| "waits (Wake old k) = to_wait k"
| "waits (Dequeue old first k) = to_wait k"
| "waits (Signal p k) = to_wait k"
| "waits (Key p nxt k) = to_wait k"
| "waits p = False"

fun blocked :: "srw_pc \<Rightarrow> bool" where
  "blocked (Blocked e old) = True"
| "blocked p = False"

fun sharing :: "srw_pc \<Rightarrow> bool" where
  "sharing HoldS = True"
| "sharing (ReleaseS old) = True"
| "sharing p = False"

fun clearing :: "srw_pc \<Rightarrow> bool" where
  "clearing (Clear old) = True"
| "clearing p = False"

fun linking :: "srw_pc \<Rightarrow> bool" where
  "linking (Compress old k) = True"
| "linking (Wake old k) = True"
| "linking (Dequeue old first k) = True"
| "linking p = False"

lemma resume_cls [simp]:
  "waits (resume k) = to_wait k" "\<not> blocked (resume k)" "\<not> sharing (resume k)" "\<not> clearing (resume k)" "\<not> linking (resume k)" "resume k \<noteq> HoldX"
  by (cases k; simp)+

abbreviation Xs :: "(nat \<Rightarrow> srw_pc) \<Rightarrow> nat set" where "Xs f \<equiv> {t. f t = HoldX}"
abbreviation Ss :: "(nat \<Rightarrow> srw_pc) \<Rightarrow> nat set" where "Ss f \<equiv> {t. sharing (f t)}"
abbreviation Cs :: "(nat \<Rightarrow> srw_pc) \<Rightarrow> nat set" where "Cs f \<equiv> {t. clearing (f t)}"

section \<open>Invariant\<close>

text \<open>The word and the threads that hold the lock.\<close>

definition lock_ok :: "32 word \<Rightarrow> srw_nodes \<Rightarrow> 32 word list \<Rightarrow> nat set \<Rightarrow> nat set \<Rightarrow> nat set \<Rightarrow> bool" where
  "lock_ok w h q X S C \<longleftrightarrow>
     (if has w 2 then q \<noteq> [] \<and> item w = last q \<and>
        (if has w 8 then has w 1 \<and> X = {} \<and> (\<exists>n. h (q ! 0) = Some n \<and> card S = unat (shareSnapshot n)) \<and> (if S = {} then \<exists>t. C = {t} else C = {})
         else if has w 1 then \<exists>t. X \<union> S \<union> C = {t} else X \<union> S \<union> C = {})
      else q = [] \<and> C = {} \<and>
        (w = 0 \<and> X = {} \<and> S = {} \<or> w = 1 \<and> S = {} \<and> (\<exists>t. X = {t}) \<or> w = shared_word (card S) \<and> X = {} \<and> S \<noteq> {}))"

definition link_ok :: "32 word \<Rightarrow> (nat \<Rightarrow> srw_pc) \<Rightarrow> bool" where
  "link_ok w f \<longleftrightarrow> (has w 4 \<longleftrightarrow> (\<exists>t. linking (f t))) \<and> (\<forall>t u. linking (f t) \<longrightarrow> linking (f u) \<longrightarrow> t = u) \<and> (has w 4 \<longrightarrow> has w 2)"

text \<open>What a thread that works on the queue has read of the word: the node there is in the queue, not before index \<open>j\<close>.\<close>

definition behind :: "32 word \<Rightarrow> 32 word list \<Rightarrow> nat \<Rightarrow> 32 word \<Rightarrow> bool" where
  "behind w q j old \<longleftrightarrow> has old 2 \<and> has old 4 \<and> (\<not> has old 1 \<longrightarrow> \<not> has w 8) \<and> (\<exists>i. j \<le> i \<and> i < length q \<and> item old = q ! i)"

fun pc_ok :: "32 word \<Rightarrow> srw_nodes \<Rightarrow> 32 word list \<Rightarrow> nat \<Rightarrow> 32 word list \<Rightarrow> srw_pc \<Rightarrow> bool" where
  "pc_ok w h q j ds (ReleaseS old) \<longleftrightarrow> ds = [] \<and> (has old 2 \<longrightarrow> has w 2 \<and> has old 8 = has w 8 \<and> (has old 8 \<longrightarrow> item old \<in> set q))"
| "pc_ok w h q j ds (ReleaseX old) \<longleftrightarrow> ds = [] \<and> \<not> has old 1 \<and> has old 2 \<and> \<not> has old 4"
| "pc_ok w h q j ds (Compress old k) \<longleftrightarrow> ds = [] \<and> behind w q j old"
| "pc_ok w h q j ds (Wake old k) \<longleftrightarrow> ds = [] \<and> behind w q j old"
| "pc_ok w h q j ds (Dequeue old first k) \<longleftrightarrow> ds = [] \<and> behind w q j old \<and> \<not> has old 1 \<and> item old = q ! j \<and> first = q ! 0"
| "pc_ok w h q j ds (Signal p k) \<longleftrightarrow> ds \<noteq> [] \<and> p = hd ds \<and> linked h ds"
| "pc_ok w h q j ds (Key p nxt k) \<longleftrightarrow> ds \<noteq> [] \<and> p = hd ds \<and> linked h ds \<and> nxt = (if tl ds = [] then 0 else hd (tl ds)) \<and>
     (\<exists>n. h p = Some n \<and> \<not> has (node_flags n) 2)"
| "pc_ok w h q j ds p \<longleftrightarrow> ds = []"

definition listed :: "32 word list \<Rightarrow> (nat \<Rightarrow> 32 word list) \<Rightarrow> 32 word \<Rightarrow> bool" where
  "listed q d a \<longleftrightarrow> a \<in> set q \<or> (\<exists>t. a \<in> set (d t))"

text \<open>The nodes queued or taken off are those of threads that have to be woken: they spin or sleep.\<close>

definition lists_ok :: "32 word list \<Rightarrow> (nat \<Rightarrow> 32 word list) \<Rightarrow> bool" where
  "lists_ok q d \<longleftrightarrow> distinct q \<and> (\<forall>t. distinct (d t)) \<and> (\<forall>t. set q \<inter> set (d t) = {}) \<and> (\<forall>t u. t \<noteq> u \<longrightarrow> set (d t) \<inter> set (d u) = {})"

definition wait_ok :: "(nat \<Rightarrow> 32 word) \<Rightarrow> nat \<Rightarrow> (nat \<Rightarrow> srw_pc) \<Rightarrow> srw_nodes \<Rightarrow> (32 word \<Rightarrow> bool) \<Rightarrow> bool" where
  "wait_ok addr N f h L \<longleftrightarrow>
     (\<forall>a. L a \<longrightarrow> (\<exists>t < N. a = addr t \<and> waits (f t))) \<and>
     (\<forall>t < N. waits (f t) \<longrightarrow> (\<exists>n. h (addr t) = Some n \<and> (has (node_flags n) 2 \<longleftrightarrow> L (addr t) \<and> \<not> blocked (f t)))) \<and>
     (\<forall>t < N. blocked (f t) \<longrightarrow> L (addr t))"

definition addr_ok :: "(nat \<Rightarrow> 32 word) \<Rightarrow> nat \<Rightarrow> bool" where
  "addr_ok addr N \<longleftrightarrow> N < 2 ^ 28 \<and> inj_on addr {..<N} \<and> (\<forall>t < N. addr t \<noteq> 0 \<and> aligned (addr t))"

definition srw_inv :: "(nat \<Rightarrow> 32 word) \<Rightarrow> nat \<Rightarrow> srw \<Rightarrow> 32 word list \<Rightarrow> nat \<Rightarrow> (nat \<Rightarrow> 32 word list) \<Rightarrow> bool" where
  "srw_inv addr N s q j d \<longleftrightarrow>
     lock_ok (Ptr s) (Nodes s) q (Xs (pcs s)) (Ss (pcs s)) (Cs (pcs s)) \<and>
     (q \<noteq> [] \<longrightarrow> queue_ok (Nodes s) q j) \<and> (has (Ptr s) 8 \<longrightarrow> fresh_ok (Nodes s) q) \<and>
     link_ok (Ptr s) (pcs s) \<and> (\<forall>t. pc_ok (Ptr s) (Nodes s) q j (d t) (pcs s t)) \<and>
     lists_ok q d \<and> wait_ok addr N (pcs s) (Nodes s) (listed q d) \<and> (\<forall>t \<ge> N. pcs s t = Idle)"

lemma srw_invD:
  assumes "srw_inv addr N s q j d"
  shows "lock_ok (Ptr s) (Nodes s) q (Xs (pcs s)) (Ss (pcs s)) (Cs (pcs s))" "q \<noteq> [] \<Longrightarrow> queue_ok (Nodes s) q j"
    "has (Ptr s) 8 \<Longrightarrow> fresh_ok (Nodes s) q" "link_ok (Ptr s) (pcs s)" "pc_ok (Ptr s) (Nodes s) q j (d t) (pcs s t)"
    "lists_ok q d" "wait_ok addr N (pcs s) (Nodes s) (listed q d)" "t \<ge> N \<Longrightarrow> pcs s t = Idle"
  using assms by (simp_all add: srw_inv_def)

section \<open>Steps that leave the queue alone\<close>

lemma unlisted:
  assumes "addr_ok addr N" "wait_ok addr N f h L" "t < N" "\<not> waits (f t)"
  shows "\<not> L (addr t)"
  using assms by (auto simp: addr_ok_def wait_ok_def inj_on_def)

lemma pc_ok_nodes:
  assumes "pc_ok w h q j ds p" "\<And>a. a \<in> set ds \<Longrightarrow> h' a = h a"
  shows "pc_ok w h' q j ds p"
proof -
  have l: "linked h' ds" if "linked h ds" using that assms(2) by (auto simp: linked_def)
  show ?thesis using assms l by (cases p) auto
qed

text \<open>A thread moves on and changes the word, and at most its own node while that is not in use.\<close>

lemma inv_move:
  assumes A: "addr_ok addr N" and I: "srw_inv addr N s q j d" and t: "t < N"
    and p: "waits p = waits (pcs s t)" "blocked p = blocked (pcs s t)" "d t = [] \<or> h = Nodes s" "pc_ok w (Nodes s) q j (d t) p"
    and h: "\<And>a. a \<noteq> addr t \<Longrightarrow> h a = Nodes s a" "waits (pcs s t) \<Longrightarrow> h = Nodes s"
    and l: "lock_ok w (Nodes s) q (Xs ((pcs s)(t := p))) (Ss ((pcs s)(t := p))) (Cs ((pcs s)(t := p)))" "link_ok w ((pcs s)(t := p))"
    and w: "has w 8 \<Longrightarrow> has (Ptr s) 8" "\<And>u. u \<noteq> t \<Longrightarrow> pc_ok (Ptr s) (Nodes s) q j (d u) (pcs s u) \<Longrightarrow> pc_ok w (Nodes s) q j (d u) (pcs s u)"
  shows "srw_inv addr N (s\<lparr>Ptr := w, Nodes := h, pcs := (pcs s)(t := p)\<rparr>) q j d"
proof -
  note D = srw_invD[OF I]
  have L: "h a = Nodes s a" if "listed q d a" for a
  proof (cases "waits (pcs s t)")
    case False
    then have "a \<noteq> addr t" using unlisted[OF A D(7) t] that by auto
    then show ?thesis by (rule h(1))
  qed (use h(2) in simp)
  have Lq: "h a = Nodes s a" if "a \<in> set q" for a using L that by (simp add: listed_def)
  have "lock_ok w h q (Xs ((pcs s)(t := p))) (Ss ((pcs s)(t := p))) (Cs ((pcs s)(t := p)))"
    using l(1) Lq[OF nth_mem, of 0] by (auto simp: lock_ok_def split: if_splits)
  moreover have "queue_ok h q j" if "q \<noteq> []"
    using D(2)[OF that] Lq by (simp add: queue_ok_def queue_node_def)
  moreover have "fresh_ok h q" if "has w 8"
    using D(3)[OF w(1)[OF that]] Lq by (auto simp: fresh_ok_def)
  moreover have "pc_ok w h q j (d u) (((pcs s)(t := p)) u)" for u
  proof (rule pc_ok_nodes)
    show "pc_ok w (Nodes s) q j (d u) (((pcs s)(t := p)) u)" using p(4) w(2)[OF _ D(5)] by simp
    show "h a = Nodes s a" if "a \<in> set (d u)" for a using L that by (auto simp: listed_def)
  qed
  moreover have "wait_ok addr N ((pcs s)(t := p)) h (listed q d)" unfolding wait_ok_def
  proof (intro conjI allI impI)
    fix a assume "listed q d a"
    then show "\<exists>u < N. a = addr u \<and> waits (((pcs s)(t := p)) u)" using D(7) p(1) by (fastforce simp: wait_ok_def)
  next
    fix u assume u: "u < N" "waits (((pcs s)(t := p)) u)"
    then have wu: "waits (pcs s u)" "blocked (((pcs s)(t := p)) u) = blocked (pcs s u)" using p(1,2) by (auto split: if_splits)
    have "h (addr u) = Nodes s (addr u)"
    proof (cases "u = t")
      case False
      then have "addr u \<noteq> addr t" using A u(1) t by (auto simp: addr_ok_def inj_on_def)
      then show ?thesis by (rule h(1))
    qed (use h(2) wu(1) in simp)
    then show "\<exists>n. h (addr u) = Some n \<and> has (node_flags n) 2 = (listed q d (addr u) \<and> \<not> blocked (((pcs s)(t := p)) u))"
      using D(7) u(1) wu by (simp add: wait_ok_def)
  next
    fix u assume "u < N" "blocked (((pcs s)(t := p)) u)"
    then show "listed q d (addr u)" using D(7) p(2) by (auto simp: wait_ok_def split: if_splits)
  qed
  ultimately show ?thesis using D(6,8) l(2) t by (simp add: srw_inv_def)
qed

end
