(* ===== verification/Srw_Word_Steps.thy ===== *)
theory Srw_Word_Steps
  imports Srw_Inv
begin

text \<open>Steps that change the lock word and leave the queue as it is: taking the lock, giving it up, and giving up the work on the queue.\<close>

section \<open>Word and holders\<close>

lemma cls_upd [simp]:
  "Xs (f(t := p)) = (if p = HoldX then insert t (Xs f) else Xs f - {t})"
  "Ss (f(t := p)) = (if sharing p then insert t (Ss f) else Ss f - {t})"
  "Cs (f(t := p)) = (if clearing p then insert t (Cs f) else Cs f - {t})"
  by auto

lemma lock_free:
  assumes "lock_ok w h q X S C" "\<not> has w 1"
  shows "X = {}" "S = {}" "C = {}" "\<not> has w 8" "\<not> has w 2 \<Longrightarrow> w = 0"
  using assms by (auto simp: lock_ok_def has_consts shared_fields split: if_splits)

lemma lock_nowait:
  assumes "lock_ok w h q X S C" "q = []"
  shows "\<not> has w 2" "\<not> has w 4" "\<not> has w 8"
  using assms by (auto simp: lock_ok_def has_consts split: if_splits)

lemma lock_wait: "lock_ok w h q X S C \<Longrightarrow> \<not> has w 2 \<longleftrightarrow> q = []"
  by (auto simp: lock_ok_def split: if_splits)

lemma lock_take:
  assumes "lock_ok w h q {} {} {}" "\<not> has w 1" "has w 2 \<or> S = {}" "X \<union> S = {t}"
  shows "lock_ok (w OR 1) h q X S {}"
proof (cases "has w 2")
  case True
  then show ?thesis using assms lock_free(4,5)[OF assms(1,2)] by (auto simp: lock_ok_def srw_fields)
next
  case False
  then show ?thesis using assms lock_free(4,5)[OF assms(1,2)] by (auto simp: lock_ok_def srw_fields)
qed

lemma lock_share:
  assumes "lock_ok w h q X S C" "\<not> has w 2" "\<not> has w 1 \<or> item w \<noteq> 0" "t \<notin> S" "finite S"
  shows "lock_ok ((w + 16) OR 1) h q {} (insert t S) {}" "w \<noteq> 0 \<Longrightarrow> w + 16 = (w + 16) OR 1" "X = {}" "C = {}"
proof -
  have w: "w = shared_word (card S) \<and> S \<noteq> {} \<or> w = 0 \<and> S = {}" and e: "X = {}" "C = {}" "q = []"
    using assms(1-3) by (auto simp: lock_ok_def has_consts split: if_splits)
  have c: "card (insert t S) = Suc (card S)" using assms(4,5) by simp
  have "(w + 16) OR 1 = shared_word (Suc (card S))"
  proof (cases "S = {}")
    case False
    then have "w = shared_word (card S)" using w by blast
    then show ?thesis by (simp only: shared_step(3))
  qed (use w in \<open>auto simp: shared_word_def\<close>)
  then have n: "(w + 16) OR 1 = shared_word (card (insert t S))" by (simp only: c)
  show "lock_ok ((w + 16) OR 1) h q {} (insert t S) {}" using e unfolding lock_ok_def n by simp
  show "w + 16 = (w + 16) OR 1" if "w \<noteq> 0"
  proof -
    have "w = shared_word (card S)" using w that by blast
    then show ?thesis by (simp only: shared_step(3)) (simp only: shared_step(1))
  qed
  show "X = {}" "C = {}" by (fact e)+
qed

lemma lock_unshare:
  assumes "lock_ok w h q X S C" "\<not> has w 2" "t \<in> S" "finite S" "card S < 2 ^ 28"
  shows "lock_ok (if item w \<le> 16 then 0 else w - 16) h q X (S - {t}) C"
proof -
  have w: "w = shared_word (card S)" and e: "X = {}" "C = {}" "q = []"
    using assms(1-3) by (auto simp: lock_ok_def split: if_splits)
  have c: "card (S - {t}) = card S - 1" "0 < card S" using assms(3,4) by (auto simp: card_gt_0_iff)
  show ?thesis
  proof (cases "card S \<le> 1")
    case True
    then have "S - {t} = {}" using assms(3,4) by (simp add: card_le_Suc0_iff_eq) blast
    then show ?thesis using True e unfolding w shared_item(1)[OF assms(5)] by (simp add: lock_ok_def)
  next
    case False
    then have ne: "S - {t} \<noteq> {}" using c by (metis card.empty diff_is_0_eq)
    have "w - 16 = shared_word (card (S - {t}))" unfolding w c(1) by (rule shared_step(2)[OF c(2)])
    moreover have "\<not> item w \<le> 16" using False unfolding w shared_item(1)[OF assms(5)] .
    ultimately show ?thesis unfolding lock_ok_def using e ne by simp
  qed
qed

lemma singleton_same: "\<exists>u. A = {u} \<Longrightarrow> t \<in> A \<Longrightarrow> u \<in> A \<Longrightarrow> u = t"
  by auto

lemma lock_exclusive:
  assumes "lock_ok w h q X S C" "t \<in> X" "t \<notin> S" "t \<notin> C"
  shows "X = {t}" "S = {}" "C = {}" "has w 1" "\<not> has w 8" "has w 2 \<or> w = 1"
proof -
  have *: "(\<exists>u. X \<union> S \<union> C = {u}) \<and> has w 1 \<and> \<not> has w 8 \<and> (has w 2 \<or> w = 1)"
    using assms(1,2) by (auto simp: lock_ok_def has_consts split: if_splits)
  then have "u = t" if "u \<in> X \<union> S \<union> C" for u using that assms(2) singleton_same[of "X \<union> S \<union> C" t u] by simp
  then show "X = {t}" "S = {}" "C = {}" using assms(2-4) by auto
  show "has w 1" "\<not> has w 8" "has w 2 \<or> w = 1" using * by simp_all
qed

lemma lock_flags:
  assumes "lock_ok w h q X S C" "has w' 2 = has w 2" "has w' 1 = has w 1" "has w' 8 = has w 8" "item w' = item w" "has w 2"
  shows "lock_ok w' h q X S C"
  using assms by (simp add: lock_ok_def)

text \<open>The last thread that held the lock shared, with threads waiting.\<close>

lemma lock_last:
  assumes "lock_ok w h q X S C" "t \<in> C \<or> t \<in> S \<and> has w 2 \<and> \<not> has w 8" "t \<notin> X"
  shows "has w 2" "has w 1" "X = {}" "S \<union> C = {t}"
proof -
  have *: "has w 2 \<and> has w 1 \<and> (\<exists>u. X \<union> S \<union> C = {u})"
    using assms(1,2) by (auto simp: lock_ok_def split: if_splits)
  then have "u = t" if "u \<in> X \<union> S \<union> C" for u using that assms(2) singleton_same[of "X \<union> S \<union> C" t u] by auto
  then show "X = {}" "S \<union> C = {t}" using assms(2,3) by auto
  show "has w 2" "has w 1" using * by simp_all
qed

lemma lock_clear:
  assumes "lock_ok w h q X S C" "has w 2" "\<not> has w' 8" "\<not> has w' 1" "has w' 2" "item w' = item w"
  shows "lock_ok w' h q {} {} {}"
  using assms by (auto simp: lock_ok_def split: if_splits)

section \<open>Threads that do not move\<close>

lemma pc_ok_word:
  assumes "pc_ok w h q j ds p" "has w' 2 = has w 2" "has w' 8 = has w 8"
  shows "pc_ok w' h q j ds p"
  using assms by (cases p) (auto simp: behind_def)

lemma pc_ok_clear:
  assumes "pc_ok w h q j ds p" "\<not> sharing p" "\<not> has w' 8"
  shows "pc_ok w' h q j ds p"
  using assms by (cases p) (auto simp: behind_def)

lemma pc_ok_other:
  assumes "pc_ok w h q j ds p" "\<not> sharing p" "\<not> linking p"
  shows "pc_ok w' h q' j' ds p"
  using assms by (cases p) auto

lemma link_same:
  assumes "link_ok w f" "linking p = linking (f t)" "has w' 4 = has w 4" "has w' 4 \<Longrightarrow> has w' 2"
  shows "link_ok w' (f(t := p))"
proof -
  have "linking ((f(t := p)) u) = linking (f u)" for u using assms(2) by simp
  then show ?thesis using assms(1,3,4) unfolding link_ok_def by presburger
qed

lemma link_begin:
  assumes "link_ok w f" "\<not> has w 4" "linking p" "has w' 4" "has w' 2"
  shows "link_ok w' (f(t := p))"
  using assms by (auto simp: link_ok_def)

lemma link_end:
  assumes "link_ok w f" "linking (f t)" "\<not> linking p" "\<not> has w' 4"
  shows "link_ok w' (f(t := p))"
  using assms by (auto simp: link_ok_def)

section \<open>Steps\<close>

lemma record_same [simp]: "s\<lparr>Ptr := Ptr s, Nodes := Nodes s, pcs := f\<rparr> = s\<lparr>pcs := f\<rparr>"
  "s\<lparr>Ptr := w, Nodes := Nodes s, pcs := f\<rparr> = s\<lparr>Ptr := w, pcs := f\<rparr>"
  "s\<lparr>Ptr := Ptr s, Nodes := h, pcs := f\<rparr> = s\<lparr>Nodes := h, pcs := f\<rparr>"
  by simp_all

lemma record_order [simp]: "s\<lparr>pcs := f, Ptr := w\<rparr> = s\<lparr>Ptr := w, pcs := f\<rparr>" "s\<lparr>pcs := f, Nodes := h\<rparr> = s\<lparr>Nodes := h, pcs := f\<rparr>"
  "s\<lparr>Nodes := h, Ptr := w\<rparr> = s\<lparr>Ptr := w, Nodes := h\<rparr>" for s :: srw
  by simp_all

text \<open>A thread that is in no class before and after the step, or in the same.\<close>

lemma inv_goto:
  assumes "addr_ok addr N" "srw_inv addr N s q j d" "t < N"
    "waits p = waits (pcs s t)" "blocked p = blocked (pcs s t)" "sharing p = sharing (pcs s t)" "clearing p = clearing (pcs s t)"
    "linking p = linking (pcs s t)" "(p = HoldX) = (pcs s t = HoldX)" "pc_ok (Ptr s) (Nodes s) q j (d t) p"
  shows "srw_inv addr N (goto t p s) q j d"
proof -
  note D = srw_invD[OF assms(2)]
  have "Xs ((pcs s)(t := p)) = Xs (pcs s)" "Ss ((pcs s)(t := p)) = Ss (pcs s)" "Cs ((pcs s)(t := p)) = Cs (pcs s)" using assms(6,7,9) by auto
  then have l: "lock_ok (Ptr s) (Nodes s) q (Xs ((pcs s)(t := p))) (Ss ((pcs s)(t := p))) (Cs ((pcs s)(t := p)))" using D(1) by (simp only:)
  have "srw_inv addr N (s\<lparr>Ptr := Ptr s, Nodes := Nodes s, pcs := (pcs s)(t := p)\<rparr>) q j d"
    by (rule inv_move[OF assms(1-5) disjI2[OF refl] assms(10) refl refl l link_same[OF D(4) assms(8) refl]]) (use D(4) in \<open>auto simp: link_ok_def\<close>)
  then show ?thesis by simp
qed

text \<open>A step of a thread with no waiting node on the word alone; its node may be set or lost.\<close>

lemma inv_word:
  assumes A: "addr_ok addr N" and I: "srw_inv addr N s q j d" and t: "t < N" "\<not> waits (pcs s t)" "\<not> waits p" "d t = []"
    and p: "pc_ok w (Nodes s) q j [] p"
    and h: "\<And>a. a \<noteq> addr t \<Longrightarrow> h a = Nodes s a"
    and l: "lock_ok w (Nodes s) q (Xs ((pcs s)(t := p))) (Ss ((pcs s)(t := p))) (Cs ((pcs s)(t := p)))" "link_ok w ((pcs s)(t := p))"
    and w: "has w 8 \<Longrightarrow> has (Ptr s) 8" "\<And>u. u \<noteq> t \<Longrightarrow> pc_ok (Ptr s) (Nodes s) q j (d u) (pcs s u) \<Longrightarrow> pc_ok w (Nodes s) q j (d u) (pcs s u)"
  shows "srw_inv addr N (s\<lparr>Ptr := w, Nodes := h, pcs := (pcs s)(t := p)\<rparr>) q j d"
proof -
  have b: "\<not> blocked x" if "\<not> waits x" for x using that by (cases x) auto
  show ?thesis
  proof (rule inv_move[OF A I t(1) _ _ _ _ h _ l w])
    show "waits p = waits (pcs s t)" "blocked p = blocked (pcs s t)" "d t = [] \<or> h = Nodes s" "pc_ok w (Nodes s) q j (d t) p"
      using t(2-4) b p by simp_all
  qed (use t(2) in simp_all)
qed

lemma inv_sets:
  assumes "srw_inv addr N s q j d" "t < N"
  shows "finite (Ss (pcs s))" "card (Ss (pcs s)) \<le> N" "t \<notin> Ss (pcs s) \<Longrightarrow> card (Ss (pcs s)) < N"
proof -
  have s: "Ss (pcs s) \<subseteq> {..<N}"
  proof
    fix u assume "u \<in> Ss (pcs s)"
    then show "u \<in> {..<N}" using srw_invD(8)[OF assms(1), of u] by (cases "u < N") auto
  qed
  then show "finite (Ss (pcs s))" "card (Ss (pcs s)) \<le> N" using finite_subset[OF s] card_mono[OF _ s] by simp_all
  show "card (Ss (pcs s)) < N" if "t \<notin> Ss (pcs s)"
    using psubset_card_mono[of "{..<N}" "Ss (pcs s)"] s that assms(2) by auto
qed

section \<open>Taking the lock\<close>

fun outside :: "srw_pc \<Rightarrow> bool" where
  "outside Idle = True"
| "outside (Reread e) = True"
| "outside (Acquire e old) = True"
| "outside RereadTry = True"
| "outside (TryS old) = True"
| "outside p = False"

lemma outsideD:
  assumes "outside p"
  shows "\<not> waits p" "\<not> blocked p" "\<not> sharing p" "\<not> clearing p" "\<not> linking p" "p \<noteq> HoldX" "pc_ok w h q j ds p \<longleftrightarrow> ds = []"
  using assms by (cases p; simp)+

lemma outside_inv:
  assumes "srw_inv addr N s q j d" "outside (pcs s t)"
  shows "d t = []" "t \<notin> Xs (pcs s)" "t \<notin> Ss (pcs s)" "t \<notin> Cs (pcs s)"
  using srw_invD(5)[OF assms(1), of t] outsideD[OF assms(2)] by simp_all

lemma inv_outside:
  assumes "addr_ok addr N" "srw_inv addr N s q j d" "t < N" "outside (pcs s t)" "outside p" "\<And>a. a \<noteq> addr t \<Longrightarrow> h a = Nodes s a"
  shows "srw_inv addr N (s\<lparr>Nodes := h, pcs := (pcs s)(t := p)\<rparr>) q j d"
proof -
  note D = srw_invD[OF assms(2)] and o = outsideD[OF assms(4)] and p = outsideD[OF assms(5)] and e = outside_inv[OF assms(2,4)]
  have "srw_inv addr N (s\<lparr>Ptr := Ptr s, Nodes := h, pcs := (pcs s)(t := p)\<rparr>) q j d"
  proof (rule inv_word[OF assms(1-3) o(1) p(1) e(1) _ assms(6)])
    show "lock_ok (Ptr s) (Nodes s) q (Xs ((pcs s)(t := p))) (Ss ((pcs s)(t := p))) (Cs ((pcs s)(t := p)))" using D(1) p e unfolding cls_upd by simp
    show "link_ok (Ptr s) ((pcs s)(t := p))" by (rule link_same[OF D(4)]) (use o p D(4) in \<open>auto simp: link_ok_def\<close>)
  qed (use p in simp_all)
  then show ?thesis by simp
qed

lemma inv_take:
  assumes "addr_ok addr N" "srw_inv addr N s q j d" "t < N" "outside (pcs s t)" "\<not> has (Ptr s) 1" "p = HoldX \<or> p = HoldS \<and> has (Ptr s) 2"
    "\<And>a. a \<noteq> addr t \<Longrightarrow> h a = Nodes s a"
  shows "srw_inv addr N (s\<lparr>Ptr := Ptr s OR 1, Nodes := h, pcs := (pcs s)(t := p)\<rparr>) q j d"
proof -
  note D = srw_invD[OF assms(2)] and o = outsideD[OF assms(4)] and e = outside_inv[OF assms(2,4)]
  note f = lock_free[OF D(1) assms(5)]
  have l: "lock_ok (Ptr s) (Nodes s) q {} {} {}" using D(1) unfolding f(1-3) .
  have p: "\<not> waits p" "\<not> linking p" "\<not> clearing p" "pc_ok w h q j [] p" for w h using assms(6) by auto
  show ?thesis
  proof (rule inv_word[OF assms(1-3) o(1) p(1) e(1) p(4) assms(7)])
    show "lock_ok (Ptr s OR 1) (Nodes s) q (Xs ((pcs s)(t := p))) (Ss ((pcs s)(t := p))) (Cs ((pcs s)(t := p)))"
      unfolding cls_upd f(1-3) using assms(6) p(3) lock_take[OF l assms(5)] by auto
    show "link_ok (Ptr s OR 1) ((pcs s)(t := p))" by (rule link_same[OF D(4)]) (use o p D(4) in \<open>auto simp: link_ok_def srw_fields\<close>)
  qed (auto simp: srw_fields elim: pc_ok_word)
qed

lemma inv_share:
  assumes "addr_ok addr N" "srw_inv addr N s q j d" "t < N" "outside (pcs s t)" "\<not> has (Ptr s) 2" "\<not> has (Ptr s) 1 \<or> item (Ptr s) \<noteq> 0"
    "\<And>a. a \<noteq> addr t \<Longrightarrow> h a = Nodes s a"
  shows "srw_inv addr N (s\<lparr>Ptr := (Ptr s + 16) OR 1, Nodes := h, pcs := (pcs s)(t := HoldS)\<rparr>) q j d"
proof -
  note D = srw_invD[OF assms(2)] and o = outsideD[OF assms(4)] and e = outside_inv[OF assms(2,4)]
  note f = lock_share[OF D(1) assms(5,6) e(3) inv_sets(1)[OF assms(2,3)]]
  have q: "q = []" using lock_wait[OF D(1)] assms(5) by simp
  note w = lock_nowait[OF f(1) q] and n = lock_nowait[OF D(1) q]
  show ?thesis
  proof (rule inv_word[OF assms(1-3) o(1) _ e(1) _ assms(7)])
    show "lock_ok ((Ptr s + 16) OR 1) (Nodes s) q (Xs ((pcs s)(t := HoldS))) (Ss ((pcs s)(t := HoldS))) (Cs ((pcs s)(t := HoldS)))"
      using f(1) unfolding cls_upd f(3,4) by simp
    show "link_ok ((Ptr s + 16) OR 1) ((pcs s)(t := HoldS))" by (rule link_same[OF D(4)]) (use o w n in simp_all)
  qed (use w n assms(5) in \<open>auto elim: pc_ok_word\<close>)
qed

section \<open>Giving the lock up\<close>

lemma pc_ok_Idle [simp]: "pc_ok w h q j [] Idle"
  by simp

lemma inv_release_exclusive:
  assumes "addr_ok addr N" "srw_inv addr N s q j d" "t < N" "pcs s t = HoldX"
  shows "srw_inv addr N (RtlReleaseSRWLockExclusive t s) q j d"
proof -
  note D = srw_invD[OF assms(2)]
  have "t \<in> Xs (pcs s)" "t \<notin> Ss (pcs s)" "t \<notin> Cs (pcs s)" using assms(4) by simp_all
  note x = lock_exclusive[OF D(1) this]
  have w: "Ptr s - 1 = Ptr s AND NOT 1" by (rule has_add(2)[OF x(4)])
  define p where "p = (if has (Ptr s) 2 \<and> \<not> has (Ptr s) 4 then ReleaseX (Ptr s AND NOT 1) else Idle)"
  have p: "\<not> waits p" "\<not> linking p" "\<not> clearing p" "\<not> sharing p" "p \<noteq> HoldX" "pc_ok w h q j [] p" for w h by (auto simp: p_def srw_fields)
  have "srw_inv addr N (s\<lparr>Ptr := Ptr s AND NOT 1, Nodes := Nodes s, pcs := (pcs s)(t := p)\<rparr>) q j d"
  proof (rule inv_word[OF assms(1-3) _ p(1) _ p(6)])
    have "lock_ok (Ptr s AND NOT 1) (Nodes s) q {} {} {}"
    proof (cases "has (Ptr s) 2")
      case True
      then show ?thesis using D(1) x(5) by (intro lock_clear) (simp_all add: srw_fields)
    next
      case False
      then have "Ptr s AND NOT 1 = 0" "q = []" using x(6) lock_wait[OF D(1)] by simp_all
      then show ?thesis by (simp add: lock_ok_def)
    qed
    then show "lock_ok (Ptr s AND NOT 1) (Nodes s) q (Xs ((pcs s)(t := p))) (Ss ((pcs s)(t := p))) (Cs ((pcs s)(t := p)))"
      unfolding cls_upd x(1-3) using p by simp
    show "link_ok (Ptr s AND NOT 1) ((pcs s)(t := p))" by (rule link_same[OF D(4)]) (use p assms(4) D(4) in \<open>auto simp: srw_fields link_ok_def\<close>)
  qed (use D(5)[of t] assms(4) in \<open>auto simp: srw_fields elim: pc_ok_word\<close>)
  then show ?thesis by (auto simp: RtlReleaseSRWLockExclusive_def Let_def w p_def split: if_splits)
qed

lemma behind_last:
  assumes "queue_ok h q j" "item w = last q" "has w 2" "has w 4" "\<not> has w 1 \<longrightarrow> \<not> has w 8"
  shows "behind w q j w"
proof -
  have "q \<noteq> []" "j \<le> length q - 1" using assms(1) by (auto simp: queue_ok_def)
  then show ?thesis using assms by (auto simp: behind_def last_conv_nth intro!: exI[of _ "length q - 1"])
qed

text \<open>Beginning to work on the queue, with the lock free.\<close>

lemma inv_begin:
  assumes "addr_ok addr N" "srw_inv addr N s q j d" "t < N" "\<not> waits (pcs s t)" "d t = []"
    and w: "\<not> has (Ptr s) 4" "has w 4" "has w 2" "\<not> has w 1" "\<not> has w 8" "item w = item (Ptr s)" "has (Ptr s) 2"
    and c: "Xs (pcs s) \<union> Ss (pcs s) \<union> Cs (pcs s) \<subseteq> {t}"
  shows "srw_inv addr N (s\<lparr>Ptr := w, pcs := (pcs s)(t := Wake w ToCaller)\<rparr>) q j d"
proof -
  note D = srw_invD[OF assms(2)]
  have q: "q \<noteq> []" "item (Ptr s) = last q" using D(1) w(7) by (auto simp: lock_ok_def)
  have e: "Xs (pcs s) - {t} = {}" "Ss (pcs s) - {t} = {}" "Cs (pcs s) - {t} = {}" using c by auto
  have b: "behind w q j w" by (rule behind_last[OF D(2)[OF q(1)]]) (use q w in simp_all)
  have "srw_inv addr N (s\<lparr>Ptr := w, Nodes := Nodes s, pcs := (pcs s)(t := Wake w ToCaller)\<rparr>) q j d"
  proof (rule inv_word[OF assms(1-4)])
    show "lock_ok w (Nodes s) q (Xs ((pcs s)(t := Wake w ToCaller))) (Ss ((pcs s)(t := Wake w ToCaller))) (Cs ((pcs s)(t := Wake w ToCaller)))"
      using lock_clear[OF D(1) w(7,5,4,3,6)] unfolding cls_upd e by simp
    show "link_ok w ((pcs s)(t := Wake w ToCaller))" by (rule link_begin[OF D(4)]) (use w in simp_all)
    show "pc_ok w (Nodes s) q j (d u) (pcs s u)" if "u \<noteq> t" "pc_ok (Ptr s) (Nodes s) q j (d u) (pcs s u)" for u
      by (rule pc_ok_clear[OF that(2)]) (use c that(1) w(5) in auto)
  qed (use assms(5) w b in auto)
  then show ?thesis by simp
qed

lemma inv_release_exclusive_step:
  assumes "addr_ok addr N" "srw_inv addr N s q j d" "t < N" "pcs s t = ReleaseX old"
  shows "srw_inv addr N (RtlReleaseSRWLockExclusive_step t old s) q j d"
proof -
  note D = srw_invD[OF assms(2)]
  have o: "d t = []" "\<not> has old 1" "has old 2" "\<not> has old 4" using D(5)[of t] assms(4) by simp_all
  show ?thesis
  proof (cases "Ptr s = old")
    case True
    note f = lock_free[OF D(1)[unfolded True] o(2)]
    have w: "old + 4 = old OR 4" by (rule has_add(3)[OF o(4)])
    show ?thesis using inv_begin[OF assms(1-3), of "old OR 4"] assms(4) o f True
      by (simp add: RtlReleaseSRWLockExclusive_step_def w srw_fields)
  next
    case False
    then show ?thesis using inv_goto[OF assms(1-3), of Idle] assms(4) o by (simp add: RtlReleaseSRWLockExclusive_step_def)
  qed
qed

lemma inv_unshare:
  assumes "addr_ok addr N" "srw_inv addr N s q j d" "t < N" "sharing (pcs s t)" "\<not> has (Ptr s) 2"
  shows "srw_inv addr N (s\<lparr>Ptr := if item (Ptr s) \<le> 16 then 0 else Ptr s - 16, pcs := (pcs s)(t := Idle)\<rparr>) q j d"
proof -
  note D = srw_invD[OF assms(2)]
  define w where "w = (if item (Ptr s) \<le> 16 then 0 else Ptr s - 16)"
  have t: "d t = []" "\<not> waits (pcs s t)" "\<not> linking (pcs s t)" "pcs s t \<noteq> HoldX" "\<not> clearing (pcs s t)" using D(5)[of t] assms(4) by (cases "pcs s t"; simp)+
  have c: "card (Ss (pcs s)) < 2 ^ 28" using inv_sets(2)[OF assms(2,3)] assms(1) by (simp add: addr_ok_def)
  have u: "lock_ok w (Nodes s) q (Xs (pcs s)) (Ss (pcs s) - {t}) (Cs (pcs s))"
    unfolding w_def using lock_unshare[OF D(1) assms(5) _ inv_sets(1)[OF assms(2,3)] c, of t] assms(4) by simp
  have q: "q = []" using lock_wait[OF D(1)] assms(5) by simp
  note n = lock_nowait[OF u q] and m = lock_nowait[OF D(1) q]
  have "srw_inv addr N (s\<lparr>Ptr := w, Nodes := Nodes s, pcs := (pcs s)(t := Idle)\<rparr>) q j d"
  proof (rule inv_word[OF assms(1-3)])
    show "lock_ok w (Nodes s) q (Xs ((pcs s)(t := Idle))) (Ss ((pcs s)(t := Idle))) (Cs ((pcs s)(t := Idle)))"
      using u t unfolding cls_upd by simp
    show "link_ok w ((pcs s)(t := Idle))" by (rule link_same[OF D(4)]) (use n m t in simp_all)
  qed (use n m t in \<open>auto elim: pc_ok_word\<close>)
  then show ?thesis by (simp add: w_def)
qed

text \<open>The last loop of a shared release.\<close>

lemma inv_clear:
  assumes "addr_ok addr N" "srw_inv addr N s q j d" "t < N" "clearing (pcs s t) \<or> sharing (pcs s t) \<and> has (Ptr s) 2 \<and> \<not> has (Ptr s) 8"
  shows "srw_inv addr N (clear_step t old s) q j d"
proof -
  note D = srw_invD[OF assms(2)]
  have t: "d t = []" "\<not> waits (pcs s t)" "\<not> linking (pcs s t)" "pcs s t \<noteq> HoldX" using D(5)[of t] assms(4) by (cases "pcs s t"; auto)+
  have "t \<in> Cs (pcs s) \<or> t \<in> Ss (pcs s) \<and> has (Ptr s) 2 \<and> \<not> has (Ptr s) 8" "t \<notin> Xs (pcs s)" using assms(4) t by simp_all
  note l = lock_last[OF D(1) this]
  have c: "Xs (pcs s) \<union> Ss (pcs s) \<union> Cs (pcs s) \<subseteq> {t}" using l(3,4) by simp
  have e: "Xs (pcs s) - {t} = {}" "Ss (pcs s) - {t} = {}" "Cs (pcs s) - {t} = {}" using c by auto
  consider "Ptr s = old" "has old 4" | "Ptr s = old" "\<not> has old 4" | "Ptr s \<noteq> old" by blast
  then show ?thesis
  proof cases
    case 1
    have "srw_inv addr N (s\<lparr>Ptr := old AND NOT 9, Nodes := Nodes s, pcs := (pcs s)(t := Idle)\<rparr>) q j d"
    proof (rule inv_word[OF assms(1-3) t(2) _ t(1)])
      show "lock_ok (old AND NOT 9) (Nodes s) q (Xs ((pcs s)(t := Idle))) (Ss ((pcs s)(t := Idle))) (Cs ((pcs s)(t := Idle)))"
        unfolding cls_upd e using lock_clear[OF D(1) l(1), of "old AND NOT 9"] l(1) 1 by (simp add: srw_fields)
      show "link_ok (old AND NOT 9) ((pcs s)(t := Idle))" by (rule link_same[OF D(4)]) (use t l 1 in \<open>simp_all add: srw_fields\<close>)
      show "pc_ok (old AND NOT 9) (Nodes s) q j (d u) (pcs s u)" if "u \<noteq> t" "pc_ok (Ptr s) (Nodes s) q j (d u) (pcs s u)" for u
        by (rule pc_ok_clear[OF that(2)]) (use c that(1) in \<open>auto simp: srw_fields\<close>)
    qed (simp_all add: srw_fields)
    then show ?thesis using 1 by (simp add: clear_step_def Let_def)
  next
    case 2
    have "srw_inv addr N (s\<lparr>Ptr := (old AND NOT 9) OR 4, pcs := (pcs s)(t := Wake ((old AND NOT 9) OR 4) ToCaller)\<rparr>) q j d"
      by (rule inv_begin[OF assms(1-3) t(2,1)]) (use 2 l c in \<open>simp_all add: srw_fields\<close>)
    then show ?thesis using 2 by (simp add: clear_step_def Let_def)
  next
    case 3
    have k: "lock_ok (Ptr s) (Nodes s) q {} {} {t}"
    proof (cases "has (Ptr s) 8")
      case True
      then have "\<not> sharing (pcs s t)" using assms(4) by (cases "pcs s t") auto
      then have n: "Ss (pcs s) = {}" using e(2) by auto
      then have "Cs (pcs s) = {t}" using l(4) by simp
      then show ?thesis using D(1) unfolding l(3) n by (simp only:)
    next
      case False
      then show ?thesis using D(1) l(1,2) by (simp add: lock_ok_def)
    qed
    have m: "insert t (Cs (pcs s)) = {t}" using c by auto
    have "srw_inv addr N (s\<lparr>Ptr := Ptr s, Nodes := Nodes s, pcs := (pcs s)(t := Clear (Ptr s))\<rparr>) q j d"
    proof (rule inv_word[OF assms(1-3) t(2) _ t(1)])
      show "lock_ok (Ptr s) (Nodes s) q (Xs ((pcs s)(t := Clear (Ptr s)))) (Ss ((pcs s)(t := Clear (Ptr s)))) (Cs ((pcs s)(t := Clear (Ptr s))))"
        using k unfolding cls_upd e m by simp
      show "link_ok (Ptr s) ((pcs s)(t := Clear (Ptr s)))" by (rule link_same[OF D(4)]) (use t l in simp_all)
    qed simp_all
    then show ?thesis using 3 by (simp add: clear_step_def Let_def)
  qed
qed

text \<open>A release that reads a lock without waiting threads.\<close>

lemma inv_release_shared:
  assumes "addr_ok addr N" "srw_inv addr N s q j d" "t < N" "pcs s t = HoldS"
  shows "srw_inv addr N (RtlReleaseSRWLockShared t s) q j d"
proof -
  note D = srw_invD[OF assms(2)]
  have "d t = []" using D(5)[of t] assms(4) by simp
  moreover have "item (Ptr s) \<in> set q" if "has (Ptr s) 2" using D(1) that by (auto simp: lock_ok_def)
  ultimately have "srw_inv addr N (goto t (ReleaseS (Ptr s)) s) q j d" using assms(4) by (intro inv_goto[OF assms(1-3)]) simp_all
  moreover have "srw_inv addr N (s\<lparr>Ptr := 0, pcs := (pcs s)(t := Idle)\<rparr>) q j d" if "Ptr s = 0x11"
    using inv_unshare[OF assms(1-3)] assms(4) that by (simp add: has_def item_def)
  ultimately show ?thesis by (simp add: RtlReleaseSRWLockShared_def)
qed

lemma inv_release_shared_nowait:
  assumes "addr_ok addr N" "srw_inv addr N s q j d" "t < N" "pcs s t = ReleaseS old" "\<not> has old 2"
  shows "\<exists>s'. RtlReleaseSRWLockShared_step t old s = Some s' \<and> srw_inv addr N s' q j d"
proof -
  note D = srw_invD[OF assms(2)]
  have "d t = []" using D(5)[of t] assms(4) by simp
  moreover have "item (Ptr s) \<in> set q" if "has (Ptr s) 2" using D(1) that by (auto simp: lock_ok_def)
  ultimately have "srw_inv addr N (goto t (ReleaseS (Ptr s)) s) q j d" using assms(4) by (intro inv_goto[OF assms(1-3)]) simp_all
  moreover have "srw_inv addr N (s\<lparr>Ptr := if item old \<le> 16 then 0 else old - 16, pcs := (pcs s)(t := Idle)\<rparr>) q j d" if "Ptr s = old"
    using inv_unshare[OF assms(1-3)] assms(4,5) that by auto
  ultimately show ?thesis using assms(5) by (simp add: RtlReleaseSRWLockShared_step_def Let_def)
qed

section \<open>Giving up the work on the queue\<close>

lemma inv_unlink:
  assumes A: "addr_ok addr N" and I: "srw_inv addr N s q j d" and t: "t < N" and p: "linking (pcs s t)"
    "waits p = waits (pcs s t)" "\<not> linking p" "\<not> sharing p" "\<not> clearing p" "p \<noteq> HoldX" "\<not> blocked p" "pc_ok w (Nodes s) q j [] p"
    and w: "w = Ptr s AND NOT 4"
  shows "srw_inv addr N (s\<lparr>Ptr := w, pcs := (pcs s)(t := p)\<rparr>) q j d"
proof -
  note D = srw_invD[OF I]
  have d: "d t = []" "\<not> blocked (pcs s t)" "\<not> sharing (pcs s t)" "\<not> clearing (pcs s t)" "pcs s t \<noteq> HoldX" using D(5)[of t] p(1) by (cases "pcs s t"; auto)+
  have l: "has (Ptr s) 2" using D(4) p(1) by (auto simp: link_ok_def)
  have "srw_inv addr N (s\<lparr>Ptr := w, Nodes := Nodes s, pcs := (pcs s)(t := p)\<rparr>) q j d"
  proof (rule inv_move[OF A I t p(2)])
    show "lock_ok w (Nodes s) q (Xs ((pcs s)(t := p))) (Ss ((pcs s)(t := p))) (Cs ((pcs s)(t := p)))"
      using lock_flags[OF D(1), of w] d p l unfolding cls_upd w by (simp add: srw_fields)
    show "link_ok w ((pcs s)(t := p))" by (rule link_end[OF D(4) p(1)]) (use p in \<open>simp_all add: w srw_fields\<close>)
  qed (use p d in \<open>auto simp: w srw_fields elim: pc_ok_word\<close>)
  then show ?thesis by simp
qed

end
