(* ===== verification/Srw_Node_Steps.thy ===== *)
theory Srw_Node_Steps
  imports Srw_Word_Steps
begin

text \<open>Steps that change wait nodes and the queue.\<close>

section \<open>Nodes\<close>

lemma pc_ok_linked:
  assumes "pc_ok w h q j ds p" "linked h ds \<Longrightarrow> linked h' ds" "\<And>n. ds \<noteq> [] \<Longrightarrow> h (hd ds) = Some n \<Longrightarrow> \<exists>n'. h' (hd ds) = Some n' \<and> (has (node_flags n') 2 \<longrightarrow> has (node_flags n) 2)"
  shows "pc_ok w h' q j ds p"
  using assms by (cases p) fastforce+

lemma pc_ok_index: "\<not> linking p \<Longrightarrow> pc_ok w h q j ds p = pc_ok w h q j' ds p"
  by (cases p) simp_all

lemma wait_okD:
  assumes "wait_ok addr N f h L"
  shows "L a \<Longrightarrow> \<exists>t < N. a = addr t \<and> waits (f t)" "t < N \<Longrightarrow> blocked (f t) \<Longrightarrow> L (addr t)"
    "t < N \<Longrightarrow> waits (f t) \<Longrightarrow> \<exists>n. h (addr t) = Some n \<and> has (node_flags n) 2 = (L (addr t) \<and> \<not> blocked (f t))"
  using assms by (simp_all add: wait_ok_def)

lemma wait_ok_flags:
  assumes "wait_ok addr N f h L" "\<And>u. u < N \<Longrightarrow> waits (f' u) = waits (f u)" "\<And>u. u < N \<Longrightarrow> blocked (f' u) = blocked (f u)"
    "\<And>u n. u < N \<Longrightarrow> waits (f u) \<Longrightarrow> h (addr u) = Some n \<Longrightarrow> \<exists>n'. h' (addr u) = Some n' \<and> has (node_flags n') 2 = has (node_flags n) 2"
  shows "wait_ok addr N f' h' L"
proof -
  have "\<exists>n. h' (addr u) = Some n \<and> has (node_flags n) 2 = (L (addr u) \<and> \<not> blocked (f' u))" if u: "u < N" "waits (f' u)" for u
  proof -
    obtain n where n: "h (addr u) = Some n" "has (node_flags n) 2 = (L (addr u) \<and> \<not> blocked (f u))"
      using wait_okD(3)[OF assms(1) u(1)] assms(2)[OF u(1)] u(2) by blast
    then show ?thesis using assms(4)[OF u(1) _ n(1)] assms(2,3)[OF u(1)] u(2) by auto
  qed
  moreover have "\<exists>u < N. a = addr u \<and> waits (f' u)" if "L a" for a using wait_okD(1)[OF assms(1) that] assms(2) by auto
  moreover have "L (addr u)" if "u < N" "blocked (f' u)" for u using wait_okD(2)[OF assms(1) that(1)] assms(3) that by simp
  ultimately show ?thesis unfolding wait_ok_def by blast
qed

section \<open>Work on the queue\<close>

lemma inv_relink:
  assumes I: "srw_inv addr N s q j d" and t: "t < N" "linking (pcs s t)" and h: "queue_ok h q i" "relinked (Nodes s) h q"
    and p: "linking p" "waits p = waits (pcs s t)" "pc_ok (Ptr s) h q i [] p"
  shows "srw_inv addr N (s\<lparr>Nodes := h, pcs := (pcs s)(t := p)\<rparr>) q i d"
proof -
  note D = srw_invD[OF I]
  have c: "d t = []" "\<not> blocked (pcs s t)" "\<not> sharing (pcs s t)" "\<not> clearing (pcs s t)" "pcs s t \<noteq> HoldX"
    using D(5)[of t] t(2) by (cases "pcs s t"; auto)+
  have cp: "\<not> blocked p" "\<not> sharing p" "\<not> clearing p" "p \<noteq> HoldX" using p(1) by (cases p; simp)+
  have q: "q \<noteq> []" using h(1) by (auto simp: queue_ok_def)
  have r: "h a = Nodes s a" if "a \<notin> set q" for a using h(2) that by (simp add: relinked_def)
  have k: "\<exists>n n'. Nodes s a = Some n \<and> h a = Some n' \<and> node_flags n' = node_flags n \<and> shareSnapshot n' = shareSnapshot n \<and> (node_head n' = node_head n \<or> node_head n' = q ! 0)"
    if "a \<in> set q" for a using h(2) that by (simp add: relinked_def)
  have "lock_ok (Ptr s) h q (Xs (pcs s)) (Ss (pcs s)) (Cs (pcs s))"
    using D(1) k[OF nth_mem, of 0] q by (auto simp: lock_ok_def split: if_splits)
  then have "lock_ok (Ptr s) h q (Xs ((pcs s)(t := p))) (Ss ((pcs s)(t := p))) (Cs ((pcs s)(t := p)))" unfolding cls_upd using c cp by simp
  moreover have "fresh_ok h q" if "has (Ptr s) 8" by (rule fresh_cong[OF D(3)[OF that]]) (use k in blast)
  moreover have "link_ok (Ptr s) ((pcs s)(t := p))" by (rule link_same[OF D(4)]) (use t p D(4) in \<open>auto simp: link_ok_def\<close>)
  moreover have "pc_ok (Ptr s) h q i (d u) (((pcs s)(t := p)) u)" for u
  proof (cases "u = t")
    case False
    then have "\<not> linking (pcs s u)" using D(4) t(2) by (auto simp: link_ok_def)
    then have "pc_ok (Ptr s) (Nodes s) q i (d u) (pcs s u)" using D(5)[of u] pc_ok_index by blast
    then show ?thesis using False r D(6) by (simp, elim pc_ok_nodes) (auto simp: lists_ok_def)
  qed (use p c in simp)
  moreover have "wait_ok addr N ((pcs s)(t := p)) h (listed q d)"
  proof (rule wait_ok_flags[OF D(7)])
    show "\<exists>n'. h (addr u) = Some n' \<and> has (node_flags n') 2 = has (node_flags n) 2" if "Nodes s (addr u) = Some n" for u n
      using that k[of "addr u"] r[of "addr u"] by (cases "addr u \<in> set q") auto
  qed (use p c cp in auto)
  ultimately show ?thesis using h(1) D(6,8) t by (simp add: srw_inv_def)
qed

definition srw_ok :: "(nat \<Rightarrow> 32 word) \<Rightarrow> nat \<Rightarrow> srw \<Rightarrow> bool" where
  "srw_ok addr N s \<longleftrightarrow> (\<exists>q j d. srw_inv addr N s q j d)"

lemma srw_okI: "srw_inv addr N s q j d \<Longrightarrow> srw_ok addr N s"
  by (auto simp: srw_ok_def)

lemma link_reread:
  assumes "srw_inv addr N s q j d" "linking (pcs s t)"
  shows "behind (Ptr s) q j (Ptr s)" "has (Ptr s) 4" "has (Ptr s) 2" "q \<noteq> []" "queue_ok (Nodes s) q j" "item (Ptr s) = last q"
proof -
  note D = srw_invD[OF assms(1)]
  show w: "has (Ptr s) 4" "has (Ptr s) 2" using D(4) assms(2) by (auto simp: link_ok_def)
  show q: "q \<noteq> []" "item (Ptr s) = last q" using D(1) w(2) by (simp_all add: lock_ok_def)
  show "queue_ok (Nodes s) q j" by (rule D(2)[OF q(1)])
  then show "behind (Ptr s) q j (Ptr s)" by (rule behind_last) (use q w lock_free(4)[OF D(1)] in auto)
qed

text \<open>Linking the queue up to the node read, for both walks.\<close>

lemma relink_tail:
  assumes "queue_ok h q j" "behind w q j old"
  shows "\<exists>i h' h''. item old = q ! i \<and> i < length q \<and> link_loop h (item old) = Some (h', q ! j, q ! 0) \<and>
    set_node h' (item old) (node_head_update (\<lambda>_. q ! 0)) = Some h'' \<and>
    (if item old \<noteq> q ! j then set_node h' (item old) (node_head_update (\<lambda>_. q ! 0)) else Some h') = Some h'' \<and>
    queue_ok h'' q i \<and> relinked h h'' q \<and> item old \<noteq> 0"
proof -
  obtain i where i: "j \<le> i" "i < length q" "item old = q ! i" using assms(2) by (auto simp: behind_def)
  obtain h' h'' where h: "link_loop h (q ! i) = Some (h', q ! j, q ! 0)" "set_node h' (q ! i) (node_head_update (\<lambda>_. q ! 0)) = Some h''"
      "queue_ok h'' q i" "relinked h h'' q" "i = j \<longrightarrow> h'' = h'" using queue_link[OF assms(1) i(1,2)] by blast
  have "q ! i = q ! j \<longleftrightarrow> i = j" using assms(1) i by (auto simp: queue_ok_def nth_eq_iff_index_eq)
  then show ?thesis using i h queue_nonzero[OF assms(1) i(2)] by (intro exI[of _ i] exI[of _ h'] exI[of _ h'']) auto
qed

lemma inv_wake_step:
  assumes A: "addr_ok addr N" and I: "srw_inv addr N s q j d" and t: "t < N" "linking (pcs s t)" "waits (pcs s t) = to_wait k" "behind (Ptr s) q j old"
  shows "\<exists>s'. wake_step t old k s = Some s' \<and> srw_ok addr N s'"
proof (cases "has old 1")
  case True
  note L = link_reread[OF I t(2)]
  have d: "d t = []" "\<not> sharing (pcs s t)" "\<not> clearing (pcs s t)" "pcs s t \<noteq> HoldX" "\<not> blocked (pcs s t)" using srw_invD(5)[OF I, of t] t(2) by (cases "pcs s t"; auto)+
  have "srw_inv addr N (goto t (Wake (Ptr s) k) s) q j d" by (rule inv_goto[OF A I t(1)]) (use t L d in simp_all)
  moreover have "srw_inv addr N (s\<lparr>Ptr := Ptr s AND NOT 4, pcs := (pcs s)(t := resume k)\<rparr>) q j d"
    by (rule inv_unlink[OF A I t(1,2)]) (use t in \<open>cases k; simp\<close>)+
  ultimately show ?thesis using True L(2) has_add(4)[of old] by (auto simp: wake_step_def intro: srw_okI)
next
  case False
  note L = link_reread[OF I t(2)]
  obtain i h' h'' where i: "item old = q ! i" "i < length q" "link_loop (Nodes s) (item old) = Some (h', q ! j, q ! 0)"
      "(if item old \<noteq> q ! j then set_node h' (item old) (node_head_update (\<lambda>_. q ! 0)) else Some h') = Some h''"
      "queue_ok h'' q i" "relinked (Nodes s) h'' q" using relink_tail[OF L(5) t(4)] by blast
  have "srw_inv addr N (s\<lparr>Nodes := h'', pcs := (pcs s)(t := Dequeue old (q ! 0) k)\<rparr>) q i d"
    by (rule inv_relink[OF I t(1,2) i(5,6)]) (use t i False in \<open>auto simp: behind_def\<close>)
  then show ?thesis using False i by (auto simp: wake_step_def Let_def intro: srw_okI)
qed

lemma inv_compress_step:
  assumes A: "addr_ok addr N" and I: "srw_inv addr N s q j d" and t: "t < N" "pcs s t = Compress old k"
  shows "\<exists>s'. compress_step t old k s = Some s' \<and> srw_ok addr N s'"
proof -
  have p: "linking (pcs s t)" "waits (pcs s t) = to_wait k" "behind (Ptr s) q j old" "d t = []" using t(2) srw_invD(5)[OF I, of t] by simp_all
  show ?thesis
  proof (cases "has old 1")
    case True
    note L = link_reread[OF I p(1)]
    obtain i h' h'' where i: "item old = q ! i" "i < length q" "link_loop (Nodes s) (item old) = Some (h', q ! j, q ! 0)"
        "set_node h' (item old) (node_head_update (\<lambda>_. q ! 0)) = Some h''" "queue_ok h'' q i" "relinked (Nodes s) h'' q" "item old \<noteq> 0"
      using relink_tail[OF L(5) p(3)] by blast
    have b: "behind (Ptr s) q i (Ptr s)" by (rule behind_last[OF i(5)]) (use L srw_invD(1)[OF I] lock_free(4) in auto)
    have r: "srw_inv addr N (s\<lparr>Nodes := h'', pcs := (pcs s)(t := Compress (Ptr s) k)\<rparr>) q i d" (is "srw_inv _ _ ?s _ _ _")
      by (rule inv_relink[OF I t(1) p(1) i(5,6)]) (use t b in auto)
    have "srw_inv addr N (?s\<lparr>Ptr := Ptr ?s AND NOT 4, pcs := (pcs ?s)(t := resume k)\<rparr>) q i d"
      by (rule inv_unlink[OF A r t(1)]) (cases k; simp)+
    then show ?thesis using True L(2) i r has_add(4)[of old] by (auto simp: compress_step_def Let_def intro: srw_okI)
  next
    case False
    then show ?thesis using inv_wake_step[OF A I t(1) p(1-3)] by (simp add: compress_step_def)
  qed
qed

section \<open>Taking nodes off\<close>

lemma lists_detach:
  assumes "lists_ok (ds @ q) d" "d t = []"
  shows "lists_ok q (d(t := ds))" "listed q (d(t := ds)) = listed (ds @ q) d"
proof -
  show "lists_ok q (d(t := ds))" unfolding lists_ok_def
  proof (intro conjI allI impI)
    fix u v :: nat assume "u \<noteq> v"
    then show "set ((d(t := ds)) u) \<inter> set ((d(t := ds)) v) = {}" using assms(1) unfolding lists_ok_def by (auto split: if_splits)
  qed (use assms(1) in \<open>auto simp: lists_ok_def\<close>)
  show "listed q (d(t := ds)) = listed (ds @ q) d"
  proof
    fix a
    have "(\<exists>u. a \<in> set ((d(t := ds)) u)) \<longleftrightarrow> a \<in> set ds \<or> (\<exists>u. a \<in> set (d u))" using assms(2) by (metis empty_iff empty_set fun_upd_apply)
    then show "listed q (d(t := ds)) a = listed (ds @ q) d a" by (auto simp: listed_def)
  qed
qed

lemma inv_detach:
  assumes I: "srw_inv addr N s (ds @ q) j d" and t: "t < N" "linking (pcs s t)" "waits (pcs s t) = to_wait k" and ds: "ds \<noteq> []" "linked h ds"
    and q: "q \<noteq> [] \<Longrightarrow> queue_ok h q j'"
    and h: "\<And>a. a \<notin> set (ds @ q) \<Longrightarrow> h a = Nodes s a" "\<And>a. a \<in> set (ds @ q) \<Longrightarrow> \<exists>n n'. Nodes s a = Some n \<and> h a = Some n' \<and> node_flags n' = node_flags n"
    and w: "lock_ok w h q (Xs (pcs s)) (Ss (pcs s)) (Cs (pcs s))" "\<not> has w 8" "\<not> has w 4" "\<And>u. sharing (pcs s u) \<Longrightarrow> has w 2 \<and> \<not> has (Ptr s) 8"
  shows "srw_inv addr N (s\<lparr>Ptr := w, Nodes := h, pcs := (pcs s)(t := Signal (hd ds) k)\<rparr>) q j' (d(t := ds))"
proof -
  note D = srw_invD[OF I]
  have c: "d t = []" "\<not> blocked (pcs s t)" "\<not> sharing (pcs s t)" "\<not> clearing (pcs s t)" "pcs s t \<noteq> HoldX"
    using D(5)[of t] t(2) by (cases "pcs s t"; auto)+
  note l = lists_detach[OF D(6) c(1)]
  have "lock_ok w h q (Xs ((pcs s)(t := Signal (hd ds) k))) (Ss ((pcs s)(t := Signal (hd ds) k))) (Cs ((pcs s)(t := Signal (hd ds) k)))"
    using w(1) unfolding cls_upd using c by simp
  moreover have "link_ok w ((pcs s)(t := Signal (hd ds) k))" by (rule link_end[OF D(4) t(2)]) (use w(3) in simp_all)
  moreover have "pc_ok w h q j' ((d(t := ds)) u) (((pcs s)(t := Signal (hd ds) k)) u)" for u
  proof (cases "u = t")
    case False
    then have n: "\<not> linking (pcs s u)" using D(4) t(2) by (auto simp: link_ok_def)
    have "pc_ok w (Nodes s) q j' (d u) (pcs s u)" using D(5)[of u] n w(2) w(4)[of u] by (cases "pcs s u") auto
    moreover have "h a = Nodes s a" if "a \<in> set (d u)" for a using D(6) that by (intro h(1)) (auto simp: lists_ok_def)
    ultimately show ?thesis using False pc_ok_nodes by simp
  qed (use ds in simp)
  moreover have "wait_ok addr N ((pcs s)(t := Signal (hd ds) k)) h (listed q (d(t := ds)))" unfolding l(2)
  proof (rule wait_ok_flags[OF D(7)])
    show "\<exists>n'. h (addr u) = Some n' \<and> has (node_flags n') 2 = has (node_flags n) 2" if "Nodes s (addr u) = Some n" for u n
      using that h(1)[of "addr u"] h(2)[of "addr u"] by (cases "addr u \<in> set (ds @ q)") auto
  qed (use t(3) c in auto)
  ultimately show ?thesis using q w(2) l(1) D(8) t(1) by (simp add: srw_inv_def)
qed

lemma inv_dequeue_step:
  assumes A: "addr_ok addr N" and I: "srw_inv addr N s q j d" and t: "t < N" "pcs s t = Dequeue old first k"
  shows "\<exists>s'. dequeue_step t old first k s = Some s' \<and> srw_ok addr N s'"
proof -
  note D = srw_invD[OF I]
  have p: "linking (pcs s t)" "waits (pcs s t) = to_wait k" "behind (Ptr s) q j old" "d t = []" "\<not> has old 1" "item old = q ! j" "first = q ! 0"
    using t(2) D(5)[of t] by simp_all
  note L = link_reread[OF I p(1)]
  have m: "\<not> has (Ptr s) 8" using p(3,5) by (simp add: behind_def)
  obtain n where n: "Nodes s (q ! 0) = Some n" "node_next n \<noteq> 0 \<longleftrightarrow> 0 < j" "0 < j \<Longrightarrow> node_next n = q ! 1" by (rule queue_head_node[OF L(5)]) auto
  have j: "j < length q" using L(5) by (simp add: queue_ok_def)
  consider "0 < j" "has (node_flags n) 1" | "\<not> (0 < j \<and> has (node_flags n) 1)" "Ptr s = old" | "\<not> (0 < j \<and> has (node_flags n) 1)" "Ptr s \<noteq> old" by blast
  then show ?thesis
  proof cases
    case 1
    obtain h' h'' where h: "set_node (Nodes s) (q ! j) (node_head_update (\<lambda>_. q ! 1)) = Some h'" "set_node h' (q ! 0) (node_next_update (\<lambda>_. 0)) = Some h''"
        "queue_ok h'' (tl q) (j - 1)" "linked h'' [q ! 0]" "\<And>a. a \<notin> set q \<Longrightarrow> h'' a = Nodes s a"
        "\<And>a. a \<in> set q \<Longrightarrow> \<exists>n n'. Nodes s a = Some n \<and> h'' a = Some n' \<and> node_flags n' = node_flags n" using queue_tl[OF L(5) 1(1)] by blast
    have q: "[q ! 0] @ tl q = q" "tl q \<noteq> []" using L(4) j 1(1) by (cases q; auto)+
    have l: "lock_ok (Ptr s AND NOT 4) h'' (tl q) (Xs (pcs s)) (Ss (pcs s)) (Cs (pcs s))"
      using D(1) L(3) m q(2) last_tl[of q] by (simp add: lock_ok_def srw_fields)
    have "srw_inv addr N (s\<lparr>Ptr := Ptr s AND NOT 4, Nodes := h'', pcs := (pcs s)(t := Signal (hd [q ! 0]) k)\<rparr>) (tl q) (j - 1) (d(t := [q ! 0]))"
    proof (rule inv_detach[OF _ t(1) p(1,2) _ h(4,3) _ _ l])
      show "srw_inv addr N s ([q ! 0] @ tl q) j d" unfolding q(1) by (rule I)
    qed (unfold q(1), use h(5,6) m L(3) in \<open>simp_all add: srw_fields\<close>)
    then show ?thesis using 1 h(1,2) n p(6,7) by (auto simp: dequeue_step_def Let_def intro: srw_okI)
  next
    case 2
    have "j = length q - 1" using L(4,5,6) p(6) 2(2) j by (auto simp: queue_ok_def last_conv_nth nth_eq_iff_index_eq)
    then have k: "linked (Nodes s) q" using L(5) queue_linked by simp
    note f = lock_free[OF D(1)[unfolded 2(2)] p(5)]
    have "srw_inv addr N (s\<lparr>Ptr := 0, Nodes := Nodes s, pcs := (pcs s)(t := Signal (hd q) k)\<rparr>) [] 0 (d(t := q))"
    proof (rule inv_detach[of _ _ _ q "[]", OF _ t(1) p(1,2) L(4) k])
      show "srw_inv addr N s (q @ []) j d" using I by simp
      show "lock_ok 0 (Nodes s) [] (Xs (pcs s)) (Ss (pcs s)) (Cs (pcs s))" unfolding f(1-3) by (simp add: lock_ok_def)
      show "\<exists>n n'. Nodes s a = Some n \<and> Nodes s a = Some n' \<and> node_flags n' = node_flags n" if "a \<in> set (q @ [])" for a
        using that L(5) by (auto simp: queue_ok_def queue_node_def in_set_conv_nth)
    qed (use f(2) in auto)
    then show ?thesis using 2 n p(7) L(4) by (auto simp: dequeue_step_def Let_def hd_conv_nth intro: srw_okI)
  next
    case 3
    have "\<exists>m. Nodes s (q ! j) = Some m \<and> node_head m = q ! 0" using L(5) j by (auto simp: queue_ok_def queue_node_def)
    then have h: "set_node (Nodes s) (q ! j) (node_head_update (\<lambda>_. q ! 0)) = Some (Nodes s)" by (auto simp: set_node_def fun_upd_idem)
    have "srw_inv addr N (goto t (Wake (Ptr s) k) s) q j d" by (rule inv_goto[OF A I t(1)]) (use t(2) p L in simp_all)
    then show ?thesis using 3 n h p(6,7) by (auto simp: dequeue_step_def Let_def intro: srw_okI)
  qed
qed

end
