(* ===== verification/Srw_Wait_Steps.thy ===== *)
theory Srw_Wait_Steps
  imports Srw_Node_Steps
begin

text \<open>Steps that put a thread to sleep, wake it or count it out.\<close>

section \<open>Waking a thread\<close>

lemma lists_pop:
  assumes "lists_ok q d" "d t = a # ds"
  shows "lists_ok q (d(t := ds))" "listed q (d(t := ds)) b \<longleftrightarrow> listed q d b \<and> b \<noteq> a"
    "a \<notin> set q" "a \<notin> set ds" "u \<noteq> t \<Longrightarrow> a \<notin> set (d u)"
proof -
  have l: "distinct q" "\<And>u. distinct (d u)" "\<And>u. set q \<inter> set (d u) = {}" "\<And>u v. u \<noteq> v \<Longrightarrow> set (d u) \<inter> set (d v) = {}"
    using assms(1) by (simp_all add: lists_ok_def)
  have a: "a \<notin> set q" "a \<notin> set ds" "\<And>u. u \<noteq> t \<Longrightarrow> a \<notin> set (d u)" using l(2)[of t] l(3)[of t] l(4)[of _ t] assms(2) by auto
  have s: "set ((d(t := ds)) u) = set (d u) - {a}" for u using a(2,3) assms(2) by auto
  have "(set (d u) - {a}) \<inter> (set (d v) - {a}) = {}" if "u \<noteq> v" for u v using l(4)[OF that] by blast
  moreover have "set q \<inter> (set (d u) - {a}) = {}" for u using l(3)[of u] by blast
  moreover have "distinct ((d(t := ds)) u)" for u using l(2)[of t] l(2)[of u] assms(2) by simp
  ultimately show "lists_ok q (d(t := ds))" unfolding lists_ok_def s using l(1) by blast
  show "listed q (d(t := ds)) b \<longleftrightarrow> listed q d b \<and> b \<noteq> a" unfolding listed_def s using a(1) by auto
  show "a \<notin> set q" "a \<notin> set ds" "u \<noteq> t \<Longrightarrow> a \<notin> set (d u)" by (fact a)+
qed

lemma linked_tl: "linked h (a # ds) \<Longrightarrow> linked h ds"
  unfolding linked_def by (metis Suc_less_eq length_Cons nth_Cons_Suc)

lemma listed_addr:
  assumes "addr_ok addr N" "srw_inv addr N s q j d" "listed q d a"
  shows "a \<noteq> 0"
  using wait_okD(1)[OF srw_invD(7)[OF assms(2)] assms(3)] assms(1) by (auto simp: addr_ok_def)

lemma lock_nodes:
  assumes "lock_ok w h q X S C" "\<And>n. q \<noteq> [] \<Longrightarrow> h (q ! 0) = Some n \<Longrightarrow> \<exists>n'. h' (q ! 0) = Some n' \<and> shareSnapshot n' = shareSnapshot n"
  shows "lock_ok w h' q X S C"
proof (cases "has w 2 \<and> has w 8")
  case True
  then obtain n where "h (q ! 0) = Some n" "card S = unat (shareSnapshot n)" "q \<noteq> []" using assms(1) by (auto simp: lock_ok_def)
  then show ?thesis using assms(1) assms(2)[of n] True by (auto simp: lock_ok_def)
qed (use assms(1) in \<open>simp add: lock_ok_def\<close>)

lemma queue_nodes: "queue_ok h q j \<Longrightarrow> a \<in> set q \<Longrightarrow> \<exists>n. h a = Some n"
  by (auto simp: queue_ok_def queue_node_def in_set_conv_nth)

lemma inv_pop:
  assumes A: "addr_ok addr N" and I: "srw_inv addr N s q j d" and t: "t < N" "d t = a # ds" "linked (Nodes s) (a # ds)" "waits (pcs s t) = to_wait k"
      "\<not> linking (pcs s t)" "\<not> sharing (pcs s t)" "\<not> clearing (pcs s t)" "pcs s t \<noteq> HoldX"
    and f: "f t = signal_next (if ds = [] then 0 else hd ds) k" "\<And>v. v \<noteq> t \<Longrightarrow> f v = pcs s v \<or> v < N \<and> blocked (pcs s v) \<and> outside (f v) \<and> addr v = a"
      "\<And>v. v < N \<Longrightarrow> addr v = a \<Longrightarrow> \<not> blocked (f v)"
    and h: "h a = Some n" "\<not> has (node_flags n) 2" "\<And>b. b \<noteq> a \<Longrightarrow> h b = Nodes s b"
  shows "srw_inv addr N (s\<lparr>Nodes := h, pcs := f\<rparr>) q j (d(t := ds))"
proof -
  note D = srw_invD[OF I] and l = lists_pop[OF srw_invD(6)[OF I] t(2)]
  have a: "a \<notin> set q" "a \<notin> set ds" "\<And>u. u \<noteq> t \<Longrightarrow> a \<notin> set (d u)" by (fact l(3-5))+
  have "b \<noteq> 0" if "b \<in> set ds" for b
  proof (rule listed_addr[OF A I])
    have "b \<in> set (d t)" using that t(2) by simp
    then show "listed q d b" unfolding listed_def by blast
  qed
  then have ft: "f t = (if ds = [] then resume k else Signal (hd ds) k)" using f(1) by (auto simp: signal_next_def)
  have b: "waits x" if "blocked x" for x using that by (cases x) auto
  have cl: "sharing (f v) = sharing (pcs s v)" "clearing (f v) = clearing (pcs s v)" "linking (f v) = linking (pcs s v)" "f v = HoldX \<longleftrightarrow> pcs s v = HoldX" for v
  proof -
    have "\<not> sharing x \<and> \<not> clearing x \<and> \<not> linking x \<and> x \<noteq> HoldX" if "blocked x" for x using that by (cases x) auto
    then show "sharing (f v) = sharing (pcs s v)" "clearing (f v) = clearing (pcs s v)" "linking (f v) = linking (pcs s v)" "f v = HoldX \<longleftrightarrow> pcs s v = HoldX"
      using ft t(5-8) f(2)[of v] outsideD[of "f v"] by (cases "v = t"; auto)+
  qed
  have hq: "h b = Nodes s b" if "b \<in> set q" for b using that a(1) by (intro h(3)) auto
  then have "lock_ok (Ptr s) h q (Xs f) (Ss f) (Cs f)" unfolding cl by (intro lock_nodes[OF D(1)]) simp
  moreover have "queue_ok h q j" if "q \<noteq> []" using D(2)[OF that] hq by (simp add: queue_ok_def queue_node_def)
  moreover have "fresh_ok h q" if "has (Ptr s) 8" using D(3)[OF that] hq by (simp add: fresh_ok_def)
  moreover have "link_ok (Ptr s) f" using D(4) unfolding link_ok_def cl .
  moreover have "pc_ok (Ptr s) h q j ((d(t := ds)) v) (f v)" for v
  proof (cases "v = t")
    case True
    have "linked h ds" using linked_tl[OF t(3)] a(2) h(3) unfolding linked_def by (metis nth_mem)
    then show ?thesis using True ft by (cases k) auto
  next
    case False
    have "h b = Nodes s b" if "b \<in> set (d v)" for b using a(3)[OF False] that by (intro h(3)) auto
    then have "pc_ok (Ptr s) h q j (d v) (pcs s v)" by (rule pc_ok_nodes[OF D(5)])
    moreover have "d v = []" if "blocked (pcs s v)" using D(5)[of v] that by (cases "pcs s v") auto
    ultimately show ?thesis using False f(2)[OF False] outsideD(7)[of "f v"] by auto
  qed
  moreover have "wait_ok addr N f h (listed q (d(t := ds)))" unfolding wait_ok_def l(2)
  proof (intro conjI allI impI; (elim conjE)?)
    fix b assume "listed q d b" "b \<noteq> a"
    then show "\<exists>v < N. b = addr v \<and> waits (f v)" using wait_okD(1)[OF D(7)] f(2) ft t(4) by (metis resume_cls(1) waits.simps(6))
  next
    fix v assume v: "v < N" "waits (f v)"
    then have w: "waits (pcs s v)" using ft t(4) f(2)[of v] outsideD(1)[of "f v"] by (cases "v = t") (auto split: if_splits)
    show "\<exists>n. h (addr v) = Some n \<and> has (node_flags n) 2 = ((listed q d (addr v) \<and> addr v \<noteq> a) \<and> \<not> blocked (f v))"
    proof (cases "addr v = a")
      case False
      have "blocked (f v) = blocked (pcs s v)"
      proof (cases "v = t")
        case True
        then show ?thesis using ft w t(2) D(5)[of t] by (cases "pcs s t") auto
      qed (use f(2)[of v] False in auto)
      then show ?thesis using wait_okD(3)[OF D(7) v(1) w] h(3)[OF False] False by simp
    qed (use h in simp)
  next
    fix v assume v: "v < N" "blocked (f v)"
    show "listed q d (addr v)"
    proof (rule wait_okD(2)[OF D(7) v(1)])
      show "blocked (pcs s v)" using v(2) ft f(2)[of v] outsideD(2)[of "f v"] by (cases "v = t") (auto split: if_splits)
    qed
    show "addr v \<noteq> a" using f(3)[OF v(1)] v(2) by blast
  qed
  moreover have "f v = Idle" if "v \<ge> N" for v using D(8)[OF that] f(2)[of v] that t(1) by auto
  ultimately show ?thesis using l(1) by (simp add: srw_inv_def)
qed

lemma detached:
  assumes "linked h (a # ds)"
  obtains n where "h a = Some n" "node_next n = (if ds = [] then 0 else hd ds)"
proof -
  have "\<exists>n. h a = Some n \<and> node_next n = (if Suc 0 < length (a # ds) then (a # ds) ! Suc 0 else 0)"
    using assms unfolding linked_def by (metis length_Cons nth_Cons_0 zero_less_Suc)
  then show ?thesis using that by (cases ds) auto
qed

lemma inv_signal_step:
  assumes A: "addr_ok addr N" and I: "srw_inv addr N s q j d" and t: "t < N" "pcs s t = Signal a k"
  shows "\<exists>s'. signal_step t a k s = Some s' \<and> srw_ok addr N s'"
proof -
  note D = srw_invD[OF I]
  obtain ds where ds: "d t = a # ds" "linked (Nodes s) (a # ds)" using D(5)[of t] t(2) by (cases "d t") auto
  obtain n where n: "Nodes s a = Some n" "node_next n = (if ds = [] then 0 else hd ds)" by (rule detached[OF ds(2)]) auto
  show ?thesis
  proof (cases "has (node_flags n) 2")
    case True
    define h f where "h = (Nodes s)(a \<mapsto> n\<lparr>node_flags := node_flags n AND NOT 2\<rparr>)" and "f = (pcs s)(t := signal_next (node_next n) k)"
    have "srw_inv addr N (s\<lparr>Nodes := h, pcs := f\<rparr>) q j (d(t := ds))"
    proof (rule inv_pop[OF A I t(1) ds])
      show "\<not> blocked (f v)" if v: "v < N" "addr v = a" for v
      proof (cases "v = t")
        case False
        have "waits (pcs s v)" if "blocked (pcs s v)" using that by (cases "pcs s v") auto
        then show ?thesis using wait_okD(3)[OF D(7) v(1)] v(2) n(1) True False by (auto simp: f_def)
      qed (simp add: f_def signal_next_def)
      show "\<not> has (node_flags (n\<lparr>node_flags := node_flags n AND NOT 2\<rparr>)) 2" by (simp add: has_def and.assoc)
    qed (use t(2) n in \<open>simp_all add: h_def f_def\<close>)
    then show ?thesis using True n(1) by (auto simp: signal_step_def h_def f_def intro: srw_okI)
  next
    case False
    have "srw_inv addr N (goto t (Key a (node_next n) k) s) q j d" by (rule inv_goto[OF A I t(1)]) (use t(2) ds n False in simp_all)
    then show ?thesis using False n(1) by (auto simp: signal_step_def intro: srw_okI)
  qed
qed

lemma inv_keyed_event:
  assumes A: "addr_ok addr N" and I: "srw_inv addr N s q j d" and t: "t < N" "pcs s t = Key a nxt k" and u: "u < N" "pcs s u = Blocked e old" "addr u = a"
  shows "srw_ok addr N (goto u (Acquire e old) (goto t (signal_next nxt k) s))"
proof -
  note D = srw_invD[OF I]
  obtain ds n where ds: "d t = a # ds" "linked (Nodes s) (a # ds)" "nxt = (if ds = [] then 0 else hd ds)" "Nodes s a = Some n" "\<not> has (node_flags n) 2"
    using D(5)[of t] t(2) by (cases "d t") auto
  have ut: "u \<noteq> t" using t(2) u(2) by auto
  have "srw_inv addr N (s\<lparr>Nodes := Nodes s, pcs := (pcs s)(t := signal_next nxt k, u := Acquire e old)\<rparr>) q j (d(t := ds))"
  proof (rule inv_pop[OF A I t(1) ds(1,2)])
    show "\<not> blocked (((pcs s)(t := signal_next nxt k, u := Acquire e old)) v)" if "v < N" "addr v = a" for v
    proof -
      have "v = u" using A that u(1,3) by (auto simp: addr_ok_def inj_on_def)
      then show ?thesis by simp
    qed
  qed (use t(2) u ut ds in auto)
  then show ?thesis by (auto intro: srw_okI)
qed

section \<open>Going to sleep\<close>

text \<open>Changes of nodes other than of links.\<close>

lemma nodes_keep:
  assumes I: "srw_inv addr N s q j d"
    and k: "\<And>a m. Nodes s a = Some m \<Longrightarrow> \<exists>m'. h a = Some m' \<and> node_prev m' = node_prev m \<and> node_next m' = node_next m \<and> node_head m' = node_head m \<and>
      (has (node_flags m') 2 \<longrightarrow> has (node_flags m) 2)"
  shows "q \<noteq> [] \<Longrightarrow> queue_ok h q j" "has (Ptr s) 8 \<Longrightarrow> fresh_ok h q" "pc_ok (Ptr s) h q j (d u) (pcs s u)"
proof -
  note D = srw_invD[OF I]
  have kq: "\<exists>m m'. Nodes s a = Some m \<and> h a = Some m' \<and> node_prev m' = node_prev m \<and> node_next m' = node_next m \<and> node_head m' = node_head m" if "a \<in> set q" for a
  proof -
    have "q \<noteq> []" using that by auto
    note queue_nodes[OF D(2)[OF this] that]
    then obtain m where "Nodes s a = Some m" by blast
    then show ?thesis using k by blast
  qed
  show "queue_ok h q j" if "q \<noteq> []" by (rule queue_cong[OF D(2)[OF that] kq])
  show "fresh_ok h q" if "has (Ptr s) 8" by (rule fresh_cong[OF D(3)[OF that]]) (use kq in blast)
  show "pc_ok (Ptr s) h q j (d u) (pcs s u)"
  proof (rule pc_ok_linked[OF D(5)])
    show "linked h (d u)" if "linked (Nodes s) (d u)" using that k unfolding linked_def by metis
  qed (use k in blast)
qed

lemma wait_sleep:
  assumes A: "addr_ok addr N" and W: "wait_ok addr N f h L" and t: "t < N" "f t = Waiting e old" and n: "h (addr t) = Some n"
  shows "wait_ok addr N (f(t := if has (node_flags n) 2 then Blocked e old else Acquire e old))
    (if has (node_flags n) 2 then h(addr t \<mapsto> n\<lparr>node_flags := node_flags n AND NOT 2\<rparr>) else h) L" (is "wait_ok addr N (f(t := ?p)) ?h L")
  unfolding wait_ok_def
proof (intro conjI allI impI)
  have l: "has (node_flags n) 2 = L (addr t)" using wait_okD(3)[OF W t(1)] t(2) n by auto
  fix a assume "L a"
  then obtain u where "u < N" "a = addr u" "waits (f u)" using wait_okD(1)[OF W] by blast
  then show "\<exists>u < N. a = addr u \<and> waits ((f(t := ?p)) u)" using l \<open>L a\<close> by (intro exI[of _ u]) auto
next
  fix u assume u: "u < N" "waits ((f(t := ?p)) u)"
  show "\<exists>m. ?h (addr u) = Some m \<and> has (node_flags m) 2 = (L (addr u) \<and> \<not> blocked ((f(t := ?p)) u))"
  proof (cases "u = t")
    case False
    then have "addr u \<noteq> addr t" using A u(1) t(1) by (auto simp: addr_ok_def inj_on_def)
    then show ?thesis using wait_okD(3)[OF W u(1)] u(2) False by simp
  qed (use u(2) in \<open>simp add: has_and split: if_splits\<close>)
next
  fix u assume "u < N" "blocked ((f(t := ?p)) u)"
  then show "L (addr u)" using wait_okD(2)[OF W] wait_okD(3)[OF W t(1)] t(2) n by (cases "u = t") (auto split: if_splits)
qed

lemma inv_sleep_step:
  assumes A: "addr_ok addr N" and I: "srw_inv addr N s q j d" and t: "t < N" "pcs s t = Waiting e old"
  shows "\<exists>s'. sleep_step t e (addr t) old s = Some s' \<and> srw_ok addr N s'"
proof -
  note D = srw_invD[OF I]
  have dt: "d t = []" using D(5)[of t] t(2) by simp
  obtain n where n: "Nodes s (addr t) = Some n" "has (node_flags n) 2 = listed q d (addr t)" using wait_okD(3)[OF D(7) t(1)] t(2) by auto
  define h p where "h = (if has (node_flags n) 2 then (Nodes s)(addr t \<mapsto> n\<lparr>node_flags := node_flags n AND NOT 2\<rparr>) else Nodes s)"
    and "p = (if has (node_flags n) 2 then Blocked e old else Acquire e old)"
  have pc: "\<not> sharing p" "\<not> clearing p" "\<not> linking p" "p \<noteq> HoldX" "\<And>w h. pc_ok w h q j [] p" by (auto simp: p_def)
  have k: "\<exists>m'. h a = Some m' \<and> node_prev m' = node_prev m \<and> node_next m' = node_next m \<and> node_head m' = node_head m \<and>
      (has (node_flags m') 2 \<longrightarrow> has (node_flags m) 2) \<and> shareSnapshot m' = shareSnapshot m" if "Nodes s a = Some m" for a m
    using that n(1) by (cases "a = addr t") (auto simp: h_def has_and)
  note K = nodes_keep[OF I, of h]
  have "lock_ok (Ptr s) h q (Xs (pcs s)) (Ss (pcs s)) (Cs (pcs s))" by (rule lock_nodes[OF D(1)]) (use k in blast)
  then have "lock_ok (Ptr s) h q (Xs ((pcs s)(t := p))) (Ss ((pcs s)(t := p))) (Cs ((pcs s)(t := p)))" unfolding cls_upd using pc t(2) by simp
  moreover have "queue_ok h q j" if "q \<noteq> []" by (rule K(1)[OF _ that]) (use k in blast)
  moreover have "fresh_ok h q" if "has (Ptr s) 8" by (rule K(2)[OF _ that]) (use k in blast)
  moreover have "link_ok (Ptr s) ((pcs s)(t := p))" by (rule link_same[OF D(4)]) (use t pc D(4) in \<open>auto simp: link_ok_def\<close>)
  moreover have "pc_ok (Ptr s) h q j (d u) (((pcs s)(t := p)) u)" for u
  proof (cases "u = t")
    case False
    have "pc_ok (Ptr s) h q j (d u) (pcs s u)" by (rule K(3)) (use k in blast)
    then show ?thesis using False by simp
  qed (use pc dt in simp)
  moreover have "wait_ok addr N ((pcs s)(t := p)) h (listed q d)" unfolding h_def p_def by (rule wait_sleep[OF A D(7) t n(1)])
  ultimately have "srw_inv addr N (s\<lparr>Nodes := h, pcs := (pcs s)(t := p)\<rparr>) q j d" using D(6,8) t(1) by (simp add: srw_inv_def)
  then show ?thesis using n(1) by (auto simp: sleep_step_def h_def p_def intro: srw_okI)
qed

section \<open>Counting a thread out\<close>

lemma lock_count:
  assumes "lock_ok w h q X S C" "has w 2" "has w 8" "t \<in> S" "finite S" "h (q ! 0) = Some n"
    "h' (q ! 0) = Some (n\<lparr>shareSnapshot := shareSnapshot n - 1\<rparr>)"
  shows "lock_ok w h' q X (S - {t}) (if shareSnapshot n - 1 > 0 then C else insert t C)"
proof -
  have c: "card S = unat (shareSnapshot n)" "C = {}" "X = {}" "has w 1" "q \<noteq> []" "item w = last q" using assms by (auto simp: lock_ok_def split: if_splits)
  have "card S > 0" using assms(4,5) by (auto simp: card_gt_0_iff)
  then have nz: "shareSnapshot n \<noteq> 0" using c(1) by auto
  then have u: "card (S - {t}) = unat (shareSnapshot n - 1)" using c(1) assms(4,5) by (simp add: unat_minus_one)
  then have "shareSnapshot n - 1 > 0 \<longleftrightarrow> S - {t} \<noteq> {}" using assms(5) by (metis card_0_eq finite_Diff unat_eq_zero word_neq_0_conv)
  then show ?thesis using assms(2,3,7) c u by (auto simp: lock_ok_def)
qed

lemma inv_release_many:
  assumes A: "addr_ok addr N" and I: "srw_inv addr N s q j d" and t: "t < N" "pcs s t = ReleaseS old" "has old 2" "has old 8"
  shows "\<exists>s'. RtlReleaseSRWLockShared_step t old s = Some s' \<and> srw_ok addr N s'"
proof -
  note D = srw_invD[OF I]
  have w: "d t = []" "has (Ptr s) 2" "has (Ptr s) 8" "item old \<in> set q" using D(5)[of t] t(2-4) by simp_all
  have q: "q \<noteq> []" using w(4) by auto
  obtain i where i: "i < length q" "item old = q ! i" using w(4) by (metis in_set_conv_nth)
  have hl: "head_loop (Nodes s) (item old) = Some (q ! 0)" unfolding i(2) by (rule head_loop_ok[OF D(2)[OF q] D(3)[OF w(3)] i(1)])
  obtain n where n: "Nodes s (q ! 0) = Some n" using queue_head_node[OF D(2)[OF q]] by blast
  define h p where "h = (Nodes s)(q ! 0 \<mapsto> n\<lparr>shareSnapshot := shareSnapshot n - 1\<rparr>)" and "p = (if shareSnapshot n - 1 > 0 then Idle else Clear old)"
  have pc: "\<not> sharing p" "\<not> waits p" "\<not> blocked p" "\<not> linking p" "p \<noteq> HoldX" "\<And>w h. pc_ok w h q j [] p" by (auto simp: p_def)
  have k: "\<exists>m'. h a = Some m' \<and> node_prev m' = node_prev m \<and> node_next m' = node_next m \<and> node_head m' = node_head m \<and> node_flags m' = node_flags m"
    if "Nodes s a = Some m" for a m using that n by (cases "a = q ! 0") (auto simp: h_def)
  note K = nodes_keep[OF I, of h]
  have "lock_ok (Ptr s) h q (Xs (pcs s)) (Ss (pcs s) - {t}) (if shareSnapshot n - 1 > 0 then Cs (pcs s) else insert t (Cs (pcs s)))"
    by (rule lock_count[OF D(1) w(2,3) _ inv_sets(1)[OF I t(1)] n]) (use t(2) in \<open>simp_all add: h_def\<close>)
  then have "lock_ok (Ptr s) h q (Xs ((pcs s)(t := p))) (Ss ((pcs s)(t := p))) (Cs ((pcs s)(t := p)))" unfolding cls_upd using pc t(2) by (auto simp: p_def split: if_splits)
  moreover have "queue_ok h q j" by (rule K(1)[OF _ q]) (use k in fastforce)
  moreover have "fresh_ok h q" by (rule K(2)[OF _ w(3)]) (use k in fastforce)
  moreover have "link_ok (Ptr s) ((pcs s)(t := p))" by (rule link_same[OF D(4)]) (use t pc D(4) in \<open>auto simp: link_ok_def\<close>)
  moreover have "pc_ok (Ptr s) h q j (d u) (((pcs s)(t := p)) u)" for u
  proof (cases "u = t")
    case False
    have "pc_ok (Ptr s) h q j (d u) (pcs s u)" by (rule K(3)) (use k in fastforce)
    then show ?thesis using False by simp
  qed (use pc w(1) in simp)
  moreover have "wait_ok addr N ((pcs s)(t := p)) h (listed q d)" by (rule wait_ok_flags[OF D(7)]) (use pc t(2) k in \<open>auto, fastforce\<close>)
  ultimately have "srw_inv addr N (s\<lparr>Nodes := h, pcs := (pcs s)(t := p)\<rparr>) q j d" using D(6,8) t(1) by (simp add: srw_inv_def)
  then show ?thesis using t(3,4) hl n by (auto simp: RtlReleaseSRWLockShared_step_def Let_def h_def p_def intro: srw_okI)
qed

end
