(* ===== verification/Srw_Safe.thy ===== *)
theory Srw_Safe
  imports Srw_Wait_Steps
begin

text \<open>Steps that put a node into the queue, and the invariant of all executions in which no thread takes a lock that it has read as
  free inside \<open>RtlTryAcquireSRWLockShared\<close>.\<close>

section \<open>Putting a node into the queue\<close>

lemma lists_join:
  assumes "lists_ok q d" "\<not> listed q d a"
  shows "lists_ok (q @ [a]) d" "listed (q @ [a]) d = (\<lambda>b. listed q d b \<or> b = a)"
  using assms by (auto simp: lists_ok_def listed_def fun_eq_iff)

lemma wait_join:
  assumes A: "addr_ok addr N" and W: "wait_ok addr N f h L" and t: "t < N" "\<not> waits (f t)" "waits p" "\<not> blocked p" "has (node_flags n) 2"
  shows "wait_ok addr N (f(t := p)) (h(addr t \<mapsto> n)) (\<lambda>b. L b \<or> b = addr t)"
  unfolding wait_ok_def
proof (intro conjI allI impI)
  fix a assume "L a \<or> a = addr t"
  then show "\<exists>u < N. a = addr u \<and> waits ((f(t := p)) u)"
  proof
    assume "L a"
    then obtain u where "u < N" "a = addr u" "waits (f u)" using wait_okD(1)[OF W] by blast
    then show ?thesis using t(2) by (intro exI[of _ u]) auto
  qed (use t in auto)
next
  fix u assume u: "u < N" "waits ((f(t := p)) u)"
  show "\<exists>m. (h(addr t \<mapsto> n)) (addr u) = Some m \<and> has (node_flags m) 2 = ((L (addr u) \<or> addr u = addr t) \<and> \<not> blocked ((f(t := p)) u))"
  proof (cases "u = t")
    case False
    then have "addr u \<noteq> addr t" using A u(1) t(1) by (auto simp: addr_ok_def inj_on_def)
    then show ?thesis using wait_okD(3)[OF W u(1)] u(2) False by simp
  qed (use t in simp)
next
  fix u assume "u < N" "blocked ((f(t := p)) u)"
  then show "L (addr u) \<or> addr u = addr t" using wait_okD(2)[OF W] t(4) by (cases "u = t") auto
qed

lemma pc_ok_append:
  assumes "pc_ok w h q j ds p" "j < length q" "has w' 2" "has w' 8 = has w 8"
  shows "pc_ok w' h (q @ [a]) j ds p"
  using assms by (cases p) (auto simp: behind_def nth_append)

lemma lock_append:
  assumes "lock_ok w h q X S C" "has w 2" "has w 1" "has w' 1" "has w' 2" "has w' 8 = has w 8" "item w' = a" "q ! 0 \<noteq> a"
  shows "lock_ok w' (h(a \<mapsto> n)) (q @ [a]) X S C"
  using assms by (auto simp: lock_ok_def nth_append split: if_splits)

lemma inv_append:
  assumes A: "addr_ok addr N" and I: "srw_inv addr N s q j d" and t: "t < N" "outside (pcs s t)" and o: "has (Ptr s) 1" "has (Ptr s) 2"
    and n: "node_prev n = item (Ptr s)" "node_head n = 0" "node_next n = 0" "has (node_flags n) 2"
    and w: "has w 1" "has w 2" "has w 4" "has w 8 = has (Ptr s) 8" "item w = addr t"
    and p: "p = (if has (Ptr s) 4 then Waiting e old else Compress w (ToWait e old))"
  shows "srw_inv addr N (s\<lparr>Ptr := w, Nodes := (Nodes s)(addr t \<mapsto> n), pcs := (pcs s)(t := p)\<rparr>) (q @ [addr t]) j d"
proof -
  note D = srw_invD[OF I] and O = outsideD[OF t(2)] and E = outside_inv[OF I t(2)]
  have u: "\<not> listed q d (addr t)" by (rule unlisted[OF A D(7) t(1) O(1)])
  then have uq: "addr t \<notin> set q" "\<And>v. addr t \<notin> set (d v)" by (auto simp: listed_def)
  have q: "q \<noteq> []" "item (Ptr s) = last q" using D(1) o(2) by (simp_all add: lock_ok_def)
  have a: "addr t \<noteq> 0" using A t(1) by (simp add: addr_ok_def)
  have pc: "waits p" "\<not> blocked p" "\<not> sharing p" "\<not> clearing p" "p \<noteq> HoldX" "linking p = (\<not> has (Ptr s) 4)" by (auto simp: p)
  have n': "node_prev n = last q" using n(1) q(2) by simp
  note Q = queue_append[OF D(2)[OF q(1)] uq(1) a n' n(2,3)] and L = lists_join[OF D(6) u]
  have j: "j < length q" using D(2)[OF q(1)] by (simp add: queue_ok_def)
  have "lock_ok w ((Nodes s)(addr t \<mapsto> n)) (q @ [addr t]) (Xs (pcs s)) (Ss (pcs s)) (Cs (pcs s))"
    by (rule lock_append[OF D(1) o(2,1) w(1,2,4,5)]) (use uq(1) q(1) in \<open>metis length_greater_0_conv nth_mem\<close>)
  then have "lock_ok w ((Nodes s)(addr t \<mapsto> n)) (q @ [addr t]) (Xs ((pcs s)(t := p))) (Ss ((pcs s)(t := p))) (Cs ((pcs s)(t := p)))"
    unfolding cls_upd using pc E by simp
  moreover have "link_ok w ((pcs s)(t := p))"
  proof (cases "has (Ptr s) 4")
    case True
    then show ?thesis by (intro link_same[OF D(4)]) (use pc O w in simp_all)
  qed (use link_begin[OF D(4)] pc w in simp)
  moreover have "pc_ok w ((Nodes s)(addr t \<mapsto> n)) (q @ [addr t]) j (d v) (((pcs s)(t := p)) v)" for v
  proof (cases "v = t")
    case True
    have "behind w (q @ [addr t]) j w" by (rule behind_last[OF Q(1)]) (use w in simp_all)
    then show ?thesis using True E(1) by (simp add: p)
  next
    case False
    have "pc_ok w (Nodes s) (q @ [addr t]) j (d v) (pcs s v)" by (rule pc_ok_append[OF D(5) j w(2,4)])
    then have "pc_ok w ((Nodes s)(addr t \<mapsto> n)) (q @ [addr t]) j (d v) (pcs s v)" by (rule pc_ok_nodes) (use uq(2)[of v] in auto)
    then show ?thesis using False by simp
  qed
  moreover have "wait_ok addr N ((pcs s)(t := p)) ((Nodes s)(addr t \<mapsto> n)) (listed (q @ [addr t]) d)" unfolding L(2)
    by (rule wait_join[OF A D(7) t(1) O(1) pc(1,2) n(4)])
  ultimately show ?thesis using Q L(1) D(3,8) w(4) t(1) by (simp add: srw_inv_def)
qed

text \<open>The first node: the lock is held exclusively, or shared by the threads counted in the node.\<close>

lemma lock_first:
  assumes "lock_ok w h q X S C" "has w 1" "\<not> has w 2" "finite S" "card S < 2 ^ 28" "has w' 1" "has w' 2" "item w' = a"
    "has w' 8 \<longleftrightarrow> drop_bit 4 w > 1" "has w' 8 \<Longrightarrow> shareSnapshot n = drop_bit 4 w"
  shows "lock_ok w' (h(a \<mapsto> n)) [a] X S C"
proof -
  consider t where "w = 1" "S = {}" "X = {t}" "C = {}" | "w = shared_word (card S)" "X = {}" "S \<noteq> {}" "C = {}" using assms(1-3) by (auto simp: lock_ok_def)
  then show ?thesis
  proof cases
    case 1
    then show ?thesis using assms(6-9) by (simp add: lock_ok_def)
  next
    case 2
    have e: "drop_bit 4 w = of_nat (card S)" unfolding 2(1) by (rule shared_drop[OF assms(5)])
    have c: "unat (of_nat (card S) :: 32 word) = card S" using assms(5) by (simp add: unat_of_nat take_bit_nat_eq_self)
    have m: "has w' 8 \<longleftrightarrow> card S > 1" unfolding assms(9) e word_less_nat_alt c by simp
    have "\<exists>u. S = {u}" if "\<not> has w' 8" using that m 2(3) assms(4) by (metis card_1_singletonE card_0_eq less_one linorder_neqE_nat)
    then show ?thesis using assms(6-8,10) 2 e c by (cases "has w' 8") (auto simp: lock_ok_def)
  qed
qed

lemma inv_first:
  assumes A: "addr_ok addr N" and I: "srw_inv addr N s q j d" and t: "t < N" "outside (pcs s t)" and o: "has (Ptr s) 1" "\<not> has (Ptr s) 2"
    and n: "node_head n = addr t" "node_next n = 0" "has (node_flags n) 2"
    and w: "has w 1" "has w 2" "\<not> has w 4" "has w 8 \<longleftrightarrow> drop_bit 4 (Ptr s) > 1" "has w 8 \<Longrightarrow> shareSnapshot n = drop_bit 4 (Ptr s)" "item w = addr t"
  shows "srw_inv addr N (s\<lparr>Ptr := w, Nodes := (Nodes s)(addr t \<mapsto> n), pcs := (pcs s)(t := Waiting e old)\<rparr>) [addr t] 0 d"
proof -
  note D = srw_invD[OF I] and O = outsideD[OF t(2)] and E = outside_inv[OF I t(2)]
  have q: "q = []" using lock_wait[OF D(1)] o(2) by simp
  have u: "\<not> listed q d (addr t)" by (rule unlisted[OF A D(7) t(1) O(1)])
  then have ud: "\<And>v. addr t \<notin> set (d v)" by (auto simp: listed_def)
  have Q: "queue_ok ((Nodes s)(addr t \<mapsto> n)) [addr t] 0 \<and> fresh_ok ((Nodes s)(addr t \<mapsto> n)) [addr t]"
    using A t(1) n by (intro queue_first) (auto simp: addr_ok_def)
  have L: "lists_ok [addr t] d" "listed [addr t] d = (\<lambda>b. listed q d b \<or> b = addr t)" using lists_join[OF D(6) u] q by simp_all
  have nl: "\<not> has (Ptr s) 4" by (rule lock_nowait(2)[OF D(1) q])
  have c: "card (Ss (pcs s)) < 2 ^ 28" using inv_sets(2)[OF I t(1)] A by (simp add: addr_ok_def)
  have "lock_ok w ((Nodes s)(addr t \<mapsto> n)) [addr t] (Xs (pcs s)) (Ss (pcs s)) (Cs (pcs s))"
    by (rule lock_first[OF D(1) o inv_sets(1)[OF I t(1)] c w(1,2,6,4,5)])
  then have "lock_ok w ((Nodes s)(addr t \<mapsto> n)) [addr t] (Xs ((pcs s)(t := Waiting e old))) (Ss ((pcs s)(t := Waiting e old))) (Cs ((pcs s)(t := Waiting e old)))"
    unfolding cls_upd using E by simp
  moreover have "link_ok w ((pcs s)(t := Waiting e old))" by (rule link_same[OF D(4)]) (use O w nl in simp_all)
  moreover have "pc_ok w ((Nodes s)(addr t \<mapsto> n)) [addr t] 0 (d v) (((pcs s)(t := Waiting e old)) v)" for v
  proof (cases "v = t")
    case False
    have "\<not> linking (pcs s v)" using D(4) nl by (auto simp: link_ok_def)
    then have "pc_ok w (Nodes s) [addr t] 0 (d v) (pcs s v)" using D(5)[of v] o(2) by (cases "pcs s v") auto
    then have "pc_ok w ((Nodes s)(addr t \<mapsto> n)) [addr t] 0 (d v) (pcs s v)" by (rule pc_ok_nodes) (use ud[of v] in auto)
    then show ?thesis using False by simp
  qed (use E(1) in simp)
  moreover have "wait_ok addr N ((pcs s)(t := Waiting e old)) ((Nodes s)(addr t \<mapsto> n)) (listed [addr t] d)" unfolding L(2)
    by (rule wait_join[OF A D(7) t(1) O(1) _ _ n(3)]) simp_all
  ultimately show ?thesis using Q L(1) D(8) t(1) by (simp add: srw_inv_def)
qed

section \<open>Acquiring\<close>

lemma addr_word:
  assumes "addr_ok addr N" "t < N"
  shows "\<not> has (addr t) 1" "\<not> has (addr t) 2" "\<not> has (addr t) 4" "\<not> has (addr t) 8" "item (addr t) = addr t"
  using assms aligned_has[of "addr t"] aligned_item[of "addr t"] by (simp_all add: addr_ok_def)

lemma inv_reread:
  assumes "addr_ok addr N" "srw_inv addr N s q j d" "t < N" "outside (pcs s t)" "Ptr s \<noteq> old"
  shows "srw_ok addr N (enqueue_step t e (addr t) old x s)" "srw_ok addr N (take_step t e (addr t) old w s)"
proof -
  have "srw_inv addr N (s\<lparr>Nodes := (Nodes s)(addr t \<mapsto> fst x), pcs := (pcs s)(t := Reread e)\<rparr>) q j d" by (rule inv_outside[OF assms(1-4)]) simp_all
  then show "srw_ok addr N (enqueue_step t e (addr t) old x s)" using assms(5) by (cases x) (auto simp: enqueue_step_def Let_def intro: srw_okI)
  have "srw_inv addr N (s\<lparr>Nodes := Nodes s, pcs := (pcs s)(t := Reread e)\<rparr>) q j d" by (rule inv_outside[OF assms(1-4)]) simp_all
  then show "srw_ok addr N (take_step t e (addr t) old w s)" using assms(5) by (auto simp: take_step_def intro: srw_okI)
qed

lemma inv_acquire_exclusive_step:
  assumes A: "addr_ok addr N" and I: "srw_inv addr N s q j d" and t: "t < N" "outside (pcs s t)"
  shows "srw_ok addr N (RtlAcquireSRWLockExclusive_step t (addr t) junk old s)"
proof -
  note W = addr_word[OF A t(1)]
  consider "Ptr s \<noteq> old" | "Ptr s = old" "has old 1" "has old 2" | "Ptr s = old" "has old 1" "\<not> has old 2" | "Ptr s = old" "\<not> has old 1" by blast
  then show ?thesis
  proof cases
    case 1
    then show ?thesis using inv_reread[OF A I t 1] by (simp add: RtlAcquireSRWLockExclusive_step_def)
  next
    case 2
    have "srw_inv addr N (s\<lparr>Ptr := addr t OR (old AND 8) OR 7, Nodes := (Nodes s)(addr t \<mapsto> fst (exclusive_node (addr t) junk old)),
        pcs := (pcs s)(t := if has (Ptr s) 4 then Waiting True old else Compress (addr t OR (old AND 8) OR 7) (ToWait True old))\<rparr>) (q @ [addr t]) j d"
      by (rule inv_append[OF A I t]) (use 2 W in \<open>simp_all add: exclusive_node_def srw_fields\<close>)
    then show ?thesis using 2 by (auto simp: RtlAcquireSRWLockExclusive_step_def enqueue_step_def exclusive_node_def Let_def intro: srw_okI)
  next
    case 3
    have "srw_inv addr N (s\<lparr>Ptr := if drop_bit 4 old > 1 then addr t OR 11 else addr t OR 3, Nodes := (Nodes s)(addr t \<mapsto> fst (exclusive_node (addr t) junk old)),
        pcs := (pcs s)(t := Waiting True old)\<rparr>) [addr t] 0 d"
      by (rule inv_first[OF A I t]) (use 3 W in \<open>simp_all add: exclusive_node_def srw_fields\<close>)
    then show ?thesis using 3 by (auto simp: RtlAcquireSRWLockExclusive_step_def enqueue_step_def exclusive_node_def Let_def intro: srw_okI)
  next
    case 4
    have "srw_inv addr N (s\<lparr>Ptr := Ptr s OR 1, Nodes := (Nodes s)(addr t := None), pcs := (pcs s)(t := HoldX)\<rparr>) q j d"
      by (rule inv_take[OF A I t]) (use 4 in simp_all)
    then show ?thesis using 4 has_add(1)[OF 4(2)] by (auto simp: RtlAcquireSRWLockExclusive_step_def take_step_def intro: srw_okI)
  qed
qed

lemma inv_acquire_shared_step:
  assumes A: "addr_ok addr N" and I: "srw_inv addr N s q j d" and t: "t < N" "outside (pcs s t)"
  shows "srw_ok addr N (RtlAcquireSRWLockShared_step t (addr t) junk old s)"
proof -
  note W = addr_word[OF A t(1)]
  consider "Ptr s \<noteq> old" | "Ptr s = old" "has old 1" "has old 2" | "Ptr s = old" "has old 1" "\<not> has old 2" "item old = 0"
    | "Ptr s = old" "\<not> has old 1" "has old 2" | "Ptr s = old" "\<not> has old 2" "\<not> has old 1 \<or> item old \<noteq> 0" by blast
  then show ?thesis
  proof cases
    case 1
    then show ?thesis using inv_reread[OF A I t 1] by (simp add: RtlAcquireSRWLockShared_step_def)
  next
    case 2
    have "srw_inv addr N (s\<lparr>Ptr := addr t OR (old AND 9) OR 6, Nodes := (Nodes s)(addr t \<mapsto> fst (shared_node (addr t) junk old)),
        pcs := (pcs s)(t := if has (Ptr s) 4 then Waiting False old else Compress (addr t OR (old AND 9) OR 6) (ToWait False old))\<rparr>) (q @ [addr t]) j d"
      by (rule inv_append[OF A I t]) (use 2 W in \<open>simp_all add: shared_node_def srw_fields\<close>)
    then show ?thesis using 2 by (auto simp: RtlAcquireSRWLockShared_step_def enqueue_step_def shared_node_def Let_def intro: srw_okI)
  next
    case 3
    have c: "card (Ss (pcs s)) < 2 ^ 28" using inv_sets(2)[OF I t(1)] A by (simp add: addr_ok_def)
    have "old = 1" using srw_invD(1)[OF I] 3 shared_item(2)[OF c] inv_sets(1)[OF I t(1)] by (auto simp: lock_ok_def)
    then have "srw_inv addr N (s\<lparr>Ptr := addr t OR 3, Nodes := (Nodes s)(addr t \<mapsto> fst (shared_node (addr t) junk old)),
        pcs := (pcs s)(t := Waiting False old)\<rparr>) [addr t] 0 d"
      by (intro inv_first[OF A I t]) (use 3 W in \<open>simp_all add: shared_node_def srw_fields\<close>)
    then show ?thesis using 3 by (auto simp: RtlAcquireSRWLockShared_step_def enqueue_step_def shared_node_def Let_def intro: srw_okI)
  next
    case 4
    have "srw_inv addr N (s\<lparr>Ptr := Ptr s OR 1, Nodes := (Nodes s)(addr t := None), pcs := (pcs s)(t := HoldS)\<rparr>) q j d"
      by (rule inv_take[OF A I t]) (use 4 in simp_all)
    then show ?thesis using 4 has_add(1)[OF 4(2)] by (auto simp: RtlAcquireSRWLockShared_step_def take_step_def intro: srw_okI)
  next
    case 5
    have "srw_inv addr N (s\<lparr>Ptr := (Ptr s + 16) OR 1, Nodes := (Nodes s)(addr t := None), pcs := (pcs s)(t := HoldS)\<rparr>) q j d"
      by (rule inv_share[OF A I t]) (use 5 in simp_all)
    then show ?thesis using 5 by (auto simp: RtlAcquireSRWLockShared_step_def take_step_def intro: srw_okI)
  qed
qed

lemma inv_try_shared_step:
  assumes A: "addr_ok addr N" and I: "srw_inv addr N s q j d" and t: "t < N" "pcs s t = TryS old" and z: "old \<noteq> 0 \<or> Ptr s \<noteq> 0"
  shows "srw_ok addr N (RtlTryAcquireSRWLockShared_step t old s)"
proof -
  have o: "outside (pcs s t)" using t(2) by simp
  have g: "srw_ok addr N (goto t p s)" if "outside p" for p
  proof -
    have "srw_inv addr N (s\<lparr>Nodes := Nodes s, pcs := (pcs s)(t := p)\<rparr>) q j d" by (rule inv_outside[OF A I t(1) o that]) simp
    then show ?thesis by (auto intro: srw_okI)
  qed
  consider "Ptr s \<noteq> old \<or> has old 1 \<and> (has old 2 \<or> item old = 0)"
    | "Ptr s = old" "\<not> has old 1" "has old 2" | "Ptr s = old" "\<not> has old 2" "\<not> has old 1 \<or> item old \<noteq> 0" by blast
  then show ?thesis
  proof cases
    case 1
    then show ?thesis using g[of Idle] g[of RereadTry] by (auto simp: RtlTryAcquireSRWLockShared_step_def Let_def)
  next
    case 2
    have "srw_inv addr N (s\<lparr>Ptr := Ptr s OR 1, Nodes := Nodes s, pcs := (pcs s)(t := HoldS)\<rparr>) q j d"
      by (rule inv_take[OF A I t(1) o]) (use 2 in simp_all)
    then show ?thesis using 2 has_add(1)[OF 2(2)] by (auto simp: RtlTryAcquireSRWLockShared_step_def Let_def intro: srw_okI)
  next
    case 3
    have "srw_inv addr N (s\<lparr>Ptr := (Ptr s + 16) OR 1, Nodes := Nodes s, pcs := (pcs s)(t := HoldS)\<rparr>) q j d"
      by (rule inv_share[OF A I t(1) o]) (use 3 in simp_all)
    moreover have "Ptr s + 16 = (Ptr s + 16) OR 1"
      by (rule lock_share(2)[OF srw_invD(1)[OF I] _ _ outside_inv(3)[OF I o] inv_sets(1)[OF I t(1)]]) (use 3 z in auto)
    ultimately show ?thesis using 3 by (auto simp: RtlTryAcquireSRWLockShared_step_def Let_def intro: srw_okI)
  qed
qed

section \<open>All steps\<close>

lemma inv_first_attempts:
  assumes A: "addr_ok addr N" and I: "srw_inv addr N s q j d" and t: "t < N" "pcs s t = Idle"
  shows "srw_ok addr N (RtlAcquireSRWLockExclusive t s)" "srw_ok addr N (RtlAcquireSRWLockShared t s)"
    "srw_ok addr N (RtlTryAcquireSRWLockExclusive t s)" "srw_ok addr N (RtlTryAcquireSRWLockShared t s)"
proof -
  have o: "outside (pcs s t)" using t(2) by simp
  have g: "srw_ok addr N (goto t p s)" if "outside p" for p
  proof -
    have "srw_inv addr N (s\<lparr>Nodes := Nodes s, pcs := (pcs s)(t := p)\<rparr>) q j d" by (rule inv_outside[OF A I t(1) o that]) simp
    then show ?thesis by (auto intro: srw_okI)
  qed
  have x: "srw_ok addr N (s\<lparr>Ptr := Ptr s OR 1, pcs := (pcs s)(t := HoldX)\<rparr>)" if "\<not> has (Ptr s) 1"
  proof -
    have "srw_inv addr N (s\<lparr>Ptr := Ptr s OR 1, Nodes := Nodes s, pcs := (pcs s)(t := HoldX)\<rparr>) q j d" by (rule inv_take[OF A I t(1) o that]) simp_all
    then show ?thesis by (auto intro: srw_okI)
  qed
  have h: "srw_ok addr N (s\<lparr>Ptr := 0x11, pcs := (pcs s)(t := HoldS)\<rparr>)" if "Ptr s = 0"
  proof -
    have "srw_inv addr N (s\<lparr>Ptr := (Ptr s + 16) OR 1, Nodes := Nodes s, pcs := (pcs s)(t := HoldS)\<rparr>) q j d" by (rule inv_share[OF A I t(1) o]) (use that in simp_all)
    then show ?thesis using that by (auto intro: srw_okI)
  qed
  show "srw_ok addr N (RtlAcquireSRWLockExclusive t s)" using g[of "Reread True"] x by (simp add: RtlAcquireSRWLockExclusive_def)
  show "srw_ok addr N (RtlAcquireSRWLockShared t s)" using g[of "Acquire False (Ptr s)"] h by (simp add: RtlAcquireSRWLockShared_def)
  show "srw_ok addr N (RtlTryAcquireSRWLockExclusive t s)" using srw_okI[OF I] x by (simp add: RtlTryAcquireSRWLockExclusive_def)
  show "srw_ok addr N (RtlTryAcquireSRWLockShared t s)" using g[of "TryS (Ptr s)"] h by (simp add: RtlTryAcquireSRWLockShared_def)
qed

lemma inv_release_shared_step:
  assumes A: "addr_ok addr N" and I: "srw_inv addr N s q j d" and t: "t < N" "pcs s t = ReleaseS old"
  shows "\<exists>s'. RtlReleaseSRWLockShared_step t old s = Some s' \<and> srw_ok addr N s'"
proof -
  consider "\<not> has old 2" | "has old 2" "has old 8" | "has old 2" "\<not> has old 8" by blast
  then show ?thesis
  proof cases
    case 1
    then show ?thesis using inv_release_shared_nowait[OF A I t 1] srw_okI by blast
  next
    case 2
    then show ?thesis by (rule inv_release_many[OF A I t])
  next
    case 3
    then have "has (Ptr s) 2" "\<not> has (Ptr s) 8" using srw_invD(5)[OF I, of t] t(2) by simp_all
    then have "srw_inv addr N (clear_step t old s) q j d" by (intro inv_clear[OF A I t(1)]) (use t(2) in simp)
    then show ?thesis using 3 by (auto simp: RtlReleaseSRWLockShared_step_def intro: srw_okI)
  qed
qed

text \<open>A thread inside a routine can go on, and the invariant holds again.\<close>

lemma srw_next_ok:
  assumes A: "addr_ok addr N" and I: "srw_ok addr N s" and t: "t < N" "pcs s t = TryS 0 \<longrightarrow> Ptr s \<noteq> 0"
  shows "\<exists>s'. srw_next addr junk t (pcs s t) s = Some s' \<and> srw_ok addr N s'"
proof -
  obtain q j d where I: "srw_inv addr N s q j d" using I by (auto simp: srw_ok_def)
  have g: "srw_ok addr N (goto t p s)" if "outside (pcs s t)" "outside p" for p
  proof -
    have "srw_inv addr N (s\<lparr>Nodes := Nodes s, pcs := (pcs s)(t := p)\<rparr>) q j d" by (rule inv_outside[OF A I t(1) that]) simp
    then show ?thesis by (auto intro: srw_okI)
  qed
  show ?thesis
  proof (cases "pcs s t")
    case (Acquire e old)
    then show ?thesis using inv_acquire_exclusive_step[OF A I t(1)] inv_acquire_shared_step[OF A I t(1)] by simp
  next
    case (ReleaseX old)
    then show ?thesis using srw_okI[OF inv_release_exclusive_step[OF A I t(1) ReleaseX]] by simp
  next
    case (Clear old)
    then show ?thesis using srw_okI[OF inv_clear[OF A I t(1)]] by simp
  next
    case (TryS old)
    then show ?thesis using inv_try_shared_step[OF A I t(1) TryS] t(2) by auto
  next
    case (Wake old k)
    then show ?thesis using inv_wake_step[OF A I t(1), of k old] srw_invD(5)[OF I, of t] by simp
  qed (use g srw_okI[OF I] inv_sleep_step[OF A I t(1)] inv_release_shared_step[OF A I t(1)] inv_compress_step[OF A I t(1)]
    inv_dequeue_step[OF A I t(1)] inv_signal_step[OF A I t(1)] in simp_all)
qed

text \<open>Executions in which no thread takes a lock that it has read as free inside \<open>RtlTryAcquireSRWLockShared\<close>.\<close>

inductive srw_safe :: "(nat \<Rightarrow> 32 word) \<Rightarrow> nat \<Rightarrow> srw \<Rightarrow> bool" for addr N where
  safe_init: "srw_safe addr N RtlInitializeSRWLock"
| safe_step: "srw_safe addr N s \<Longrightarrow> srw_step addr N s s' \<Longrightarrow> (\<And>t. pcs s t = TryS 0 \<Longrightarrow> pcs s' t \<noteq> HoldS) \<Longrightarrow> srw_safe addr N s'"

lemma srw_step_ok:
  assumes "srw_step addr N s s'" "addr_ok addr N" "srw_ok addr N s" "\<And>t. pcs s t = TryS 0 \<Longrightarrow> pcs s' t \<noteq> HoldS"
  shows "srw_ok addr N s'"
proof -
  obtain q j d where I: "srw_inv addr N s q j d" using assms(3) by (auto simp: srw_ok_def)
  from assms(1) show ?thesis
  proof cases
    case (inside t junk)
    have "Ptr s \<noteq> 0" if "pcs s t = TryS 0" using assms(4)[OF that] inside(2) that by (auto simp: RtlTryAcquireSRWLockShared_step_def)
    then show ?thesis using srw_next_ok[OF assms(2,3) inside(1), of junk] inside(2) by auto
  next
    case (release_exclusive t)
    then show ?thesis using srw_okI[OF inv_release_exclusive[OF assms(2) I]] by simp
  next
    case (release_shared t)
    then show ?thesis using srw_okI[OF inv_release_shared[OF assms(2) I]] by simp
  next
    case (keyed_event t u p nxt k e old)
    then show ?thesis using inv_keyed_event[OF assms(2) I] by simp
  qed (use inv_first_attempts[OF assms(2) I] in simp_all)
qed

lemma init_ok: "srw_ok addr N RtlInitializeSRWLock"
proof (rule srw_okI)
  show "srw_inv addr N RtlInitializeSRWLock [] 0 (\<lambda>_. [])"
    by (simp add: srw_inv_def RtlInitializeSRWLock_def lock_ok_def link_ok_def lists_ok_def wait_ok_def listed_def)
qed

lemma srw_safe_ok: "srw_safe addr N s \<Longrightarrow> addr_ok addr N \<Longrightarrow> srw_ok addr N s"
  by (induction rule: srw_safe.induct) (auto intro: init_ok srw_step_ok)

end
