(* ===== verification/Srw_Live.thy ===== *)
theory Srw_Live
  imports Srw_Safe
begin

text \<open>No waiting thread is forgotten: when threads wait and nobody holds the lock or works on the queue, a thread is on its way that will.\<close>

fun on_way :: "srw_pc \<Rightarrow> bool" where
  "on_way (Reread e) = True"
| "on_way (Acquire e old) = True"
| "on_way (Signal p k) = True"
| "on_way (Key p nxt k) = True"
| "on_way p = False"

text \<open>On its way to the lock, to wake another thread, or woken.\<close>

definition coming :: "(nat \<Rightarrow> 32 word) \<Rightarrow> srw \<Rightarrow> nat \<Rightarrow> bool" where
  "coming addr s t \<longleftrightarrow> on_way (pcs s t) \<or> waits (pcs s t) \<and> \<not> blocked (pcs s t) \<and> (\<exists>n. Nodes s (addr t) = Some n \<and> \<not> has (node_flags n) 2)"

definition responsible :: "(nat \<Rightarrow> 32 word) \<Rightarrow> srw \<Rightarrow> nat \<Rightarrow> bool" where
  "responsible addr s t \<longleftrightarrow> pcs s t = ReleaseX (Ptr s) \<or> coming addr s t"

definition idle_word :: "32 word \<Rightarrow> bool" where
  "idle_word w \<longleftrightarrow> has w 2 \<and> \<not> has w 1 \<and> \<not> has w 4"

definition served :: "(nat \<Rightarrow> 32 word) \<Rightarrow> nat \<Rightarrow> srw \<Rightarrow> bool" where
  "served addr N s \<longleftrightarrow> (idle_word (Ptr s) \<longrightarrow> (\<exists>t < N. responsible addr s t))"

lemma served_word: "\<not> idle_word (Ptr s) \<Longrightarrow> served addr N s"
  by (simp add: served_def)

lemma served_on_way: "t < N \<Longrightarrow> on_way (pcs s t) \<Longrightarrow> served addr N s"
  by (auto simp: served_def responsible_def coming_def)

lemma busy_word:
  assumes "srw_ok addr N s" "pcs s t = HoldX \<or> sharing (pcs s t) \<or> clearing (pcs s t) \<or> linking (pcs s t)"
  shows "\<not> idle_word (Ptr s)"
proof -
  obtain q j d where I: "srw_inv addr N s q j d" using assms(1) by (auto simp: srw_ok_def)
  show ?thesis using assms(2) lock_free(1-3)[OF srw_invD(1)[OF I]] srw_invD(4)[OF I] by (auto simp: idle_word_def link_ok_def)
qed

lemma served_busy: "srw_ok addr N s \<Longrightarrow> pcs s t = HoldX \<or> sharing (pcs s t) \<or> clearing (pcs s t) \<or> linking (pcs s t) \<Longrightarrow> served addr N s"
  using busy_word served_word by blast

text \<open>A step of a thread that is not responsible, on a word that stays.\<close>

lemma served_keep:
  assumes "served addr N s" "\<not> responsible addr s t"
    "Ptr s' = Ptr s" "\<And>u. u \<noteq> t \<Longrightarrow> pcs s' u = pcs s u" "\<And>u. u < N \<Longrightarrow> u \<noteq> t \<Longrightarrow> Nodes s' (addr u) = Nodes s (addr u)"
  shows "served addr N s'"
proof -
  have "responsible addr s' u" if "responsible addr s u" "u < N" for u
    using that assms(2,3) assms(4,5)[of u] by (cases "u = t") (auto simp: responsible_def coming_def)
  then show ?thesis using assms(1,3) by (auto simp: served_def)
qed

lemma served_signal:
  assumes A: "addr_ok addr N" and I: "srw_inv addr N s q j d" and t: "t < N" "pcs s t = Signal a k" and s': "signal_step t a k s = Some s'"
  shows "served addr N s'"
proof -
  obtain n where n: "Nodes s a = Some n" using s' by (auto simp: signal_step_def split: bind_splits)
  show ?thesis
  proof (cases "has (node_flags n) 2")
    case True
    have "a \<in> set (d t)" using srw_invD(5)[OF I, of t] t(2) by simp
    then have "listed q d a" unfolding listed_def by blast
    then obtain v where v: "v < N" "a = addr v" "waits (pcs s v)" using wait_okD(1)[OF srw_invD(7)[OF I]] by blast
    then have b: "\<not> blocked (pcs s v)" using wait_okD(3)[OF srw_invD(7)[OF I] v(1,3)] n True by auto
    have e: "s' = s\<lparr>Nodes := (Nodes s)(a \<mapsto> n\<lparr>node_flags := node_flags n AND NOT 2\<rparr>), pcs := (pcs s)(t := signal_next (node_next n) k)\<rparr>"
      using s' n True by (simp add: signal_step_def)
    have "waits (pcs s' v)" "\<not> blocked (pcs s' v)" using v(3) b t(2) unfolding e by (cases "v = t"; simp add: signal_next_def)+
    moreover have "\<exists>m. Nodes s' (addr v) = Some m \<and> \<not> has (node_flags m) 2" unfolding e v(2) by (simp add: has_and)
    ultimately have "coming addr s' v" by (simp add: coming_def)
    then show ?thesis using v(1) unfolding served_def responsible_def by blast
  next
    case False
    then show ?thesis using s' n t(1) by (intro served_on_way[of t]) (auto simp: signal_step_def)
  qed
qed

lemma served_sleep:
  assumes A: "addr_ok addr N" and V: "served addr N s" and t: "t < N" "pcs s t = Waiting e old" and s': "sleep_step t e (addr t) old s = Some s'"
  shows "served addr N s'"
proof -
  obtain n where n: "Nodes s (addr t) = Some n" using s' by (auto simp: sleep_step_def split: bind_splits)
  show ?thesis
  proof (cases "has (node_flags n) 2")
    case True
    have "addr u \<noteq> addr t" if "u < N" "u \<noteq> t" for u using A that t(1) by (auto simp: addr_ok_def inj_on_def)
    then show ?thesis using s' n t(2) True by (intro served_keep[OF V, of t]) (auto simp: sleep_step_def responsible_def coming_def)
  next
    case False
    then show ?thesis using s' n t(1) by (intro served_on_way[of t]) (auto simp: sleep_step_def)
  qed
qed

lemma served_acquire:
  assumes "srw_ok addr N s'" "t < N"
    "s' = RtlAcquireSRWLockExclusive_step t a junk old s \<or> s' = RtlAcquireSRWLockShared_step t a junk old s"
  shows "served addr N s'"
proof -
  consider "on_way (pcs s' t)" | "pcs s' t = HoldX \<or> sharing (pcs s' t)" | "has (Ptr s') 1"
    using assms(3) by (auto simp: RtlAcquireSRWLockExclusive_step_def RtlAcquireSRWLockShared_step_def enqueue_step_def take_step_def exclusive_node_def
      shared_node_def Let_def srw_fields split: if_splits)
  then show ?thesis
  proof cases
    case 3
    then show ?thesis by (intro served_word) (simp add: idle_word_def)
  qed (use assms(2) served_on_way served_busy[OF assms(1)] in blast)+
qed

lemma served_dequeue:
  assumes "srw_ok addr N s'" "t < N" "dequeue_step t old first k s = Some s'"
  shows "served addr N s'"
proof -
  have "on_way (pcs s' t) \<or> linking (pcs s' t)" using assms(3) by (auto simp: dequeue_step_def Let_def split: bind_splits if_splits)
  then show ?thesis using assms(2) served_on_way served_busy[OF assms(1)] by blast
qed

text \<open>The queue is given up only while the lock is held.\<close>

lemma served_wake:
  assumes "srw_ok addr N s'" "wake_step t old k s = Some s'" "has old 4"
  shows "served addr N s'"
proof -
  have "linking (pcs s' t) \<or> has (Ptr s') 1"
    using assms(2) has_add(4)[OF assms(3)] by (auto simp: wake_step_def Let_def srw_fields split: bind_splits if_splits)
  then show ?thesis using served_busy[OF assms(1)] served_word[of s'] by (auto simp: idle_word_def)
qed

lemma served_compress:
  assumes "srw_ok addr N s'" "compress_step t old k s = Some s'" "has old 4"
  shows "served addr N s'"
proof (cases "has old 1")
  case True
  then have "linking (pcs s' t) \<or> has (Ptr s') 1"
    using assms(2) has_add(4)[OF assms(3)] by (auto simp: compress_step_def Let_def srw_fields split: bind_splits if_splits)
  then show ?thesis using served_busy[OF assms(1)] served_word[of s'] by (auto simp: idle_word_def)
next
  case False
  then show ?thesis using served_wake[OF assms(1) _ assms(3)] assms(2) by (simp add: compress_step_def)
qed

section \<open>Releasing\<close>

lemma served_clear:
  assumes "srw_ok addr N s" "sharing (pcs s t) \<or> clearing (pcs s t)"
  shows "served addr N (clear_step t old s)"
proof -
  have "Ptr (clear_step t old s) = Ptr s \<or> has (Ptr (clear_step t old s)) 4" by (auto simp: clear_step_def Let_def srw_fields)
  then show ?thesis using busy_word[OF assms(1), of t] assms(2) by (intro served_word) (auto simp: idle_word_def)
qed

lemma unshare_word:
  assumes A: "addr_ok addr N" and I: "srw_inv addr N s q j d" and t: "t < N" "sharing (pcs s t)" "\<not> has (Ptr s) 2"
  shows "\<not> has (if item (Ptr s) \<le> 16 then 0 else Ptr s - 16) 2"
proof -
  have c: "card (Ss (pcs s)) < 2 ^ 28" using inv_sets(2)[OF I t(1)] A by (simp add: addr_ok_def)
  have "q = []" using lock_wait[OF srw_invD(1)[OF I]] t(3) by simp
  then show ?thesis using lock_nowait(1)[OF lock_unshare[OF srw_invD(1)[OF I] t(3) _ inv_sets(1)[OF I t(1)] c]] t(2) by blast
qed

lemma served_release_shared:
  assumes A: "addr_ok addr N" and I: "srw_inv addr N s q j d" and t: "t < N" "pcs s t = ReleaseS old" and s': "RtlReleaseSRWLockShared_step t old s = Some s'"
  shows "served addr N s'"
proof -
  consider "\<not> has old 2" "Ptr s = old" | "has old 2" "\<not> has old 8" | "Ptr s' = Ptr s"
    using s' by (auto simp: RtlReleaseSRWLockShared_step_def Let_def split: bind_splits if_splits)
  then show ?thesis
  proof cases
    case 1
    then have "Ptr s' = (if item (Ptr s) \<le> 16 then 0 else Ptr s - 16)" using s' by (auto simp: RtlReleaseSRWLockShared_step_def Let_def)
    then show ?thesis using unshare_word[OF A I t(1)] t(2) 1 by (intro served_word) (simp add: idle_word_def)
  next
    case 2
    then show ?thesis using s' served_clear[OF srw_okI[OF I], of t] t(2) by (auto simp: RtlReleaseSRWLockShared_step_def)
  next
    case 3
    then show ?thesis using busy_word[OF srw_okI[OF I], of t] t(2) by (intro served_word) simp
  qed
qed

section \<open>All steps\<close>

lemma served_next:
  assumes A: "addr_ok addr N" and I: "srw_inv addr N s q j d" and V: "served addr N s" and t: "t < N"
    and s': "srw_next addr junk t (pcs s t) s = Some s'" "srw_ok addr N s'"
  shows "served addr N s'"
proof (cases "pcs s t")
  case (Acquire e old)
  then show ?thesis using served_acquire[OF s'(2) t, of "addr t" junk old s] s'(1) by (auto split: if_splits)
next
  case (ReleaseX old)
  then have o: "\<not> has old 4" using srw_invD(5)[OF I, of t] by simp
  show ?thesis
  proof (cases "Ptr s = old")
    case True
    then have "has (Ptr s') 4" using s'(1) ReleaseX has_add(3)[OF o] by (auto simp: RtlReleaseSRWLockExclusive_step_def srw_fields)
    then show ?thesis by (intro served_word) (simp add: idle_word_def)
  next
    case False
    then show ?thesis using s'(1) ReleaseX by (intro served_keep[OF V, of t]) (auto simp: RtlReleaseSRWLockExclusive_step_def responsible_def coming_def)
  qed
next
  case (Reread e)
  then show ?thesis using s'(1) t by (intro served_on_way[of t]) auto
next
  case RereadTry
  then show ?thesis using s'(1) by (intro served_keep[OF V, of t]) (auto simp: responsible_def coming_def)
next
  case (TryS old)
  show ?thesis
  proof (cases "pcs s' t = HoldS")
    case True
    then show ?thesis using served_busy[OF s'(2), of t] by simp
  next
    case False
    then show ?thesis using s'(1) TryS
      by (intro served_keep[OF V, of t]) (auto simp: RtlTryAcquireSRWLockShared_step_def responsible_def coming_def Let_def split: if_splits)
  qed
next
  case (Clear old)
  then show ?thesis using served_clear[OF srw_okI[OF I], of t old] s'(1) by auto
next
  case (ReleaseS old)
  then show ?thesis using served_release_shared[OF A I t] s'(1) by simp
next
  case (Compress old k)
  then show ?thesis using served_compress[OF s'(2)] s'(1) srw_invD(5)[OF I, of t] by (simp add: behind_def)
next
  case (Wake old k)
  then show ?thesis using served_wake[OF s'(2)] s'(1) srw_invD(5)[OF I, of t] by (simp add: behind_def)
qed (use s' V served_sleep[OF A V t] served_dequeue[OF s'(2) t] served_signal[OF A I t] in simp_all)

lemma served_step:
  assumes "srw_step addr N s s'" "addr_ok addr N" "srw_ok addr N s" "srw_ok addr N s'" "served addr N s"
  shows "served addr N s'"
proof -
  obtain q j d where I: "srw_inv addr N s q j d" using assms(3) by (auto simp: srw_ok_def)
  from assms(1) show ?thesis
  proof cases
    case (acquire_exclusive t)
    then show ?thesis using served_on_way[of t N s'] served_busy[OF assms(4), of t] by (auto simp: RtlAcquireSRWLockExclusive_def split: if_splits)
  next
    case (acquire_shared t)
    then show ?thesis using served_on_way[of t N s'] served_busy[OF assms(4), of t] by (auto simp: RtlAcquireSRWLockShared_def split: if_splits)
  next
    case (try_exclusive t)
    then show ?thesis using assms(5) served_busy[OF assms(4), of t] by (auto simp: RtlTryAcquireSRWLockExclusive_def split: if_splits)
  next
    case (try_shared t)
    show ?thesis
    proof (cases "Ptr s = 0")
      case False
      then show ?thesis using try_shared by (intro served_keep[OF assms(5), of t]) (auto simp: RtlTryAcquireSRWLockShared_def responsible_def coming_def)
    qed (use try_shared served_busy[OF assms(4), of t] in \<open>simp add: RtlTryAcquireSRWLockShared_def\<close>)
  next
    case (release_exclusive t)
    have "Ptr s - 1 = Ptr s AND NOT 1" using lock_exclusive(4)[OF srw_invD(1)[OF I], of t] release_exclusive(3) by (intro has_add(2)) simp
    then have "idle_word (Ptr s') \<longrightarrow> pcs s' t = ReleaseX (Ptr s')"
      unfolding release_exclusive(1) RtlReleaseSRWLockExclusive_def Let_def by (simp add: idle_word_def srw_fields)
    then show ?thesis using release_exclusive(2) by (auto simp: served_def responsible_def)
  next
    case (release_shared t)
    show ?thesis
    proof (cases "Ptr s = 0x11")
      case True
      then show ?thesis unfolding release_shared(1) by (intro served_word) (simp add: RtlReleaseSRWLockShared_def idle_word_def)
    qed (use release_shared served_busy[OF assms(4), of t] in \<open>simp add: RtlReleaseSRWLockShared_def\<close>)
  next
    case (inside t junk)
    then show ?thesis using served_next[OF assms(2) I assms(5) inside(1) _ assms(4)] by blast
  next
    case (keyed_event t u p nxt k e old)
    then show ?thesis by (intro served_on_way[of u]) simp_all
  qed
qed

lemma srw_safe_served: "srw_safe addr N s \<Longrightarrow> addr_ok addr N \<Longrightarrow> served addr N s"
proof (induction rule: srw_safe.induct)
  case safe_init
  show ?case by (rule served_word) (simp add: idle_word_def RtlInitializeSRWLock_def)
next
  case (safe_step s s')
  then show ?case using served_step[OF safe_step(2,5)] srw_safe_ok[OF safe_step(1,5)] srw_step_ok[OF safe_step(2,5)] by blast
qed

end
