(* ===== verification/Srw_Props.thy ===== *)
theory Srw_Props
  imports Srw_Live
begin

text \<open>What the locks promise: exclusion, no access to nodes that are gone, no forgotten thread, a free lock in the end; and the execution in which
  \<open>RtlTryAcquireSRWLockShared\<close> breaks exclusion.\<close>

section \<open>An execution\<close>

text \<open>Two threads, with nodes at 16 and 32: thread 0 takes the lock exclusively; thread 1 asks for it, queues its node and goes to sleep; thread 0
  releases the lock and is about to signal the keyed event of that node.\<close>

definition frame :: "nat \<Rightarrow> 32 word" where
  "frame t = 16 * (of_nat t + 1)"

definition two :: "32 word \<Rightarrow> srw_nodes \<Rightarrow> srw_pc \<Rightarrow> srw_pc \<Rightarrow> srw" where
  "two w h p0 p1 = \<lparr>Ptr = w, Nodes = h, pcs = (\<lambda>_. Idle)(0 := p0, 1 := p1)\<rparr>"

definition one_node :: "32 word \<Rightarrow> SRW_WAIT_NODE" where
  "one_node f = \<lparr>node_prev = 0, node_head = 32, node_next = 0, shareSnapshot = 0, node_flags = f\<rparr>"

definition one_waits :: srw where
  "one_waits = two 35 [32 \<mapsto> one_node 1] HoldX (Blocked True 1)"

definition one_woken :: srw where
  "one_woken = two 0 [32 \<mapsto> one_node 1] (Key 32 0 ToCaller) (Blocked True 1)"

lemma two_simps [simp]:
  "Ptr (two w h a b) = w" "Nodes (two w h a b) = h" "pcs (two w h a b) 0 = a" "pcs (two w h a b) 1 = b" "pcs (two w h a b) (Suc 0) = b"
  "(two w h a b)\<lparr>pcs := (pcs (two w' h' a b))(0 := p)\<rparr> = two w h p b" "(two w h a b)\<lparr>pcs := (pcs (two w' h' a b))(1 := p)\<rparr> = two w h a p"
  "(two w h a b)\<lparr>pcs := (pcs (two w' h' a b))(Suc 0 := p)\<rparr> = two w h a p"
  "(two w h a b)\<lparr>Ptr := w'\<rparr> = two w' h a b" "(two w h a b)\<lparr>Nodes := h'\<rparr> = two w h' a b"
  by (auto simp: two_def fun_eq_iff)

lemma frame_ok: "addr_ok frame 2"
proof -
  have "{..<2} = {0, Suc 0}" by auto
  then show ?thesis by (auto simp: addr_ok_def frame_def aligned_def less_2_cases_iff)
qed

lemma safe_two:
  assumes "srw_safe addr N (two w h a b)" "t < N" "srw_next addr 0 t (pcs (two w h a b) t) (two w h a b) = Some s'" "a \<noteq> TryS 0" "b \<noteq> TryS 0"
  shows "srw_safe addr N s'"
  by (rule safe_step[OF assms(1) inside[OF assms(2,3)]]) (use assms(4,5) in \<open>auto simp: two_def split: if_splits\<close>)

lemma one_waits_safe: "srw_safe frame 2 one_waits"
proof -
  have i: "RtlInitializeSRWLock = two 0 Map.empty Idle Idle" by (auto simp: two_def RtlInitializeSRWLock_def)
  have x0: "RtlAcquireSRWLockExclusive 0 (two 0 Map.empty Idle Idle) = two 1 Map.empty HoldX Idle"
    and x1: "RtlAcquireSRWLockExclusive 1 (two 1 Map.empty HoldX Idle) = two 1 Map.empty HoldX (Reread True)"
    by (simp_all add: RtlAcquireSRWLockExclusive_def has_consts)
  have 1: "srw_safe frame 2 (two 1 Map.empty HoldX Idle)" unfolding x0[symmetric] i[symmetric]
    by (rule safe_step[OF safe_init acquire_exclusive]) (simp_all add: RtlInitializeSRWLock_def)
  have 2: "srw_safe frame 2 (two 1 Map.empty HoldX (Reread True))" unfolding x1[symmetric]
    by (rule safe_step[OF 1 acquire_exclusive]) (auto simp: two_def split: if_splits)
  have 3: "srw_safe frame 2 (two 1 Map.empty HoldX (Acquire True 1))" by (rule safe_two[OF 2, of 1]) simp_all
  have 4: "srw_safe frame 2 (two 35 [32 \<mapsto> one_node 3] HoldX (Waiting True 1))" by (rule safe_two[OF 3, of 1])
    (simp_all add: has_consts RtlAcquireSRWLockExclusive_step_def enqueue_step_def exclusive_node_def frame_def one_node_def)
  show ?thesis unfolding one_waits_def by (rule safe_two[OF 4, of 1]) (simp_all add: sleep_step_def frame_def one_node_def has_consts)
qed

lemma one_woken_safe: "srw_safe frame 2 one_woken"
proof -
  let ?h = "[32 \<mapsto> one_node 1]"
  have x: "RtlReleaseSRWLockExclusive 0 one_waits = two 34 ?h (ReleaseX 34) (Blocked True 1)"
    by (simp add: RtlReleaseSRWLockExclusive_def one_waits_def has_def)
  have 1: "srw_safe frame 2 (two 34 ?h (ReleaseX 34) (Blocked True 1))" unfolding x[symmetric]
    by (rule safe_step[OF one_waits_safe release_exclusive]) (auto simp: one_waits_def two_def split: if_splits)
  have 2: "srw_safe frame 2 (two 38 ?h (Wake 38 ToCaller) (Blocked True 1))"
    by (rule safe_two[OF 1, of 0]) (simp_all add: RtlReleaseSRWLockExclusive_step_def)
  have l: "link_loop ?h 32 = Some (?h, 32, 32)" by (subst link_loop.simps) (simp add: one_node_def)
  have 3: "srw_safe frame 2 (two 38 ?h (Dequeue 38 32 ToCaller) (Blocked True 1))"
    by (rule safe_two[OF 2, of 0]) (simp_all add: wake_step_def has_def item_def l)
  have 4: "srw_safe frame 2 (two 0 ?h (Signal 32 ToCaller) (Blocked True 1))"
    by (rule safe_two[OF 3, of 0]) (simp_all add: dequeue_step_def item_def one_node_def)
  show ?thesis unfolding one_woken_def by (rule safe_two[OF 4, of 0]) (simp_all add: signal_step_def one_node_def has_consts)
qed

section \<open>Properties\<close>

text \<open>C2: mutual exclusion. While a thread holds the lock exclusively, no other thread holds it, exclusively or shared, in every execution in
  which no thread takes a lock that it has read as free inside \<open>RtlTryAcquireSRWLockShared\<close>.\<close>

theorem srw_exclusion:
  assumes "addr_ok addr N" "srw_safe addr N s" "pcs s t = HoldX" "u \<noteq> t"
  shows "pcs s u \<noteq> HoldX \<and> pcs s u \<noteq> HoldS"
proof -
  obtain q j d where I: "srw_inv addr N s q j d" using srw_safe_ok[OF assms(2,1)] by (auto simp: srw_ok_def)
  have "t \<in> Xs (pcs s)" "t \<notin> Ss (pcs s)" "t \<notin> Cs (pcs s)" using assms(3) by simp_all
  note x = lock_exclusive(1,2)[OF srw_invD(1)[OF I] this]
  have "u \<notin> Xs (pcs s)" "u \<notin> Ss (pcs s)" unfolding x using assms(4) by simp_all
  then show ?thesis by auto
qed

theorem srw_exclusion_witness:
  "addr_ok frame 2 \<and> srw_safe frame 2 one_waits \<and> pcs one_waits 0 = HoldX \<and> pcs one_waits 1 \<noteq> HoldX \<and> pcs one_waits 1 \<noteq> HoldS"
  using srw_exclusion[OF frame_ok one_waits_safe, of 0 1] frame_ok one_waits_safe by (simp add: one_waits_def)

text \<open>C5: a thread inside a routine of a lock can always go on: the walks along the queue end, and no step uses the node of a thread
  that has left its frame.\<close>

theorem srw_memory_safe:
  assumes "addr_ok addr N" "srw_safe addr N s" "t < N"
  shows "\<exists>s'. srw_next addr junk t (pcs s t) s = Some s'"
proof (cases "pcs s t = TryS 0")
  case False
  then show ?thesis using srw_next_ok[OF assms(1) srw_safe_ok[OF assms(2,1)] assms(3)] by blast
qed simp

theorem srw_memory_safe_witness: "addr_ok frame 2 \<and> srw_safe frame 2 one_waits \<and> (\<exists>s'. srw_next frame 7 1 (pcs one_waits 1) one_waits = Some s')"
  using srw_memory_safe[OF frame_ok one_waits_safe, of 1 7] frame_ok one_waits_safe by simp

text \<open>C8: no thread sleeps forever for want of a waker: while a thread sleeps, another one holds the lock or is inside a routine and awake.\<close>

theorem srw_no_deadlock:
  assumes "addr_ok addr N" "srw_safe addr N s" "pcs s t = Blocked e old"
  shows "\<exists>u < N. pcs s u \<noteq> Idle \<and> \<not> blocked (pcs s u)"
proof -
  obtain q j d where I: "srw_inv addr N s q j d" using srw_safe_ok[OF assms(2,1)] by (auto simp: srw_ok_def)
  note D = srw_invD[OF I]
  have lt: "u < N" if "pcs s u \<noteq> Idle" for u using D(8)[of u] that by (meson not_le)
  have "\<exists>u. pcs s u \<noteq> Idle \<and> \<not> blocked (pcs s u)"
  proof (cases "addr t \<in> set q")
    case True
    then have w: "has (Ptr s) 2" using lock_wait[OF D(1)] by auto
    consider "has (Ptr s) 1" | "has (Ptr s) 4" | "idle_word (Ptr s)" using w by (auto simp: idle_word_def)
    then show ?thesis
    proof cases
      case 1
      then have "Xs (pcs s) \<union> Ss (pcs s) \<union> Cs (pcs s) \<noteq> {}" using D(1) w by (auto simp: lock_ok_def split: if_splits)
      then obtain u where "pcs s u = HoldX \<or> sharing (pcs s u) \<or> clearing (pcs s u)" by auto
      then show ?thesis by (intro exI[of _ u]) (cases "pcs s u"; simp)
    next
      case 2
      then obtain u where "linking (pcs s u)" using D(4) by (auto simp: link_ok_def)
      then show ?thesis by (intro exI[of _ u]) (cases "pcs s u"; simp)
    next
      case 3
      then obtain u where "responsible addr s u" using srw_safe_served[OF assms(2,1)] by (auto simp: served_def)
      then show ?thesis by (intro exI[of _ u]) (cases "pcs s u"; simp add: responsible_def coming_def)
    qed
  next
    case False
    have "t < N" using lt[of t] assms(3) by simp
    then have "listed q d (addr t)" using wait_okD(2)[OF D(7)] assms(3) by simp
    then obtain u where "addr t \<in> set (d u)" using False unfolding listed_def by blast
    then have "d u \<noteq> []" by auto
    then show ?thesis using D(5)[of u] by (intro exI[of _ u]) (cases "pcs s u"; simp)
  qed
  then show ?thesis using lt by blast
qed

theorem srw_no_deadlock_witness:
  "srw_safe frame 2 one_waits \<and> pcs one_waits 1 = Blocked True 1 \<and> (\<exists>u < 2. pcs one_waits u \<noteq> Idle \<and> \<not> blocked (pcs one_waits u))"
  using srw_no_deadlock[OF frame_ok one_waits_safe, of 1 True 1] one_waits_safe by (simp add: one_waits_def)

text \<open>C38: a thread that signals the keyed event of a node meets the thread of that node, which sleeps there: \<open>NtReleaseKeyedEvent\<close> is not
  called for a thread that never comes.\<close>

theorem srw_signal_meets:
  assumes "addr_ok addr N" "srw_safe addr N s" "pcs s t = Key p nxt k"
  shows "\<exists>u < N. addr u = p \<and> blocked (pcs s u)"
proof -
  obtain q j d where I: "srw_inv addr N s q j d" using srw_safe_ok[OF assms(2,1)] by (auto simp: srw_ok_def)
  obtain n where n: "p \<in> set (d t)" "Nodes s p = Some n" "\<not> has (node_flags n) 2" using srw_invD(5)[OF I, of t] assms(3) by auto
  have l: "listed q d p" unfolding listed_def using n(1) by blast
  then obtain u where u: "u < N" "p = addr u" "waits (pcs s u)" using wait_okD(1)[OF srw_invD(7)[OF I]] by blast
  then show ?thesis using wait_okD(3)[OF srw_invD(7)[OF I] u(1,3)] n l by auto
qed

theorem srw_signal_meets_witness:
  "srw_safe frame 2 one_woken \<and> pcs one_woken 0 = Key 32 0 ToCaller \<and> (\<exists>u < 2. frame u = 32 \<and> blocked (pcs one_woken u))"
  using srw_signal_meets[OF frame_ok one_woken_safe, of 0 32 0 ToCaller] one_woken_safe by (simp add: one_woken_def)



text \<open>C40: \<open>RtlTryAcquireSRWLockShared\<close> can break exclusion: after a failed exchange it may read the lock as free and then stores a share
  count without the flag \<open>SRWF_Hold\<close>, so that another thread takes the lock exclusively while it is held shared.\<close>

theorem srw_try_shared_breaks: "\<exists>s. srw_reach addr 3 s \<and> pcs s 1 = HoldS \<and> pcs s 2 = HoldX"
proof -
  let ?s1 = "RtlAcquireSRWLockShared 0 RtlInitializeSRWLock"
  let ?s2 = "RtlTryAcquireSRWLockShared 1 ?s1"
  let ?s3 = "RtlReleaseSRWLockShared 0 ?s2"
  let ?s4 = "goto 1 RereadTry ?s3"
  let ?s5 = "goto 1 (TryS 0) ?s4"
  let ?s6 = "(goto 1 HoldS ?s5)\<lparr>Ptr := 16\<rparr>"
  let ?s7 = "RtlAcquireSRWLockExclusive 2 ?s6"
  note d = RtlAcquireSRWLockShared_def RtlTryAcquireSRWLockShared_def RtlReleaseSRWLockShared_def RtlInitializeSRWLock_def
    RtlTryAcquireSRWLockShared_step_def RtlAcquireSRWLockExclusive_def has_def item_def
  have 1: "srw_reach addr 3 ?s1" by (rule step[OF init acquire_shared]) (simp_all add: d)
  have 2: "srw_reach addr 3 ?s2" by (rule step[OF 1 try_shared]) (simp_all add: d)
  have 3: "srw_reach addr 3 ?s3" by (rule step[OF 2 release_shared]) (simp_all add: d)
  have "srw_next addr 0 1 (pcs ?s3 1) ?s3 = Some ?s4" by (simp add: d)
  then have 4: "srw_reach addr 3 ?s4" by (intro step[OF 3 inside[of 1]]) simp_all
  have "srw_next addr 0 1 (pcs ?s4 1) ?s4 = Some ?s5" by (simp add: d)
  then have 5: "srw_reach addr 3 ?s5" by (intro step[OF 4 inside[of 1]]) simp_all
  have "srw_next addr 0 1 (pcs ?s5 1) ?s5 = Some ?s6" by (simp add: d)
  then have 6: "srw_reach addr 3 ?s6" by (intro step[OF 5 inside[of 1]]) simp_all
  have "srw_reach addr 3 ?s7" by (rule step[OF 6 acquire_exclusive]) (simp_all add: d)
  then show ?thesis by (intro exI[of _ ?s7]) (simp add: d)
qed

end
