(* ===== verification/Spec2Isabelle.thy ===== *)
theory Spec2Isabelle
  imports Bitmap_Props RtlTime_Correct Woa_Machine RunOnce_Props LargeInt Crc32_Correct RtlMisc_Correct
    RangeList_Correct Acl_Props Avl_Props Srw_Props
begin

text \<open>
  A verification library for parts of One-Core-API: the run-time library routines of the ReactOS tree it is
  built from (\<open>src/sdk/lib/rtl\<close>) and the synchronisation primitives it adds to Windows XP and 2003
  (\<open>src/oca/extensions/ntext/rtl/synch.c\<close>).

  \<^bold>\<open>How the code is read.\<close> The build is the i386 one: \<open>ULONG\<close> and pointers have 32 bits, words wrap around.
  Routines are functions on explicit state; \<open>NTSTATUS\<close> values are words. \<open>None\<close> is an access outside the
  memory a routine was given, the use of freed memory, an undefined operation, or a loop that does not end,
  so that every theorem with a conclusion \<open>f x = Some r\<close> also says that the routine returns and touches
  nothing else. System calls, allocation and the caller's callbacks are arguments.

  \<^bold>\<open>Shared theories.\<close> \<open>Prelude\<close> has the types, statuses, array accesses \<open>rd\<close> and \<open>wr\<close>, and facts on words.
  \<open>Bytes\<close> has little-endian fields and moves in a byte buffer. \<open>Refinement\<close> has the interface between a
  component on memory and its specification.

  \<^bold>\<open>Bitmaps\<close> (\<open>bitmap.c\<close>; theories \<open>Bitmap\<close>, \<open>Bitmap_Correct\<close>, \<open>Bitmap_Update\<close>, \<open>Bitmap_Props\<close>). A header is its
  size and its array of 32-bit words. The scanners \<open>RtlpGetLengthOfRunClear\<close> and \<open>RtlpGetLengthOfRunSet\<close> meet
  the contract of the locale \<open>run_scanner\<close>; the search routines are verified once over it and once for each
  bit value through interpretations. Setting and clearing ranges, counting, testing and all searches are
  exact with respect to the bits, for all alignments; \<open>RtlFindClearBits\<close> misses a run that ends with the
  last bit.

  \<^bold>\<open>Time\<close> (\<open>time.c\<close>; \<open>RtlTime\<close>, \<open>RtlTime_Correct\<close>). Times are integers in the range of \<open>LONGLONG\<close>. The conversions
  between times and calendar fields are inverse to each other for all representable years, invalid dates
  are rejected, and a recurring cutover is the right weekday of the month.

  \<^bold>\<open>Wait on address\<close> (\<open>synch.c\<close>; \<open>WaitOnAddress\<close>, \<open>Woa_Lists\<close>, \<open>Woa_Machine\<close>). The hash buckets hold circular
  lists of wait blocks that live in the frames of the waiting threads. A section under the bucket lock is
  one step; threads interleave. No step reads a block whose frame is gone, a blocked thread is queued or has
  been signalled, and waking is first in first out. \<open>RtlWakeAddressAll\<close> wakes only one waiter when the
  list starts with one of the address.

  \<^bold>\<open>One-time initialisation\<close> (\<open>synch.c\<close>; \<open>RunOnce\<close>, \<open>RunOnce_Inv\<close>, \<open>RunOnce_Props\<close>). Each access to shared memory is
  a step. Threads waiting for the initialisation form a chain through their frames. At most one thread
  initialises, the result is final, no waiter is lost.

  \<^bold>\<open>Large integers\<close> (\<open>largeint.c\<close>; \<open>LargeInt\<close>). \<open>RtlExtendedMagicDivide\<close> is exact division by the constants whose
  magic number it is given.

  \<^bold>\<open>Small routines\<close> (\<open>crc32.c\<close>, \<open>random.c\<close>, \<open>encode.c\<close>, \<open>access.c\<close>, \<open>luid.c\<close>; \<open>RtlMisc\<close>, \<open>RtlMisc_Correct\<close>,
  \<open>Crc32_Correct\<close>). The table-driven CRC is the bitwise one, scrambled strings can be read back, and the
  random generators stay in range.

  \<^bold>\<open>Range lists\<close> (\<open>rangelist.c\<close>; \<open>RangeList\<close>, \<open>RangeList_Correct\<close>). The linked list is the list of its entries; a
  pool counter bounds the allocations. Adding and deleting keep the list sorted, \<open>RtlFindRange\<close> finds the
  highest place, \<open>RtlInvertRangeList\<close> covers the complement except at the top of the address space.

  \<^bold>\<open>Security identifiers\<close> (\<open>sid.c\<close>; \<open>Sid\<close>, \<open>Sid_Correct\<close>) as bytes. Equality and the text identify a SID; the text
  fits its buffer.

  \<^bold>\<open>Access control lists\<close> (\<open>acl.c\<close>; \<open>Acl\<close>, \<open>Acl_Correct\<close>, \<open>Acl_Props\<close>) as bytes. \<open>acl_rep\<close> relates the bytes to a
  revision, a size and a list of ACEs; the routines refine the list operations of \<open>acl_spec\<close>, through an
  interpretation of \<open>refinement\<close>. Sizes and revisions that make the routines loop or leave an invalid ACL
  are stated as theorems.

  \<^bold>\<open>AVL tables\<close> (\<open>avlsupp.c\<close>, \<open>avltable.c\<close>; \<open>Links\<close>, \<open>Avl\<close>, \<open>Avl_Zipper\<close>, \<open>Avl_Balance\<close>, \<open>Avl_Walk\<close>, \<open>Avl_Insert\<close>,
  \<open>Avl_Delete\<close>, \<open>Avl_Nodes\<close>, \<open>Avl_Table\<close>, \<open>Avl_Props\<close>). Nodes are linked in memory, with the table's own node above the
  root. \<open>rep\<close> relates the memory to a tree and the path to a place in it; moving the place changes
  nothing, so that rotations and the loops up the tree are proved at one place, by induction on the path.
  \<open>table_rel\<close> relates a table to the ordered list of its elements and the position of the enumeration; the
  routines refine the list operations of \<open>table_spec\<close> through an interpretation of \<open>guarded_refinement\<close>, where
  the guard is that the allocate routine returns unused memory. The tree stays balanced, the depth is at
  most 45, and enumerating and deleting can be mixed.

  \<^bold>\<open>Slim reader-writer locks\<close> (\<open>synch.c\<close>; \<open>Srw\<close>, \<open>Srw_Words\<close>, \<open>Srw_Queue\<close>, \<open>Srw_Inv\<close>, \<open>Srw_Word_Steps\<close>, \<open>Srw_Node_Steps\<close>,
  \<open>Srw_Wait_Steps\<close>, \<open>Srw_Safe\<close>, \<open>Srw_Live\<close>, \<open>Srw_Props\<close>). The lock is one word of flags with a share count or the address of the last wait
  node; wait nodes are in the frames of the waiting threads and are linked lazily by whoever owns the link flag.
  Each interlocked access is a step (\<open>srw_next\<close>, \<open>srw_step\<close>). The invariant \<open>srw_inv\<close> names the queue, how far it is linked, and the
  nodes each thread has taken off and not woken. Exclusion, memory safety, and that no sleeping thread is
  forgotten hold in all executions except those in which \<open>RtlTryAcquireSRWLockShared\<close> takes a lock that it has
  read as free again, which breaks exclusion (\<open>srw_try_shared_breaks\<close>). There are fewer than \<open>2 ^ 28\<close> threads, so that
  the share count does not overflow.

  \<^bold>\<open>Bounds.\<close> Loops are structural recursions on the remaining count or bits; the loop of \<open>RtlAddAce\<close>, which
  may not end, is a partial function, and so are the scans whose end depends on the contents of memory. No
  theorem depends on a chosen amount of fuel.

  \<^bold>\<open>Not modelled.\<close> The kernel, drivers, window manager, applications and the imported DLLs of the ReactOS and
  Wine trees, which this project takes over; the wrappers and API sets, which forward to them; condition
  variables, whose queue is spliced into that of a lock; splay trees and generic tables; of
  the run-time library the routines whose effect is a system call, an unwinding of the stack or a change
  of the loader's state. Locks inside the kernel, paging, and the instruction-level memory order below the
  interlocked operations are not part of the model: steps are sequentially consistent.
\<close>

end
